theory Spec2Isabelle
  imports Main "HOL-Library.Word" "HOL-Library.Monad_Syntax"
begin

unbundle bit_operations_syntax

section \<open>The decoding virtual machine of yactfr\<close>

text \<open>
  This development embeds the decoding VM (\<^verbatim>\<open>vm.hpp\<close>, \<^verbatim>\<open>vm.cpp\<close>) in HOL.
  \<^verbatim>\<open>Size\<close> and \<^verbatim>\<open>Index\<close> are unsigned 64-bit integers, so they are \<open>64 word\<close>:
  addition and subtraction wrap as in C++. An exception is a value \<open>Throw e vm\<close>
  which also carries the VM as it is at the \<^verbatim>\<open>throw\<close>; a failed \<^verbatim>\<open>assert\<close> is the
  outcome \<open>Throw AssertionFailed vm\<close>.
\<close>

subsection \<open>Basic types\<close>

type_synonym Size = "64 word"
type_synonym Index = "64 word"
type_synonym TypeId = "64 word"
type_synonym byte = "8 word"

definition SIZE_UNSET :: Size where
  "SIZE_UNSET = - 1"

definition SAVED_VAL_UNSET :: "64 word" where
  "SAVED_VAL_UNSET = - 1"

datatype VmState =
    BEGIN_PKT
  | BEGIN_PKT_CONTENT
  | END_PKT_CONTENT
  | END_PKT
  | BEGIN_ER
  | END_ER
  | EXEC_INSTR
  | EXEC_ARRAY_INSTR
  | READ_UUID_BYTE
  | READ_SUBSTR_UNTIL_NULL
  | READ_SUBSTR
  | END_STR
  | SET_TRACE_TYPE_UUID
  | CONTINUE_SKIP_PADDING_BITS
  | CONTINUE_SKIP_CONTENT_PADDING_BITS

datatype ByteOrder = BIG | LITTLE

datatype Scope =
    PACKET_HEADER
  | PACKET_CONTEXT
  | EVENT_RECORD_HEADER
  | EVENT_RECORD_COMMON_CONTEXT
  | EVENT_RECORD_SPECIFIC_CONTEXT
  | EVENT_RECORD_PAYLOAD

text \<open>
  The metadata objects an instruction points to (its data type and its structure member
  type) are not part of the VM; a pointer to one is an opaque reference.
\<close>

type_synonym DtRef = nat

subsection \<open>Instructions and procedures\<close>

datatype IntSign = SINT | UINT

text \<open>
  How a fixed-length bit array is read: \<open>STRADDLE\<close> is the general path
  (\<^verbatim>\<open>_readInt\<close>, any length and any bit offset), \<open>STD n\<close> the byte-aligned path of
  \<^verbatim>\<open>_readStdInt\<close> for a length \<open>n\<close> of 8, 16, 32 or 64 bits.
\<close>

datatype ReadPath = STRADDLE | STD Size

text \<open>
  What a fixed-length bit array is read as. For a floating point number the instruction
  kind fixes the C++ type, \<^verbatim>\<open>float\<close> or \<^verbatim>\<open>double\<close>: \<open>FLOAT_ELEM n\<close> has its size
  \<open>n\<close> in bits, 32 or 64.
\<close>

datatype BitArrayElemKind = INT_ELEM IntSign | ENUM_ELEM IntSign | FLOAT_ELEM Size

text \<open>
  The three instructions which begin a static array: of any elements, of the bytes of a
  text, of the 16 bytes of the trace type's UUID. The two which begin a dynamic array
  differ by a flag, true for a text.
\<close>

datatype ArrayKind = PLAIN_ARRAY | TEXT_ARRAY | UUID_ARRAY

text \<open>
  An integer range set of the metadata (\<^verbatim>\<open>IntegerRangeSet\<close>): the list of its
  ranges, each a pair of a lower and an upper bound, both stored in 64 bits.
\<close>

type_synonym IntRangeSet = "(64 word \<times> 64 word) list"

datatype Instr =
    ReadBitArrayInstr BitArrayElemKind ReadPath DtRef Size Size ByteOrder
  | ReadStrInstr DtRef Size
  | BeginReadScopeInstr Scope Size "Instr list"
  | EndReadScopeInstr
  | BeginReadStructInstr DtRef Size "Instr list"
  | EndReadStructInstr
  | BeginReadStaticArrayInstr ArrayKind DtRef Size Size "Instr list"
  | EndReadStaticArrayInstr
  | EndReadStaticTextArrayInstr
  | BeginReadDynArrayInstr bool DtRef Size Index "Instr list"
  | EndReadDynArrayInstr
  | EndReadDynTextArrayInstr
  | BeginReadVarInstr IntSign DtRef Size Index "(IntRangeSet \<times> Instr list) list"
  | EndReadVarInstr
  | SaveValInstr Index
  | SetPktEndDefClkValInstr
  | UpdateDefClkValInstr Size
  | SetCurrentIdInstr
  | SetDstInstr "TypeId option"
  | SetErtInstr "TypeId option"
  | SetDsIdInstr
  | SetPktOriginIndexInstr
  | SetPktTotalLenInstr
  | SetPktContentLenInstr
  | SetPktMagicNumberInstr
  | EndPktPreambleProcInstr
  | EndDsPktPreambleProcInstr
  | EndDsErPreambleProcInstr
  | EndErProcInstr
  | SetDsInfoInstr
  | SetPktInfoInstr
  | SetErInfoInstr

type_synonym Proc = "Instr list"

record ErProc =
  ert :: DtRef
  erProc :: Proc

record DsPktProc =
  dst :: DtRef
  pktPreambleProc :: Proc
  erPreambleProc :: Proc
  erAlign :: Size
  erProcs :: "(TypeId \<times> ErProc) list"

record PktProc =
  preambleProc :: Proc
  dsPktProcs :: "(TypeId \<times> DsPktProc) list"
  savedValsCount :: Size
  traceTypeUuid :: "byte list option"

subsection \<open>The position \<^verbatim>\<open>VmPos\<close>\<close>

text \<open>
  A stack frame. The iterator \<^verbatim>\<open>it\<close> into the procedure is the index of the next
  instruction; \<^verbatim>\<open>proc->end()\<close> is the length of the procedure.
\<close>

record VmStackFrame =
  proc :: Proc
  it :: nat
  parentState :: VmState
  remElems :: Size

text \<open>
  The element scratch space \<^verbatim>\<open>elems\<close>: for every kind of element the fields the VM
  writes. The two pointers of a substring element are byte indexes into the current
  data block.
\<close>

datatype ElemKind =
    E_pktBeginning | E_end | E_scopeBeginning | E_pktContentBeginning | E_erBeginning
  | E_pktMagicNumber | E_traceTypeUuid | E_defClkVal | E_sInt | E_uInt | E_sEnum | E_uEnum
  | E_flt | E_strBeginning | E_substr | E_staticArrayBeginning | E_staticTextArrayBeginning
  | E_dynArrayBeginning | E_dynTextArrayBeginning | E_structBeginning
  | E_varSSelBeginning | E_varUSelBeginning | E_dsInfo | E_pktInfo | E_erInfo

record Elems =
  scopeBeginning_scope :: Scope
  pktMagicNumber_val :: "64 word"
  traceTypeUuid_uuid :: "byte list"
  defClkVal_cycles :: "64 word"
  sInt_dt :: DtRef
  sInt_val :: "64 word"
  uInt_dt :: DtRef
  uInt_val :: "64 word"
  sEnum_dt :: DtRef
  sEnum_val :: "64 word"
  uEnum_dt :: DtRef
  uEnum_val :: "64 word"
  flt_dt :: DtRef
  flt_val :: "64 word"
  strBeginning_dt :: DtRef
  substr_begin :: int
  substr_end :: int
  staticArrayBeginning_dt :: DtRef
  staticArrayBeginning_len :: Size
  staticTextArrayBeginning_dt :: DtRef
  staticTextArrayBeginning_len :: Size
  dynArrayBeginning_dt :: DtRef
  dynArrayBeginning_len :: Size
  dynTextArrayBeginning_dt :: DtRef
  dynTextArrayBeginning_len :: Size
  structBeginning_dt :: DtRef
  varSSelBeginning_dt :: DtRef
  varSSelBeginning_selVal :: "64 word"
  varUSelBeginning_dt :: DtRef
  varUSelBeginning_selVal :: "64 word"
  dsInfo_dst :: "DtRef option"
  dsInfo_id :: "64 word"
  pktInfo_expectedTotalLen :: "Size option"
  pktInfo_expectedContentLen :: "Size option"
  pktInfo_originIndex :: "64 word"
  pktInfo_endDefClkVal :: "64 word"
  erInfo_ert :: "DtRef option"

text \<open>
  \<^verbatim>\<open>lastIntVal\<close> is a union of an unsigned and a signed 64-bit integer over the same
  storage: one word, read with \<open>unat\<close> or with \<open>sint\<close>.
\<close>

record VmPos =
  curPktOffsetInElemSeqBits :: Index
  headOffsetInCurPktBits :: Index
  elems :: Elems
  theState :: VmState
  postSkipBitsState :: VmState
  postEndStrState :: VmState
  lastBo :: "ByteOrder option"
  remBitsToSkip :: Size
  lastIntVal :: "64 word"
  curId :: TypeId
  pktProc :: PktProc
  curDsPktProc :: "DsPktProc option"
  curErProc :: "ErProc option"
  uuid :: "byte list"
  curExpectedPktTotalLenBits :: Size
  curExpectedPktContentLenBits :: Size
  stack :: "VmStackFrame list"
  savedVals :: "64 word list"
  defClkVal :: "64 word"

text \<open>\<^verbatim>\<open>VmPos::updateDefClkVal\<close>: returns the new clock value and the updated position.\<close>

definition updateDefClkVal :: "Size \<Rightarrow> VmPos \<Rightarrow> 64 word \<times> VmPos" where
  "updateDefClkVal len p =
     (if len = 64 then (lastIntVal p, p\<lparr>defClkVal := lastIntVal p\<rparr>)
      else
        let curVal = defClkVal p;
            newValMask = push_bit (unat len) (1 :: 64 word) - 1;
            curValMasked = curVal AND newValMask;
            curVal = (if lastIntVal p < curValMasked then curVal + (newValMask + 1) else curVal);
            curVal = curVal AND NOT newValMask;
            curVal = curVal OR lastIntVal p
        in (curVal, p\<lparr>defClkVal := curVal\<rparr>))"

definition remContentBitsInPkt :: "VmPos \<Rightarrow> Size" where
  "remContentBitsInPkt p = curExpectedPktContentLenBits p - headOffsetInCurPktBits p"

definition headOffsetInElemSeqBits :: "VmPos \<Rightarrow> Index" where
  "headOffsetInElemSeqBits p = curPktOffsetInElemSeqBits p + headOffsetInCurPktBits p"

definition resetForNewPkt :: "VmPos \<Rightarrow> VmPos" where
  "resetForNewPkt p =
     p\<lparr>headOffsetInCurPktBits := 0,
       theState := BEGIN_PKT,
       lastBo := None,
       curDsPktProc := None,
       curErProc := None,
       curExpectedPktTotalLenBits := SIZE_UNSET,
       curExpectedPktContentLenBits := SIZE_UNSET,
       stack := [],
       defClkVal := 0,
       savedVals := map (\<lambda>_. SAVED_VAL_UNSET) (savedVals p)\<rparr>"

subsection \<open>Errors and results\<close>

text \<open>
  The decoding errors the VM throws, with the values they carry. \<open>AssertionFailed\<close>
  is a failed \<^verbatim>\<open>assert\<close> (or \<^verbatim>\<open>std::abort\<close>); \<open>OutOfBufferRead\<close> is a read
  outside the data block the buffer points into, which is undefined behaviour in C++, and
  so are \<open>NoInstr\<close> (the iterator of the top frame is at the end of its procedure when the
  instruction it points to is read), \<open>WrongInstr\<close> (an instruction is cast to a class it
  is not of) and \<open>UuidIndexOutOfRange\<close> (a write outside the 16 bytes of the UUID).
\<close>

datatype DecodingError =
    PrematureEndOfData Index Size
  | CannotDecodeDataBeyondPacketContent Index Size Size
  | ByteOrderChangeWithinByte Index ByteOrder ByteOrder
  | InvalidVariantSignedSelectorValue Index "64 word"
  | InvalidVariantUnsignedSelectorValue Index "64 word"
  | UnknownDataStreamType Index TypeId
  | UnknownEventRecordType Index TypeId
  | ExpectedPacketTotalLengthNotMultipleOf8 Index Size
  | ExpectedPacketTotalLengthLessThanExpectedPacketContentLength Index Size Size
  | ExpectedPacketTotalLengthLessThanOffsetInPacket Index Size Size
  | ExpectedPacketContentLengthLessThanOffsetInPacket Index Size Size
  | AssertionFailed
  | OutOfBufferRead
  | NoInstr
  | WrongInstr
  | UuidIndexOutOfRange

subsection \<open>The VM: position, buffer window and iterator\<close>

text \<open>The fields of the owning \<^verbatim>\<open>ElementSequenceIterator\<close> the VM writes.\<close>

record ItInfos =
  it_curElem :: "ElemKind option"
  it_offset :: Index
  it_mark :: Index

text \<open>
  The buffer pointer \<^verbatim>\<open>_bufAddr\<close> is the data block it points into (\<open>bufMem\<close>, the
  bytes the data source returned) and a byte index into this block (\<open>bufAddr\<close>); the
  null pointer is the empty block. \<open>dataSrcCalls\<close> records the calls the VM makes to
  \<^verbatim>\<open>DataSource::data\<close>, oldest first, each with its offset and its size in bytes.
\<close>

record Vm =
  bufMem :: "byte list"
  bufAddr :: int
  bufLenBits :: Size
  bufOffsetInCurPktBits :: Index
  iter :: ItInfos
  pos :: VmPos
  dataSrcCalls :: "(Index \<times> Size) list"

datatype 'a result = Ret 'a Vm | Throw DecodingError Vm

text \<open>
  The data source: \<^verbatim>\<open>data(offsetBytes, sizeBytes)\<close> returns no block at the end of the
  data, or a block of bytes.
\<close>

type_synonym DataSource = "Index \<Rightarrow> Size \<Rightarrow> byte list option"

definition state_upd :: "VmState \<Rightarrow> Vm \<Rightarrow> Vm" where
  "state_upd newState vm = vm\<lparr>pos := (pos vm)\<lparr>theState := newState\<rparr>\<rparr>"

definition elems_upd :: "(Elems \<Rightarrow> Elems) \<Rightarrow> Vm \<Rightarrow> Vm" where
  "elems_upd f vm = vm\<lparr>pos := (pos vm)\<lparr>elems := f (elems (pos vm))\<rparr>\<rparr>"

subsection \<open>The stack\<close>

text \<open>
  The stack is a vector whose last frame is the top. \<^verbatim>\<open>stackPush\<close> does not
  initialise \<^verbatim>\<open>remElems\<close>; the model writes 0 there.
\<close>

definition stackPush :: "Proc \<Rightarrow> VmPos \<Rightarrow> VmPos" where
  "stackPush pr p =
     p\<lparr>stack := stack p @ [\<lparr>proc = pr, it = 0, parentState = theState p, remElems = 0\<rparr>]\<rparr>"

definition stackPop :: "VmPos \<Rightarrow> VmPos option" where
  "stackPop p = (if stack p = [] then None else Some (p\<lparr>stack := butlast (stack p)\<rparr>))"

definition setParentStateAndStackPop :: "VmPos \<Rightarrow> VmPos option" where
  "setParentStateAndStackPop p =
     (if stack p = [] then None
      else stackPop (p\<lparr>theState := parentState (last (stack p))\<rparr>))"

definition gotoNextInstr :: "VmPos \<Rightarrow> VmPos option" where
  "gotoNextInstr p =
     (if stack p = [] then None
      else Some (p\<lparr>stack := butlast (stack p) @ [(last (stack p))\<lparr>it := it (last (stack p)) + 1\<rparr>]\<rparr>))"

definition loadNewProc :: "Proc \<Rightarrow> VmPos \<Rightarrow> VmPos option" where
  "loadNewProc pr p = (if stack p = [] then Some (stackPush pr p) else None)"

definition savedVal :: "Index \<Rightarrow> VmPos \<Rightarrow> 64 word option" where
  "savedVal i p = (if unat i < length (savedVals p) then Some (savedVals p ! unat i) else None)"

subsection \<open>The iterator\<close>

text \<open>
  The offset of an iterator at the end of its element sequence,
  \<^verbatim>\<open>ElementSequenceIterator::_END_OFFSET\<close>, is declared outside the VM: the greatest
  \<^verbatim>\<open>Index\<close>.
\<close>

definition END_OFFSET :: Index where
  "END_OFFSET = - 1"

definition updateIt :: "ElemKind \<Rightarrow> Index \<Rightarrow> Vm \<Rightarrow> Vm" where
  "updateIt elem offset vm =
     vm\<lparr>iter := (iter vm)\<lparr>it_curElem := Some elem, it_offset := offset,
                            it_mark := it_mark (iter vm) + 1\<rparr>\<rparr>"

definition updateItCurOffset :: "ElemKind \<Rightarrow> Vm \<Rightarrow> Vm" where
  "updateItCurOffset elem vm =
     vm\<lparr>iter := (iter vm)\<lparr>it_curElem := Some elem,
                            it_offset := headOffsetInElemSeqBits (pos vm),
                            it_mark := it_mark (iter vm) + 1\<rparr>\<rparr>"

definition setItEnd :: "Vm \<Rightarrow> Vm" where
  "setItEnd vm = vm\<lparr>iter := (iter vm)\<lparr>it_mark := 0, it_offset := END_OFFSET\<rparr>\<rparr>"

definition resetItMark :: "Vm \<Rightarrow> Vm" where
  "resetItMark vm = vm\<lparr>iter := (iter vm)\<lparr>it_mark := 0\<rparr>\<rparr>"

subsection \<open>The buffer window\<close>

definition bufAtHead :: "Vm \<Rightarrow> int" where
  "bufAtHead vm =
     bufAddr vm + uint ((headOffsetInCurPktBits (pos vm) - bufOffsetInCurPktBits vm) div 8)"

definition remBitsInBuf :: "Vm \<Rightarrow> Size" where
  "remBitsInBuf vm =
     (bufOffsetInCurPktBits vm + bufLenBits vm) - headOffsetInCurPktBits (pos vm)"

definition consumeExistingBits :: "Size \<Rightarrow> Vm \<Rightarrow> unit result" where
  "consumeExistingBits bitsToConsume vm =
     (if bitsToConsume \<le> remBitsInBuf vm
      then Ret () (vm\<lparr>pos := (pos vm)\<lparr>headOffsetInCurPktBits :=
                      headOffsetInCurPktBits (pos vm) + bitsToConsume\<rparr>\<rparr>)
      else Throw AssertionFailed vm)"

definition resetBuffer :: "Vm \<Rightarrow> Vm" where
  "resetBuffer vm =
     vm\<lparr>bufMem := [], bufAddr := 0, bufLenBits := 0,
        bufOffsetInCurPktBits := headOffsetInCurPktBits (pos vm)\<rparr>"

definition newDataBlock :: "DataSource \<Rightarrow> Index \<Rightarrow> Size \<Rightarrow> Vm \<Rightarrow> bool result" where
  "newDataBlock src offsetInElemSeqBytes sizeBytes vm =
     (if \<not> sizeBytes \<le> 9 then Throw AssertionFailed vm
      else
        let vm1 = vm\<lparr>dataSrcCalls := dataSrcCalls vm @ [(offsetInElemSeqBytes, sizeBytes)]\<rparr>
        in case src offsetInElemSeqBytes sizeBytes of
             None \<Rightarrow> Ret False vm1
           | Some dataBlock \<Rightarrow>
               Ret True (vm1\<lparr>bufMem := dataBlock, bufAddr := 0,
                              bufLenBits := of_nat (length dataBlock) * 8,
                              bufOffsetInCurPktBits :=
                                offsetInElemSeqBytes * 8 - curPktOffsetInElemSeqBits (pos vm)\<rparr>))"

definition tryHaveBits :: "DataSource \<Rightarrow> Size \<Rightarrow> Vm \<Rightarrow> bool result" where
  "tryHaveBits src bits vm =
     (if \<not> bits \<le> 64 then Throw AssertionFailed vm
      else if bits \<le> remBitsInBuf vm then Ret True vm
      else
        let flooredHeadOffsetInCurPacketBits = headOffsetInCurPktBits (pos vm) AND NOT 7;
            flooredHeadOffsetInCurPacketBytes = flooredHeadOffsetInCurPacketBits div 8;
            curPacketOffsetInElemSeqBytes = curPktOffsetInElemSeqBits (pos vm) div 8;
            requestOffsetInElemSeqBytes =
              curPacketOffsetInElemSeqBytes + flooredHeadOffsetInCurPacketBytes;
            bitInByte = headOffsetInCurPktBits (pos vm) AND 7;
            sizeBytes = (bits + 7 + bitInByte) div 8
        in newDataBlock src requestOffsetInElemSeqBytes sizeBytes vm)"

definition requireBits :: "DataSource \<Rightarrow> Size \<Rightarrow> Vm \<Rightarrow> unit result" where
  "requireBits src bits vm =
     (case tryHaveBits src bits vm of
        Throw e vm' \<Rightarrow> Throw e vm'
      | Ret False vm' \<Rightarrow>
          Throw (PrematureEndOfData (headOffsetInElemSeqBits (pos vm')) bits) vm'
      | Ret True vm' \<Rightarrow> Ret () vm')"

definition requireContentBits :: "DataSource \<Rightarrow> Size \<Rightarrow> Vm \<Rightarrow> unit result" where
  "requireContentBits src bits vm =
     (if bits > remContentBitsInPkt (pos vm)
      then Throw (CannotDecodeDataBeyondPacketContent (headOffsetInElemSeqBits (pos vm)) bits
                    (remContentBitsInPkt (pos vm))) vm
      else requireBits src bits vm)"

subsection \<open>Alignment and padding skip\<close>

text \<open>
  The loop of \<^verbatim>\<open>_continueSkipPaddingBits\<close> runs as long as bits remain to skip. With a
  data source which returns empty blocks it never ends, so that the result is an option:
  \<open>None\<close> is a loop that runs forever.
\<close>

partial_function (option) continueSkipPaddingBits ::
  "DataSource \<Rightarrow> bool \<Rightarrow> Vm \<Rightarrow> unit result option" where
  "continueSkipPaddingBits src contentBits vm =
     (if remBitsToSkip (pos vm) > 0 then
        (case (if contentBits then requireContentBits src 1 vm else requireBits src 1 vm) of
           Throw e vm' \<Rightarrow> Some (Throw e vm')
         | Ret _ vm1 \<Rightarrow>
             let bitsToSkip = min (remBitsToSkip (pos vm1)) (remBitsInBuf vm1);
                 vm2 = vm1\<lparr>pos := (pos vm1)\<lparr>remBitsToSkip :=
                         remBitsToSkip (pos vm1) - bitsToSkip\<rparr>\<rparr>
             in (case consumeExistingBits bitsToSkip vm2 of
                   Throw e vm' \<Rightarrow> Some (Throw e vm')
                 | Ret _ vm3 \<Rightarrow> continueSkipPaddingBits src contentBits vm3))
      else Some (Ret () (state_upd (postSkipBitsState (pos vm)) vm)))"

definition alignHead :: "DataSource \<Rightarrow> Size \<Rightarrow> Vm \<Rightarrow> unit result option" where
  "alignHead src align vm =
     (let newHeadOffsetBits = (headOffsetInCurPktBits (pos vm) + align - 1) AND (- align);
          bitsToSkip = newHeadOffsetBits - headOffsetInCurPktBits (pos vm)
      in if bitsToSkip = 0 then Some (Ret () vm)
         else if bitsToSkip > remContentBitsInPkt (pos vm)
         then Some (Throw (CannotDecodeDataBeyondPacketContent
                             (headOffsetInElemSeqBits (pos vm)) bitsToSkip
                             (remContentBitsInPkt (pos vm))) vm)
         else
           let vm1 = vm\<lparr>pos := (pos vm)\<lparr>remBitsToSkip := bitsToSkip,
                                           postSkipBitsState := theState (pos vm)\<rparr>\<rparr>;
               vm2 = state_upd CONTINUE_SKIP_CONTENT_PADDING_BITS vm1
           in continueSkipPaddingBits src True vm2)"

subsection \<open>State handlers\<close>

text \<open>
  A state handler returns \<^verbatim>\<open>true\<close> when the iterator has a new element (or is at its
  end), \<^verbatim>\<open>false\<close> when the next state must be handled at once.
\<close>

definition stateContinueSkipPaddingBits :: "DataSource \<Rightarrow> Vm \<Rightarrow> bool result option" where
  "stateContinueSkipPaddingBits src vm =
     do {
       r \<leftarrow> continueSkipPaddingBits src
              (theState (pos vm) = CONTINUE_SKIP_CONTENT_PADDING_BITS) vm;
       case r of
         Throw e vm' \<Rightarrow> Some (Throw e vm')
       | Ret _ vm1 \<Rightarrow> Some (Ret False (state_upd (postSkipBitsState (pos vm1)) vm1))
     }"

definition stateBeginPkt :: "DataSource \<Rightarrow> Vm \<Rightarrow> bool result" where
  "stateBeginPkt src vm =
     (let vm1 = resetItMark vm;
          vm2 = vm1\<lparr>pos := resetForNewPkt (pos vm1)\<rparr>;
          probe = (if remBitsInBuf vm2 = 0 then tryHaveBits src 1 vm2 else Ret True vm2)
      in case probe of
           Throw e vm' \<Rightarrow> Throw e vm'
         | Ret False vm3 \<Rightarrow> Ret True (setItEnd vm3)
         | Ret True vm3 \<Rightarrow>
             let vm4 = updateItCurOffset E_pktBeginning vm3
             in (case loadNewProc (preambleProc (pktProc (pos vm4))) (pos vm4) of
                   None \<Rightarrow> Throw AssertionFailed vm4
                 | Some p \<Rightarrow> Ret True (state_upd BEGIN_PKT_CONTENT (vm4\<lparr>pos := p\<rparr>))))"

definition stateBeginPktContent :: "Vm \<Rightarrow> bool result" where
  "stateBeginPktContent vm =
     Ret True (state_upd EXEC_INSTR (updateItCurOffset E_pktContentBeginning vm))"

definition stateEndPktContent :: "Vm \<Rightarrow> bool result" where
  "stateEndPktContent vm =
     (let bitsToSkip =
            (if curExpectedPktTotalLenBits (pos vm) \<noteq> SIZE_UNSET
             then curExpectedPktTotalLenBits (pos vm) - headOffsetInCurPktBits (pos vm)
             else 0);
          vm1 = (if bitsToSkip > 0
                 then state_upd CONTINUE_SKIP_PADDING_BITS
                        (vm\<lparr>pos := (pos vm)\<lparr>remBitsToSkip := bitsToSkip,
                                                postSkipBitsState := END_PKT\<rparr>\<rparr>)
                 else state_upd END_PKT vm)
      in Ret True (updateItCurOffset E_end vm1))"

text \<open>
  In \<^verbatim>\<open>_stateEndPkt\<close> the buffer pointer moves back by the bytes of the buffer's offset
  in the packet and forth by the bytes of the packet; the buffer length loses the bytes
  between the old pointer and the new one.
\<close>

definition stateEndPkt :: "Vm \<Rightarrow> bool result" where
  "stateEndPkt vm =
     (let offset = headOffsetInElemSeqBits (pos vm);
          vm1 = vm\<lparr>pos := (pos vm)\<lparr>curPktOffsetInElemSeqBits := headOffsetInElemSeqBits (pos vm),
                                       headOffsetInCurPktBits := 0\<rparr>\<rparr>
      in if curPktOffsetInElemSeqBits (pos vm1) AND 7 \<noteq> 0 then Throw AssertionFailed vm1
         else
           let vm2 =
                 (if curExpectedPktTotalLenBits (pos vm1) = SIZE_UNSET then resetBuffer vm1
                  else
                    let oldBufAddr = bufAddr vm1;
                        newBufAddr = bufAddr vm1 - uint (bufOffsetInCurPktBits vm1 div 8)
                                       + uint (curExpectedPktTotalLenBits (pos vm1) div 8)
                    in vm1\<lparr>bufAddr := newBufAddr, bufOffsetInCurPktBits := 0,
                           bufLenBits := bufLenBits vm1 - word_of_int (newBufAddr - oldBufAddr) * 8\<rparr>)
           in Ret True (state_upd BEGIN_PKT (updateIt E_end offset vm2)))"

definition stateEndEr :: "Vm \<Rightarrow> bool result" where
  "stateEndEr vm =
     (if curErProc (pos vm) = None then Throw AssertionFailed vm
      else Ret True (state_upd BEGIN_ER
                       (updateItCurOffset E_end (vm\<lparr>pos := (pos vm)\<lparr>curErProc := None\<rparr>\<rparr>))))"

definition stateEndStr :: "Vm \<Rightarrow> bool result" where
  "stateEndStr vm =
     (let vm1 = state_upd (postEndStrState (pos vm)) (updateItCurOffset E_end vm)
      in if theState (pos vm1) = EXEC_INSTR \<or> theState (pos vm1) = EXEC_ARRAY_INSTR
         then Ret True vm1 else Throw AssertionFailed vm1)"

text \<open>
  \<^verbatim>\<open>memchr(buf, c, n)\<close> on the data block: the index of the first byte equal to \<open>c\<close>
  among the \<open>n\<close> bytes from index \<open>buf\<close>, if any.
\<close>

fun memchr_from :: "byte list \<Rightarrow> byte \<Rightarrow> nat \<Rightarrow> nat option" where
  "memchr_from [] c i = None"
| "memchr_from (b # bs) c i = (if b = c then Some i else memchr_from bs c (Suc i))"

definition memchr :: "byte list \<Rightarrow> int \<Rightarrow> byte \<Rightarrow> nat \<Rightarrow> int option" where
  "memchr mem buf c n =
     map_option (\<lambda>i. buf + int i) (memchr_from (take n (drop (nat buf) mem)) c 0)"

definition stateReadSubstrUntilNull :: "DataSource \<Rightarrow> Vm \<Rightarrow> bool result" where
  "stateReadSubstrUntilNull src vm =
     (if headOffsetInCurPktBits (pos vm) AND 7 \<noteq> 0 then Throw AssertionFailed vm
      else case requireContentBits src 8 vm of
        Throw e vm' \<Rightarrow> Throw e vm'
      | Ret _ vm1 \<Rightarrow>
          let buf = bufAtHead vm1;
              bufSizeBytes = remBitsInBuf vm1 div 8
          in if \<not> bufSizeBytes \<ge> 1 then Throw AssertionFailed vm1
             else if buf < 0 \<or> int (length (bufMem vm1)) < buf + uint bufSizeBytes
             then Throw OutOfBufferRead vm1
             else
               let res = memchr (bufMem vm1) buf 0 (unat bufSizeBytes);
                   begin = buf;
                   end = (case res of Some r \<Rightarrow> r + 1 | None \<Rightarrow> buf + uint bufSizeBytes);
                   substrLenBits = (word_of_int (end - begin) :: Size) * 8
               in if substrLenBits > remContentBitsInPkt (pos vm1)
                  then Throw (CannotDecodeDataBeyondPacketContent
                                (headOffsetInElemSeqBits (pos vm1)) substrLenBits
                                (remContentBitsInPkt (pos vm1))) vm1
                  else
                    let vm2 = elems_upd (\<lambda>e. e\<lparr>substr_begin := begin, substr_end := end\<rparr>) vm1;
                        vm3 = (if res \<noteq> None then state_upd END_STR vm2 else vm2)
                    in if \<not> end - begin > 0 then Throw AssertionFailed vm3
                       else
                         (case consumeExistingBits (word_of_int (end - begin) * 8)
                                 (updateItCurOffset E_substr vm3) of
                            Throw e vm' \<Rightarrow> Throw e vm'
                          | Ret _ vm4 \<Rightarrow> Ret True vm4))"

subsection \<open>Reading fixed-length bit arrays on the general path\<close>

text \<open>
  The tables of reading functions (\<^verbatim>\<open>readSIntLeFuncs\<close> and the like) are declared
  outside the VM. Such a table is a parameter: the function at an index reads the
  data block from a byte index.
\<close>

type_synonym IntReaders = "Index \<Rightarrow> byte list \<Rightarrow> int \<Rightarrow> 64 word"

definition execReadBitArrayPreamble ::
  "DataSource \<Rightarrow> Size \<Rightarrow> Size \<Rightarrow> Vm \<Rightarrow> unit result option" where
  "execReadBitArrayPreamble src align len vm =
     do {
       r \<leftarrow> alignHead src align vm;
       case r of
         Throw e vm' \<Rightarrow> Some (Throw e vm')
       | Ret _ vm1 \<Rightarrow> Some (requireContentBits src len vm1)
     }"

text \<open>
  \<^verbatim>\<open>_readInt\<close> for a read instruction with alignment \<open>align\<close>, length \<open>len\<close> and byte
  order \<open>bo\<close>.
\<close>

definition readInt ::
  "IntReaders \<Rightarrow> DataSource \<Rightarrow> Size \<Rightarrow> Size \<Rightarrow> ByteOrder \<Rightarrow> Vm \<Rightarrow> 64 word result option" where
  "readInt funcs src align len bo vm =
     do {
       r \<leftarrow> execReadBitArrayPreamble src align len vm;
       case r of
         Throw e vm' \<Rightarrow> Some (Throw e vm')
       | Ret _ vm1 \<Rightarrow>
           let boChange =
                 (case lastBo (pos vm1) of
                    None \<Rightarrow> None
                  | Some prevBo \<Rightarrow>
                      if headOffsetInCurPktBits (pos vm1) AND 7 \<noteq> 0 then
                        if bo \<noteq> prevBo
                        then Some (ByteOrderChangeWithinByte
                                     (headOffsetInElemSeqBits (pos vm1)) prevBo bo)
                        else None
                      else None)
           in case boChange of
                Some e \<Rightarrow> Some (Throw e vm1)
              | None \<Rightarrow>
                  let vm2 = vm1\<lparr>pos := (pos vm1)\<lparr>lastBo := Some bo\<rparr>\<rparr>;
                      index = (len - 1) * 8 + (headOffsetInCurPktBits (pos vm2) AND 7)
                  in Some (Ret (funcs index (bufMem vm2) (bufAtHead vm2)) vm2)
     }"

subsection \<open>Variants\<close>

text \<open>
  Modelled from the spec: \<^verbatim>\<open>IntegerRangeSet::contains\<close> is declared in
  \<^verbatim>\<open>int-range-set.hpp\<close>, which is not among the sources. The specification calls the
  ranges inclusive: a value is in the set when it lies between the bounds of one of the
  ranges, bounds included, in the signed or the unsigned order of the selector.
\<close>

definition contains :: "IntSign \<Rightarrow> IntRangeSet \<Rightarrow> 64 word \<Rightarrow> bool" where
  "contains sg ranges v =
     list_ex (\<lambda>(lo, hi). case sg of
                 SINT \<Rightarrow> sint lo \<le> sint v \<and> sint v \<le> sint hi
               | UINT \<Rightarrow> lo \<le> v \<and> v \<le> hi) ranges"

fun procForSelVal :: "IntSign \<Rightarrow> (IntRangeSet \<times> Proc) list \<Rightarrow> 64 word \<Rightarrow> Proc option" where
  "procForSelVal sg [] selVal = None"
| "procForSelVal sg (opt # opts) selVal =
     (if contains sg (fst opt) selVal then Some (snd opt) else procForSelVal sg opts selVal)"

text \<open>
  \<^verbatim>\<open>_execBeginReadVar\<close> for a variant instruction with selector sign \<open>sg\<close>, data type
  \<open>dt\<close>, alignment \<open>align\<close>, selector position \<open>selPos\<close> and options \<open>opts\<close>. The saved
  value is stored without a sign; the selector value is this same word, read as signed
  for a variant with a signed selector.
\<close>

definition execBeginReadVar ::
  "DataSource \<Rightarrow> IntSign \<Rightarrow> DtRef \<Rightarrow> Size \<Rightarrow> Index \<Rightarrow> (IntRangeSet \<times> Proc) list
     \<Rightarrow> Vm \<Rightarrow> unit result option" where
  "execBeginReadVar src sg dt align selPos opts vm =
     do {
       r \<leftarrow> alignHead src align vm;
       case r of
         Throw e vm' \<Rightarrow> Some (Throw e vm')
       | Ret _ vm1 \<Rightarrow>
           Some
            (case savedVal selPos (pos vm1) of
               None \<Rightarrow> Throw AssertionFailed vm1
             | Some selVal \<Rightarrow>
                 (case procForSelVal sg opts selVal of
                    None \<Rightarrow>
                      (case sg of
                         SINT \<Rightarrow> Throw (InvalidVariantSignedSelectorValue
                                           (headOffsetInElemSeqBits (pos vm1)) selVal) vm1
                       | UINT \<Rightarrow> Throw (InvalidVariantUnsignedSelectorValue
                                           (headOffsetInElemSeqBits (pos vm1)) selVal) vm1)
                  | Some pr \<Rightarrow>
                      let vm2 =
                            (case sg of
                               SINT \<Rightarrow>
                                 updateItCurOffset E_varSSelBeginning
                                   (elems_upd (\<lambda>e. e\<lparr>varSSelBeginning_dt := dt,
                                                      varSSelBeginning_selVal := selVal\<rparr>) vm1)
                             | UINT \<Rightarrow>
                                 updateItCurOffset E_varUSelBeginning
                                   (elems_upd (\<lambda>e. e\<lparr>varUSelBeginning_dt := dt,
                                                      varUSelBeginning_selVal := selVal\<rparr>) vm1))
                      in (case gotoNextInstr (pos vm2) of
                            None \<Rightarrow> Throw AssertionFailed vm2
                          | Some p \<Rightarrow>
                              Ret () (state_upd EXEC_INSTR (vm2\<lparr>pos := stackPush pr p\<rparr>)))))
     }"

subsection \<open>Instruction handlers\<close>

text \<open>
  What an instruction handler tells the loop which called it.
\<close>

datatype ExecReaction =
    EXEC_NEXT_INSTR
  | FETCH_NEXT_INSTR_AND_STOP
  | CHANGE_STATE
  | EXEC_CUR_INSTR
  | STOP

text \<open>
  The reading functions, declared outside the VM: the four tables of the general path
  (\<^verbatim>\<open>readSIntLeFuncs\<close> and the like), the two functions for a byte (\<^verbatim>\<open>readSInt8\<close>,
  \<^verbatim>\<open>readUInt8\<close>) and the twelve for 16, 32 and 64 aligned bits (\<^verbatim>\<open>readSIntLe16\<close> and the
  like).
\<close>

record IntReaderFuncs =
  readIntFuncs :: "IntSign \<Rightarrow> ByteOrder \<Rightarrow> IntReaders"
  readInt8 :: "IntSign \<Rightarrow> byte list \<Rightarrow> int \<Rightarrow> 64 word"
  readIntStd :: "IntSign \<Rightarrow> ByteOrder \<Rightarrow> Size \<Rightarrow> byte list \<Rightarrow> int \<Rightarrow> 64 word"

definition stdFunc ::
  "IntReaderFuncs \<Rightarrow> IntSign \<Rightarrow> ByteOrder \<Rightarrow> Size \<Rightarrow> byte list \<Rightarrow> int \<Rightarrow> 64 word" where
  "stdFunc rd sg bo lenBits = (if lenBits = 8 then readInt8 rd sg else readIntStd rd sg bo lenBits)"

text \<open>
  Sequencing: the second step runs on the VM the first one returns; an exception, or a
  loop which never ends, stops the sequence.
\<close>

definition bindR :: "'a result option \<Rightarrow> ('a \<Rightarrow> Vm \<Rightarrow> 'b result option) \<Rightarrow> 'b result option" where
  "bindR m f =
     (case m of
        None \<Rightarrow> None
      | Some (Throw e vm) \<Rightarrow> Some (Throw e vm)
      | Some (Ret x vm) \<Rightarrow> f x vm)"

text \<open>A method of the position which asserts: a failed assertion is the value \<open>None\<close>.\<close>

definition withPos :: "(VmPos \<Rightarrow> VmPos option) \<Rightarrow> Vm \<Rightarrow> unit result option" where
  "withPos f vm =
     (case f (pos vm) of
        None \<Rightarrow> Some (Throw AssertionFailed vm)
      | Some p \<Rightarrow> Some (Ret () (vm\<lparr>pos := p\<rparr>)))"

definition andReturn :: "'b \<Rightarrow> unit result option \<Rightarrow> 'b result option" where
  "andReturn x m = bindR m (\<lambda>_ vm. Some (Ret x vm))"

definition setIntElem :: "IntSign \<Rightarrow> DtRef \<Rightarrow> 64 word \<Rightarrow> Vm \<Rightarrow> Vm" where
  "setIntElem sg dt val vm =
     (let vm1 = vm\<lparr>pos := (pos vm)\<lparr>lastIntVal := val\<rparr>\<rparr>
      in case sg of
           SINT \<Rightarrow> updateItCurOffset E_sInt (elems_upd (\<lambda>e. e\<lparr>sInt_dt := dt, sInt_val := val\<rparr>) vm1)
         | UINT \<Rightarrow> updateItCurOffset E_uInt (elems_upd (\<lambda>e. e\<lparr>uInt_dt := dt, uInt_val := val\<rparr>) vm1))"

definition setEnumElem :: "IntSign \<Rightarrow> DtRef \<Rightarrow> 64 word \<Rightarrow> Vm \<Rightarrow> Vm" where
  "setEnumElem sg dt val vm =
     (let vm1 = vm\<lparr>pos := (pos vm)\<lparr>lastIntVal := val\<rparr>\<rparr>
      in case sg of
           SINT \<Rightarrow> updateItCurOffset E_sEnum (elems_upd (\<lambda>e. e\<lparr>sEnum_dt := dt, sEnum_val := val\<rparr>) vm1)
         | UINT \<Rightarrow> updateItCurOffset E_uEnum (elems_upd (\<lambda>e. e\<lparr>uEnum_dt := dt, uEnum_val := val\<rparr>) vm1))"

definition setFloatVal :: "DtRef \<Rightarrow> 64 word \<Rightarrow> Vm \<Rightarrow> Vm" where
  "setFloatVal dt val vm =
     updateItCurOffset E_flt (elems_upd (\<lambda>e. e\<lparr>flt_dt := dt, flt_val := val\<rparr>) vm)"

text \<open>
  \<^verbatim>\<open>_readStdInt\<close> with the length \<open>lenBits\<close> of its template and the reading function
  \<open>func\<close>.
\<close>

definition readStdInt ::
  "(byte list \<Rightarrow> int \<Rightarrow> 64 word) \<Rightarrow> DataSource \<Rightarrow> Size \<Rightarrow> Size \<Rightarrow> ByteOrder \<Rightarrow> Vm
     \<Rightarrow> 64 word result option" where
  "readStdInt func src align lenBits bo vm =
     bindR (execReadBitArrayPreamble src align lenBits vm) (\<lambda>_ vm1.
       let vm2 = vm1\<lparr>pos := (pos vm1)\<lparr>lastBo := Some bo\<rparr>\<rparr>
       in Some (Ret (func (bufMem vm2) (bufAtHead vm2)) vm2))"

definition execReadStdInt ::
  "IntReaderFuncs \<Rightarrow> DataSource \<Rightarrow> IntSign \<Rightarrow> Size \<Rightarrow> DtRef \<Rightarrow> Size \<Rightarrow> ByteOrder \<Rightarrow> Vm
     \<Rightarrow> unit result option" where
  "execReadStdInt rd src sg lenBits dt align bo vm =
     bindR (readStdInt (stdFunc rd sg bo lenBits) src align lenBits bo vm) (\<lambda>val vm1.
       Some (consumeExistingBits lenBits (setIntElem sg dt val vm1)))"

definition execReadStdEnum ::
  "IntReaderFuncs \<Rightarrow> DataSource \<Rightarrow> IntSign \<Rightarrow> Size \<Rightarrow> DtRef \<Rightarrow> Size \<Rightarrow> ByteOrder \<Rightarrow> Vm
     \<Rightarrow> unit result option" where
  "execReadStdEnum rd src sg lenBits dt align bo vm =
     bindR (readStdInt (stdFunc rd sg bo lenBits) src align lenBits bo vm) (\<lambda>val vm1.
       Some (consumeExistingBits lenBits (setEnumElem sg dt val vm1)))"

definition execReadInt ::
  "IntReaderFuncs \<Rightarrow> DataSource \<Rightarrow> IntSign \<Rightarrow> DtRef \<Rightarrow> Size \<Rightarrow> Size \<Rightarrow> ByteOrder \<Rightarrow> Vm
     \<Rightarrow> unit result option" where
  "execReadInt rd src sg dt align len bo vm =
     bindR (readInt (readIntFuncs rd sg bo) src align len bo vm) (\<lambda>val vm1.
       Some (consumeExistingBits len (setIntElem sg dt val vm1)))"

definition execReadEnum ::
  "IntReaderFuncs \<Rightarrow> DataSource \<Rightarrow> IntSign \<Rightarrow> DtRef \<Rightarrow> Size \<Rightarrow> Size \<Rightarrow> ByteOrder \<Rightarrow> Vm
     \<Rightarrow> unit result option" where
  "execReadEnum rd src sg dt align len bo vm =
     bindR (readInt (readIntFuncs rd sg bo) src align len bo vm) (\<lambda>val vm1.
       Some (consumeExistingBits len (setEnumElem sg dt val vm1)))"

text \<open>
  \<^verbatim>\<open>_execReadFloatPost\<close> for a floating point number type of \<open>floatBits\<close> bits: the value
  read is cut to these bits, and the head moves by the size of the type.
\<close>

definition execReadFloatPost :: "Size \<Rightarrow> DtRef \<Rightarrow> 64 word \<Rightarrow> Vm \<Rightarrow> unit result" where
  "execReadFloatPost floatBits dt val vm =
     consumeExistingBits floatBits (setFloatVal dt (take_bit (unat floatBits) val) vm)"

definition execReadFloat ::
  "IntReaderFuncs \<Rightarrow> DataSource \<Rightarrow> Size \<Rightarrow> DtRef \<Rightarrow> Size \<Rightarrow> Size \<Rightarrow> ByteOrder \<Rightarrow> Vm
     \<Rightarrow> unit result option" where
  "execReadFloat rd src floatBits dt align len bo vm =
     bindR (readInt (readIntFuncs rd UINT bo) src align len bo vm) (\<lambda>val vm1.
       Some (execReadFloatPost floatBits dt val vm1))"

definition execReadStdFloat ::
  "IntReaderFuncs \<Rightarrow> DataSource \<Rightarrow> Size \<Rightarrow> DtRef \<Rightarrow> Size \<Rightarrow> ByteOrder \<Rightarrow> Vm
     \<Rightarrow> unit result option" where
  "execReadStdFloat rd src floatBits dt align bo vm =
     bindR (readStdInt (stdFunc rd UINT bo floatBits) src align floatBits bo vm) (\<lambda>val vm1.
       Some (execReadFloatPost floatBits dt val vm1))"

text \<open>The handlers of the instructions which read a fixed-length bit array.\<close>

definition execReadBitArray ::
  "IntReaderFuncs \<Rightarrow> DataSource \<Rightarrow> BitArrayElemKind \<Rightarrow> ReadPath \<Rightarrow> DtRef \<Rightarrow> Size \<Rightarrow> Size
     \<Rightarrow> ByteOrder \<Rightarrow> Vm \<Rightarrow> unit result option" where
  "execReadBitArray rd src kind path dt align len bo vm =
     (case kind of
        INT_ELEM sg \<Rightarrow>
          (case path of
             STRADDLE \<Rightarrow> execReadInt rd src sg dt align len bo vm
           | STD lenBits \<Rightarrow> execReadStdInt rd src sg lenBits dt align bo vm)
      | ENUM_ELEM sg \<Rightarrow>
          (case path of
             STRADDLE \<Rightarrow> execReadEnum rd src sg dt align len bo vm
           | STD lenBits \<Rightarrow> execReadStdEnum rd src sg lenBits dt align bo vm)
      | FLOAT_ELEM floatBits \<Rightarrow>
          (case path of
             STRADDLE \<Rightarrow> execReadFloat rd src floatBits dt align len bo vm
           | STD lenBits \<Rightarrow> execReadStdFloat rd src floatBits dt align bo vm))"

definition execReadStr :: "DataSource \<Rightarrow> DtRef \<Rightarrow> Size \<Rightarrow> Vm \<Rightarrow> unit result option" where
  "execReadStr src dt align vm =
     bindR (alignHead src align vm) (\<lambda>_ vm1.
       let vm2 = updateItCurOffset E_strBeginning
                   (elems_upd (\<lambda>e. e\<lparr>strBeginning_dt := dt\<rparr>) vm1);
           vm3 = vm2\<lparr>pos := (pos vm2)\<lparr>postEndStrState := theState (pos vm2)\<rparr>\<rparr>
       in Some (Ret () (state_upd READ_SUBSTR_UNTIL_NULL vm3)))"

definition execBeginReadScope ::
  "DataSource \<Rightarrow> Scope \<Rightarrow> Size \<Rightarrow> Proc \<Rightarrow> Vm \<Rightarrow> unit result option" where
  "execBeginReadScope src sc align pr vm =
     bindR (alignHead src align vm) (\<lambda>_ vm1.
       let vm2 = updateItCurOffset E_scopeBeginning
                   (elems_upd (\<lambda>e. e\<lparr>scopeBeginning_scope := sc\<rparr>) vm1)
       in bindR (withPos gotoNextInstr vm2) (\<lambda>_ vm3.
            Some (Ret () (vm3\<lparr>pos := stackPush pr (pos vm3)\<rparr>))))"

definition execEndReadScope :: "Vm \<Rightarrow> unit result option" where
  "execEndReadScope vm =
     bindR (withPos stackPop (updateItCurOffset E_end vm)) (\<lambda>_ vm1.
       if theState (pos vm1) = EXEC_INSTR then Some (Ret () vm1)
       else Some (Throw AssertionFailed vm1))"

definition execBeginReadStruct ::
  "DataSource \<Rightarrow> DtRef \<Rightarrow> Size \<Rightarrow> Proc \<Rightarrow> Vm \<Rightarrow> unit result option" where
  "execBeginReadStruct src dt align pr vm =
     bindR (alignHead src align vm) (\<lambda>_ vm1.
       let vm2 = updateItCurOffset E_structBeginning
                   (elems_upd (\<lambda>e. e\<lparr>structBeginning_dt := dt\<rparr>) vm1)
       in bindR (withPos gotoNextInstr vm2) (\<lambda>_ vm3.
            Some (Ret () (state_upd EXEC_INSTR (vm3\<lparr>pos := stackPush pr (pos vm3)\<rparr>)))))"

definition execEndReadStruct :: "Vm \<Rightarrow> unit result option" where
  "execEndReadStruct vm = withPos setParentStateAndStackPop (updateItCurOffset E_end vm)"

text \<open>The state in which the elements of an array are read.\<close>

definition arrayState :: "ArrayKind \<Rightarrow> VmState" where
  "arrayState kind =
     (case kind of
        PLAIN_ARRAY \<Rightarrow> EXEC_ARRAY_INSTR
      | TEXT_ARRAY \<Rightarrow> READ_SUBSTR
      | UUID_ARRAY \<Rightarrow> READ_UUID_BYTE)"

definition remElems_upd :: "(Size \<Rightarrow> Size) \<Rightarrow> VmPos \<Rightarrow> VmPos option" where
  "remElems_upd f p =
     (if stack p = [] then None
      else Some (p\<lparr>stack := butlast (stack p)
                     @ [(last (stack p))\<lparr>remElems := f (remElems (last (stack p)))\<rparr>]\<rparr>))"

text \<open>
  \<^verbatim>\<open>_execBeginReadStaticArray\<close>, \<^verbatim>\<open>_execBeginReadStaticTextArray\<close> and
  \<^verbatim>\<open>_execBeginReadStaticUuidArray\<close>: each writes the data type of its element, then
  runs \<^verbatim>\<open>_execBeginReadStaticArrayCommon\<close>.
\<close>

definition execBeginReadStaticArray ::
  "DataSource \<Rightarrow> ArrayKind \<Rightarrow> DtRef \<Rightarrow> Size \<Rightarrow> Size \<Rightarrow> Proc \<Rightarrow> Vm \<Rightarrow> unit result option" where
  "execBeginReadStaticArray src kind dt align len pr vm =
     (let vm0 = (if kind = TEXT_ARRAY
                 then elems_upd (\<lambda>e. e\<lparr>staticTextArrayBeginning_dt := dt\<rparr>) vm
                 else elems_upd (\<lambda>e. e\<lparr>staticArrayBeginning_dt := dt\<rparr>) vm)
      in bindR (alignHead src align vm0) (\<lambda>_ vm1.
           let vm2 = (if kind = TEXT_ARRAY
                      then updateItCurOffset E_staticTextArrayBeginning
                             (elems_upd (\<lambda>e. e\<lparr>staticTextArrayBeginning_dt := dt,
                                                staticTextArrayBeginning_len := len\<rparr>) vm1)
                      else updateItCurOffset E_staticArrayBeginning
                             (elems_upd (\<lambda>e. e\<lparr>staticArrayBeginning_dt := dt,
                                                staticArrayBeginning_len := len\<rparr>) vm1))
           in bindR (withPos gotoNextInstr vm2) (\<lambda>_ vm3.
                bindR (withPos (remElems_upd (\<lambda>_. len)) (vm3\<lparr>pos := stackPush pr (pos vm3)\<rparr>))
                  (\<lambda>_ vm4. Some (Ret () (state_upd (arrayState kind) vm4))))))"

definition execBeginReadDynArray ::
  "DataSource \<Rightarrow> bool \<Rightarrow> DtRef \<Rightarrow> Size \<Rightarrow> Index \<Rightarrow> Proc \<Rightarrow> Vm \<Rightarrow> unit result option" where
  "execBeginReadDynArray src isText dt align lenPos pr vm =
     (let vm0 = (if isText
                 then elems_upd (\<lambda>e. e\<lparr>dynTextArrayBeginning_dt := dt\<rparr>) vm
                 else elems_upd (\<lambda>e. e\<lparr>dynArrayBeginning_dt := dt\<rparr>) vm)
      in case savedVal lenPos (pos vm0) of
           None \<Rightarrow> Some (Throw AssertionFailed vm0)
         | Some len \<Rightarrow>
             if len = SAVED_VAL_UNSET then Some (Throw AssertionFailed vm0)
             else
               bindR (alignHead src align vm0) (\<lambda>_ vm1.
                 let vm2 = (if isText
                            then updateItCurOffset E_dynTextArrayBeginning
                                   (elems_upd (\<lambda>e. e\<lparr>dynTextArrayBeginning_dt := dt,
                                                      dynTextArrayBeginning_len := len\<rparr>) vm1)
                            else updateItCurOffset E_dynArrayBeginning
                                   (elems_upd (\<lambda>e. e\<lparr>dynArrayBeginning_dt := dt,
                                                      dynArrayBeginning_len := len\<rparr>) vm1))
                 in bindR (withPos gotoNextInstr vm2) (\<lambda>_ vm3.
                      bindR (withPos (remElems_upd (\<lambda>_. len))
                               (vm3\<lparr>pos := stackPush pr (pos vm3)\<rparr>))
                        (\<lambda>_ vm4. Some (Ret () (state_upd (if isText then READ_SUBSTR
                                                             else EXEC_ARRAY_INSTR) vm4))))))"

definition execEndReadArray :: "Vm \<Rightarrow> unit result option" where
  "execEndReadArray vm = Some (Ret () (updateItCurOffset E_end vm))"

definition execSaveVal :: "Index \<Rightarrow> Vm \<Rightarrow> unit result option" where
  "execSaveVal i vm =
     (if unat i < length (savedVals (pos vm))
      then Some (Ret () (vm\<lparr>pos := (pos vm)\<lparr>savedVals :=
                   (savedVals (pos vm))[unat i := lastIntVal (pos vm)]\<rparr>\<rparr>))
      else Some (Throw AssertionFailed vm))"

definition execSetPktEndDefClkVal :: "Vm \<Rightarrow> unit result option" where
  "execSetPktEndDefClkVal vm =
     Some (Ret () (elems_upd (\<lambda>e. e\<lparr>pktInfo_endDefClkVal := lastIntVal (pos vm)\<rparr>) vm))"

definition execUpdateDefClkVal :: "Size \<Rightarrow> Vm \<Rightarrow> unit result option" where
  "execUpdateDefClkVal len vm =
     (let (newVal, p) = updateDefClkVal len (pos vm);
          vm1 = elems_upd (\<lambda>e. e\<lparr>defClkVal_cycles := newVal\<rparr>) (vm\<lparr>pos := p\<rparr>)
      in Some (Ret () (updateItCurOffset E_defClkVal vm1)))"

definition execSetCurrentId :: "Vm \<Rightarrow> unit result option" where
  "execSetCurrentId vm = Some (Ret () (vm\<lparr>pos := (pos vm)\<lparr>curId := lastIntVal (pos vm)\<rparr>\<rparr>))"

definition execSetDst :: "TypeId option \<Rightarrow> Vm \<Rightarrow> unit result option" where
  "execSetDst fixedId vm =
     (let i = (case fixedId of Some f \<Rightarrow> f | None \<Rightarrow> curId (pos vm))
      in case map_of (dsPktProcs (pktProc (pos vm))) i of
           None \<Rightarrow> Some (Throw (UnknownDataStreamType (headOffsetInElemSeqBits (pos vm)) i) vm)
         | Some d \<Rightarrow>
             Some (Ret () (elems_upd (\<lambda>e. e\<lparr>dsInfo_dst := Some (dst d)\<rparr>)
                             (vm\<lparr>pos := (pos vm)\<lparr>curDsPktProc := Some d\<rparr>\<rparr>))))"

definition execSetErt :: "TypeId option \<Rightarrow> Vm \<Rightarrow> unit result option" where
  "execSetErt fixedId vm =
     (case curDsPktProc (pos vm) of
        None \<Rightarrow> Some (Throw AssertionFailed vm)
      | Some d \<Rightarrow>
          let i = (case fixedId of Some f \<Rightarrow> f | None \<Rightarrow> curId (pos vm))
          in case map_of (erProcs d) i of
               None \<Rightarrow> Some (Throw (UnknownEventRecordType (headOffsetInElemSeqBits (pos vm)) i) vm)
             | Some er \<Rightarrow>
                 Some (Ret () (elems_upd (\<lambda>e. e\<lparr>erInfo_ert := Some (ert er)\<rparr>)
                                 (vm\<lparr>pos := (pos vm)\<lparr>curErProc := Some er\<rparr>\<rparr>))))"

definition execSetDsId :: "Vm \<Rightarrow> unit result option" where
  "execSetDsId vm = Some (Ret () (elems_upd (\<lambda>e. e\<lparr>dsInfo_id := lastIntVal (pos vm)\<rparr>) vm))"

definition execSetPktOriginIndex :: "Vm \<Rightarrow> unit result option" where
  "execSetPktOriginIndex vm =
     Some (Ret () (elems_upd (\<lambda>e. e\<lparr>pktInfo_originIndex := lastIntVal (pos vm)\<rparr>) vm))"

definition execSetPktTotalLen :: "Vm \<Rightarrow> unit result option" where
  "execSetPktTotalLen vm =
     (let pktTotalSizeCandidateBits = lastIntVal (pos vm)
      in if pktTotalSizeCandidateBits AND 7 \<noteq> 0
         then Some (Throw (ExpectedPacketTotalLengthNotMultipleOf8
                             (headOffsetInElemSeqBits (pos vm)) pktTotalSizeCandidateBits) vm)
         else if curExpectedPktContentLenBits (pos vm) \<noteq> SIZE_UNSET
                 \<and> pktTotalSizeCandidateBits < curExpectedPktContentLenBits (pos vm)
         then Some (Throw (ExpectedPacketTotalLengthLessThanExpectedPacketContentLength
                             (headOffsetInElemSeqBits (pos vm)) pktTotalSizeCandidateBits
                             (curExpectedPktContentLenBits (pos vm))) vm)
         else if pktTotalSizeCandidateBits < headOffsetInCurPktBits (pos vm)
         then Some (Throw (ExpectedPacketTotalLengthLessThanOffsetInPacket
                             (headOffsetInElemSeqBits (pos vm)) pktTotalSizeCandidateBits
                             (headOffsetInCurPktBits (pos vm))) vm)
         else
           let p1 = (pos vm)\<lparr>curExpectedPktTotalLenBits := pktTotalSizeCandidateBits\<rparr>;
               p2 = (if curExpectedPktContentLenBits p1 = SIZE_UNSET
                     then p1\<lparr>curExpectedPktContentLenBits := curExpectedPktTotalLenBits p1\<rparr>
                     else p1)
           in Some (Ret () (vm\<lparr>pos := p2\<rparr>)))"

definition execSetPktContentLen :: "Vm \<Rightarrow> unit result option" where
  "execSetPktContentLen vm =
     (let pktContentSizeCandidateBits = lastIntVal (pos vm)
      in if curExpectedPktTotalLenBits (pos vm) \<noteq> SIZE_UNSET
            \<and> curExpectedPktTotalLenBits (pos vm) < pktContentSizeCandidateBits
         then Some (Throw (ExpectedPacketTotalLengthLessThanExpectedPacketContentLength
                             (headOffsetInElemSeqBits (pos vm)) (curExpectedPktTotalLenBits (pos vm))
                             pktContentSizeCandidateBits) vm)
         else if pktContentSizeCandidateBits < headOffsetInCurPktBits (pos vm)
         then Some (Throw (ExpectedPacketContentLengthLessThanOffsetInPacket
                             (headOffsetInElemSeqBits (pos vm)) pktContentSizeCandidateBits
                             (headOffsetInCurPktBits (pos vm))) vm)
         else Some (Ret () (vm\<lparr>pos := (pos vm)\<lparr>curExpectedPktContentLenBits :=
                              pktContentSizeCandidateBits\<rparr>\<rparr>)))"

definition execSetDsInfo :: "Vm \<Rightarrow> unit result option" where
  "execSetDsInfo vm = Some (Ret () (updateItCurOffset E_dsInfo vm))"

definition execSetPktInfo :: "Vm \<Rightarrow> unit result option" where
  "execSetPktInfo vm =
     (let total = (if curExpectedPktTotalLenBits (pos vm) \<noteq> - 1
                   then Some (curExpectedPktTotalLenBits (pos vm)) else None);
          content = (if curExpectedPktContentLenBits (pos vm) \<noteq> - 1
                     then Some (curExpectedPktContentLenBits (pos vm)) else None)
      in Some (Ret () (updateItCurOffset E_pktInfo
                 (elems_upd (\<lambda>e. e\<lparr>pktInfo_expectedTotalLen := total,
                                    pktInfo_expectedContentLen := content\<rparr>) vm))))"

definition execSetErInfo :: "Vm \<Rightarrow> unit result option" where
  "execSetErInfo vm = Some (Ret () (updateItCurOffset E_erInfo vm))"

definition execSetPktMagicNumber :: "Vm \<Rightarrow> unit result option" where
  "execSetPktMagicNumber vm =
     Some (Ret () (updateItCurOffset E_pktMagicNumber
             (elems_upd (\<lambda>e. e\<lparr>pktMagicNumber_val := lastIntVal (pos vm)\<rparr>) vm)))"

text \<open>
  The four handlers which end a procedure pop its frame and assert that the stack is
  empty.
\<close>

definition popLastFrame :: "Vm \<Rightarrow> unit result option" where
  "popLastFrame vm =
     bindR (withPos stackPop vm) (\<lambda>_ vm1.
       if stack (pos vm1) = [] then Some (Ret () vm1) else Some (Throw AssertionFailed vm1))"

definition execEndPktPreambleProc :: "Vm \<Rightarrow> ExecReaction result option" where
  "execEndPktPreambleProc vm =
     bindR (popLastFrame vm) (\<lambda>_ vm1.
       case curDsPktProc (pos vm1) of
         Some d \<Rightarrow> andReturn EXEC_CUR_INSTR (withPos (loadNewProc (pktPreambleProc d)) vm1)
       | None \<Rightarrow> Some (Ret CHANGE_STATE (state_upd END_PKT_CONTENT vm1)))"

definition execEndDsPktPreambleProc :: "Vm \<Rightarrow> ExecReaction result option" where
  "execEndDsPktPreambleProc vm =
     bindR (popLastFrame vm) (\<lambda>_ vm1.
       if curDsPktProc (pos vm1) = None then Some (Throw AssertionFailed vm1)
       else Some (Ret CHANGE_STATE (state_upd BEGIN_ER vm1)))"

definition execEndDsErPreambleProc :: "Vm \<Rightarrow> ExecReaction result option" where
  "execEndDsErPreambleProc vm =
     bindR (popLastFrame vm) (\<lambda>_ vm1.
       case curErProc (pos vm1) of
         None \<Rightarrow> Some (Throw AssertionFailed vm1)
       | Some er \<Rightarrow> andReturn EXEC_CUR_INSTR (withPos (loadNewProc (erProc er)) vm1))"

definition execEndErProc :: "Vm \<Rightarrow> ExecReaction result option" where
  "execEndErProc vm =
     bindR (popLastFrame vm) (\<lambda>_ vm1. Some (Ret CHANGE_STATE (state_upd END_ER vm1)))"

text \<open>\<^verbatim>\<open>_exec\<close>: the handler of the instruction's kind, and its reaction.\<close>

definition exec ::
  "IntReaderFuncs \<Rightarrow> DataSource \<Rightarrow> Instr \<Rightarrow> Vm \<Rightarrow> ExecReaction result option" where
  "exec rd src instr vm =
     (case instr of
        ReadBitArrayInstr kind path dt align len bo \<Rightarrow>
          andReturn FETCH_NEXT_INSTR_AND_STOP (execReadBitArray rd src kind path dt align len bo vm)
      | ReadStrInstr dt align \<Rightarrow> andReturn FETCH_NEXT_INSTR_AND_STOP (execReadStr src dt align vm)
      | BeginReadScopeInstr sc align pr \<Rightarrow> andReturn STOP (execBeginReadScope src sc align pr vm)
      | EndReadScopeInstr \<Rightarrow> andReturn STOP (execEndReadScope vm)
      | BeginReadStructInstr dt align pr \<Rightarrow> andReturn STOP (execBeginReadStruct src dt align pr vm)
      | EndReadStructInstr \<Rightarrow> andReturn STOP (execEndReadStruct vm)
      | BeginReadStaticArrayInstr kind dt align len pr \<Rightarrow>
          andReturn STOP (execBeginReadStaticArray src kind dt align len pr vm)
      | EndReadStaticArrayInstr \<Rightarrow> andReturn FETCH_NEXT_INSTR_AND_STOP (execEndReadArray vm)
      | EndReadStaticTextArrayInstr \<Rightarrow> andReturn FETCH_NEXT_INSTR_AND_STOP (execEndReadArray vm)
      | BeginReadDynArrayInstr isText dt align lenPos pr \<Rightarrow>
          andReturn STOP (execBeginReadDynArray src isText dt align lenPos pr vm)
      | EndReadDynArrayInstr \<Rightarrow> andReturn FETCH_NEXT_INSTR_AND_STOP (execEndReadArray vm)
      | EndReadDynTextArrayInstr \<Rightarrow> andReturn FETCH_NEXT_INSTR_AND_STOP (execEndReadArray vm)
      | BeginReadVarInstr sg dt align selPos opts \<Rightarrow>
          andReturn STOP (execBeginReadVar src sg dt align selPos opts vm)
      | EndReadVarInstr \<Rightarrow> andReturn STOP (execEndReadStruct vm)
      | SaveValInstr i \<Rightarrow> andReturn EXEC_NEXT_INSTR (execSaveVal i vm)
      | SetPktEndDefClkValInstr \<Rightarrow> andReturn EXEC_NEXT_INSTR (execSetPktEndDefClkVal vm)
      | UpdateDefClkValInstr len \<Rightarrow> andReturn FETCH_NEXT_INSTR_AND_STOP (execUpdateDefClkVal len vm)
      | SetCurrentIdInstr \<Rightarrow> andReturn EXEC_NEXT_INSTR (execSetCurrentId vm)
      | SetDstInstr fixedId \<Rightarrow> andReturn EXEC_NEXT_INSTR (execSetDst fixedId vm)
      | SetErtInstr fixedId \<Rightarrow> andReturn EXEC_NEXT_INSTR (execSetErt fixedId vm)
      | SetDsIdInstr \<Rightarrow> andReturn EXEC_NEXT_INSTR (execSetDsId vm)
      | SetPktOriginIndexInstr \<Rightarrow> andReturn EXEC_NEXT_INSTR (execSetPktOriginIndex vm)
      | SetPktTotalLenInstr \<Rightarrow> andReturn EXEC_NEXT_INSTR (execSetPktTotalLen vm)
      | SetPktContentLenInstr \<Rightarrow> andReturn EXEC_NEXT_INSTR (execSetPktContentLen vm)
      | SetPktMagicNumberInstr \<Rightarrow> andReturn FETCH_NEXT_INSTR_AND_STOP (execSetPktMagicNumber vm)
      | EndPktPreambleProcInstr \<Rightarrow> execEndPktPreambleProc vm
      | EndDsPktPreambleProcInstr \<Rightarrow> execEndDsPktPreambleProc vm
      | EndDsErPreambleProcInstr \<Rightarrow> execEndDsErPreambleProc vm
      | EndErProcInstr \<Rightarrow> execEndErProc vm
      | SetDsInfoInstr \<Rightarrow> andReturn FETCH_NEXT_INSTR_AND_STOP (execSetDsInfo vm)
      | SetPktInfoInstr \<Rightarrow> andReturn FETCH_NEXT_INSTR_AND_STOP (execSetPktInfo vm)
      | SetErInfoInstr \<Rightarrow> andReturn FETCH_NEXT_INSTR_AND_STOP (execSetErInfo vm))"

subsection \<open>The states which run a procedure\<close>

text \<open>
  \<^verbatim>\<open>VmPos::nextInstr\<close>: the instruction the iterator of the top frame points to.
\<close>

definition nextInstr :: "VmPos \<Rightarrow> DecodingError + Instr" where
  "nextInstr p =
     (if stack p = [] then Inl AssertionFailed
      else if it (last (stack p)) < length (proc (last (stack p)))
      then Inr (proc (last (stack p)) ! it (last (stack p)))
      else Inl NoInstr)"

partial_function (option) stateExecInstr ::
  "IntReaderFuncs \<Rightarrow> DataSource \<Rightarrow> Vm \<Rightarrow> bool result option" where
  "stateExecInstr rd src vm =
     (case nextInstr (pos vm) of
        Inl e \<Rightarrow> Some (Throw e vm)
      | Inr instr \<Rightarrow>
          (case exec rd src instr vm of
             None \<Rightarrow> None
           | Some (Throw e vm') \<Rightarrow> Some (Throw e vm')
           | Some (Ret r vm1) \<Rightarrow>
               (case r of
                  FETCH_NEXT_INSTR_AND_STOP \<Rightarrow>
                    (case gotoNextInstr (pos vm1) of
                       None \<Rightarrow> Some (Throw AssertionFailed vm1)
                     | Some p \<Rightarrow> Some (Ret True (vm1\<lparr>pos := p\<rparr>)))
                | STOP \<Rightarrow> Some (Ret True vm1)
                | EXEC_NEXT_INSTR \<Rightarrow>
                    (case gotoNextInstr (pos vm1) of
                       None \<Rightarrow> Some (Throw AssertionFailed vm1)
                     | Some p \<Rightarrow> stateExecInstr rd src (vm1\<lparr>pos := p\<rparr>))
                | EXEC_CUR_INSTR \<Rightarrow> stateExecInstr rd src vm1
                | CHANGE_STATE \<Rightarrow> Some (Ret False vm1))))"

text \<open>
  The loop of \<^verbatim>\<open>_stateExecArrayInstr\<close>. At the end of the procedure of the array, one
  element less remains; with none left the frame is popped, otherwise the procedure
  starts again.
\<close>

partial_function (option) execArrayInstrLoop ::
  "IntReaderFuncs \<Rightarrow> DataSource \<Rightarrow> Vm \<Rightarrow> bool result option" where
  "execArrayInstrLoop rd src vm =
     (if stack (pos vm) = [] then Some (Throw AssertionFailed vm)
      else if it (last (stack (pos vm))) = length (proc (last (stack (pos vm)))) then
        (if \<not> remElems (last (stack (pos vm))) > 0 then Some (Throw AssertionFailed vm)
         else
           (case remElems_upd (\<lambda>n. n - 1) (pos vm) of
              None \<Rightarrow> Some (Throw AssertionFailed vm)
            | Some p1 \<Rightarrow>
                if remElems (last (stack p1)) = 0 then
                  (case setParentStateAndStackPop p1 of
                     None \<Rightarrow> Some (Throw AssertionFailed (vm\<lparr>pos := p1\<rparr>))
                   | Some p2 \<Rightarrow> Some (Ret False (vm\<lparr>pos := p2\<rparr>)))
                else
                  execArrayInstrLoop rd src
                    (vm\<lparr>pos := p1\<lparr>stack := butlast (stack p1) @ [(last (stack p1))\<lparr>it := 0\<rparr>]\<rparr>\<rparr>)))
      else
        (case nextInstr (pos vm) of
           Inl e \<Rightarrow> Some (Throw e vm)
         | Inr instr \<Rightarrow>
             (case exec rd src instr vm of
                None \<Rightarrow> None
              | Some (Throw e vm') \<Rightarrow> Some (Throw e vm')
              | Some (Ret r vm1) \<Rightarrow>
                  (case r of
                     FETCH_NEXT_INSTR_AND_STOP \<Rightarrow>
                       (case gotoNextInstr (pos vm1) of
                          None \<Rightarrow> Some (Throw AssertionFailed vm1)
                        | Some p \<Rightarrow> Some (Ret True (vm1\<lparr>pos := p\<rparr>)))
                   | STOP \<Rightarrow> Some (Ret True vm1)
                   | EXEC_NEXT_INSTR \<Rightarrow>
                       (case gotoNextInstr (pos vm1) of
                          None \<Rightarrow> Some (Throw AssertionFailed vm1)
                        | Some p \<Rightarrow> execArrayInstrLoop rd src (vm1\<lparr>pos := p\<rparr>))
                   | EXEC_CUR_INSTR \<Rightarrow> Some (Throw AssertionFailed vm1)
                   | CHANGE_STATE \<Rightarrow> Some (Throw AssertionFailed vm1)))))"

definition stateExecArrayInstr ::
  "IntReaderFuncs \<Rightarrow> DataSource \<Rightarrow> Vm \<Rightarrow> bool result option" where
  "stateExecArrayInstr rd src vm =
     (if stack (pos vm) = [] then Some (Throw AssertionFailed vm)
      else if remElems (last (stack (pos vm))) = 0
      then andReturn False (withPos setParentStateAndStackPop vm)
      else execArrayInstrLoop rd src vm)"

subsection \<open>The other states\<close>

definition stateBeginEr :: "DataSource \<Rightarrow> Vm \<Rightarrow> bool result option" where
  "stateBeginEr src vm =
     (case curDsPktProc (pos vm) of
        None \<Rightarrow> Some (Throw AssertionFailed vm)
      | Some d \<Rightarrow>
          let probe =
                (if curExpectedPktContentLenBits (pos vm) = SIZE_UNSET then
                   (if remBitsInBuf vm = 0 then tryHaveBits src 1 vm else Ret True vm)
                 else Ret (remContentBitsInPkt (pos vm) \<noteq> 0) vm)
          in case probe of
               Throw e vm' \<Rightarrow> Some (Throw e vm')
             | Ret False vm1 \<Rightarrow> Some (Ret False (state_upd END_PKT_CONTENT vm1))
             | Ret True vm1 \<Rightarrow>
                 bindR (alignHead src (erAlign d) vm1) (\<lambda>_ vm2.
                   bindR (withPos (loadNewProc (erPreambleProc d))
                            (updateItCurOffset E_erBeginning vm2)) (\<lambda>_ vm3.
                     Some (Ret True (state_upd EXEC_INSTR vm3)))))"

text \<open>
  \<^verbatim>\<open>_stateReadUuidByte\<close> reads the instruction of the top frame as a bit array read
  and runs the handler of an unsigned byte on it. The UUID is an array of 16 bytes.
\<close>

definition stateReadUuidByte ::
  "IntReaderFuncs \<Rightarrow> DataSource \<Rightarrow> Vm \<Rightarrow> bool result option" where
  "stateReadUuidByte rd src vm =
     (if stack (pos vm) = [] then Some (Throw AssertionFailed vm)
      else if remElems (last (stack (pos vm))) = 0
      then Some (Ret False (state_upd SET_TRACE_TYPE_UUID vm))
      else
        (case nextInstr (pos vm) of
           Inl e \<Rightarrow> Some (Throw e vm)
         | Inr (ReadBitArrayInstr kind path dt align len bo) \<Rightarrow>
             bindR (execReadStdInt rd src UINT 8 dt align bo vm) (\<lambda>_ vm1.
               if stack (pos vm1) = [] then Some (Throw AssertionFailed vm1)
               else
                 let i = 16 - remElems (last (stack (pos vm1)))
                 in if \<not> unat i < 16 then Some (Throw UuidIndexOutOfRange vm1)
                    else
                      let vm2 = vm1\<lparr>pos := (pos vm1)\<lparr>uuid :=
                                  (uuid (pos vm1))[unat i := ucast (lastIntVal (pos vm1))]\<rparr>\<rparr>
                      in andReturn True (withPos (remElems_upd (\<lambda>n. n - 1)) vm2))
         | Inr _ \<Rightarrow> Some (Throw WrongInstr vm)))"

definition stateSetPktUuid :: "Vm \<Rightarrow> bool result option" where
  "stateSetPktUuid vm =
     (if traceTypeUuid (pktProc (pos vm)) = None then Some (Throw AssertionFailed vm)
      else
        andReturn True
          (withPos setParentStateAndStackPop
             (updateItCurOffset E_traceTypeUuid
                (elems_upd (\<lambda>e. e\<lparr>traceTypeUuid_uuid := uuid (pos vm)\<rparr>) vm))))"

definition stateReadSubstr :: "DataSource \<Rightarrow> Vm \<Rightarrow> bool result option" where
  "stateReadSubstr src vm =
     (if headOffsetInCurPktBits (pos vm) AND 7 \<noteq> 0 then Some (Throw AssertionFailed vm)
      else if stack (pos vm) = [] then Some (Throw AssertionFailed vm)
      else if remElems (last (stack (pos vm))) = 0
      then andReturn False (withPos setParentStateAndStackPop vm)
      else
        bindR (Some (requireContentBits src 8 vm)) (\<lambda>_ vm1.
          if stack (pos vm1) = [] then Some (Throw AssertionFailed vm1)
          else
            let buf = bufAtHead vm1;
                bufSizeBytes = remBitsInBuf vm1 div 8;
                substrSizeBytes = min bufSizeBytes (remElems (last (stack (pos vm1))));
                substrLenBits = substrSizeBytes * 8
            in if substrLenBits > remContentBitsInPkt (pos vm1)
               then Some (Throw (CannotDecodeDataBeyondPacketContent
                                   (headOffsetInElemSeqBits (pos vm1)) substrLenBits
                                   (remContentBitsInPkt (pos vm1))) vm1)
               else
                 let vm2 = elems_upd (\<lambda>e. e\<lparr>substr_begin := buf,
                                               substr_end := buf + uint substrSizeBytes\<rparr>) vm1
                 in if \<not> uint substrSizeBytes > 0 then Some (Throw AssertionFailed vm2)
                    else
                      bindR (Some (consumeExistingBits (substrSizeBytes * 8)
                                     (updateItCurOffset E_substr vm2))) (\<lambda>_ vm3.
                        andReturn True
                          (withPos (remElems_upd (\<lambda>n. n - substrSizeBytes)) vm3))))"

subsection \<open>The state machine\<close>

definition handleState :: "IntReaderFuncs \<Rightarrow> DataSource \<Rightarrow> Vm \<Rightarrow> bool result option" where
  "handleState rd src vm =
     (case theState (pos vm) of
        EXEC_INSTR \<Rightarrow> stateExecInstr rd src vm
      | EXEC_ARRAY_INSTR \<Rightarrow> stateExecArrayInstr rd src vm
      | BEGIN_ER \<Rightarrow> stateBeginEr src vm
      | END_ER \<Rightarrow> Some (stateEndEr vm)
      | READ_SUBSTR \<Rightarrow> stateReadSubstr src vm
      | READ_SUBSTR_UNTIL_NULL \<Rightarrow> Some (stateReadSubstrUntilNull src vm)
      | END_STR \<Rightarrow> Some (stateEndStr vm)
      | CONTINUE_SKIP_PADDING_BITS \<Rightarrow> stateContinueSkipPaddingBits src vm
      | CONTINUE_SKIP_CONTENT_PADDING_BITS \<Rightarrow> stateContinueSkipPaddingBits src vm
      | READ_UUID_BYTE \<Rightarrow> stateReadUuidByte rd src vm
      | SET_TRACE_TYPE_UUID \<Rightarrow> stateSetPktUuid vm
      | BEGIN_PKT \<Rightarrow> Some (stateBeginPkt src vm)
      | BEGIN_PKT_CONTENT \<Rightarrow> Some (stateBeginPktContent vm)
      | END_PKT_CONTENT \<Rightarrow> Some (stateEndPktContent vm)
      | END_PKT \<Rightarrow> Some (stateEndPkt vm))"

text \<open>
  \<^verbatim>\<open>nextElem\<close> handles states until one of them has a new element for the iterator, or
  its end.
\<close>

partial_function (option) nextElem ::
  "IntReaderFuncs \<Rightarrow> DataSource \<Rightarrow> Vm \<Rightarrow> unit result option" where
  "nextElem rd src vm =
     (case handleState rd src vm of
        None \<Rightarrow> None
      | Some (Throw e vm') \<Rightarrow> Some (Throw e vm')
      | Some (Ret b vm1) \<Rightarrow> if b then Some (Ret () vm1) else nextElem rd src vm1)"

subsection \<open>Construction, and data sources to run the VM on\<close>

text \<open>
  A position as its constructor leaves it; the fields the constructor does not
  initialise are written with 0, \<open>BEGIN_PKT\<close> and the unset length.
\<close>

definition Elems_init :: Elems where
  "Elems_init =
     \<lparr>scopeBeginning_scope = PACKET_HEADER, pktMagicNumber_val = 0, traceTypeUuid_uuid = [],
      defClkVal_cycles = 0, sInt_dt = 0, sInt_val = 0, uInt_dt = 0, uInt_val = 0,
      sEnum_dt = 0, sEnum_val = 0, uEnum_dt = 0, uEnum_val = 0, flt_dt = 0, flt_val = 0,
      strBeginning_dt = 0, substr_begin = 0, substr_end = 0,
      staticArrayBeginning_dt = 0, staticArrayBeginning_len = 0,
      staticTextArrayBeginning_dt = 0, staticTextArrayBeginning_len = 0,
      dynArrayBeginning_dt = 0, dynArrayBeginning_len = 0,
      dynTextArrayBeginning_dt = 0, dynTextArrayBeginning_len = 0,
      structBeginning_dt = 0, varSSelBeginning_dt = 0, varSSelBeginning_selVal = 0,
      varUSelBeginning_dt = 0, varUSelBeginning_selVal = 0,
      dsInfo_dst = None, dsInfo_id = 0,
      pktInfo_expectedTotalLen = None, pktInfo_expectedContentLen = None,
      pktInfo_originIndex = 0, pktInfo_endDefClkVal = 0, erInfo_ert = None\<rparr>"

definition VmPos_init :: "PktProc \<Rightarrow> VmPos" where
  "VmPos_init pp =
     \<lparr>curPktOffsetInElemSeqBits = 0, headOffsetInCurPktBits = 0, elems = Elems_init,
      theState = BEGIN_PKT, postSkipBitsState = BEGIN_PKT, postEndStrState = BEGIN_PKT,
      lastBo = None, remBitsToSkip = 0, lastIntVal = 0, curId = 0, pktProc = pp,
      curDsPktProc = None, curErProc = None, uuid = replicate 16 0,
      curExpectedPktTotalLenBits = SIZE_UNSET, curExpectedPktContentLenBits = SIZE_UNSET,
      stack = [], savedVals = replicate (unat (savedValsCount pp)) SIZE_UNSET,
      defClkVal = 0\<rparr>"

definition Vm_init :: "PktProc \<Rightarrow> Vm" where
  "Vm_init pp =
     \<lparr>bufMem = [], bufAddr = 0, bufLenBits = 0, bufOffsetInCurPktBits = 0,
      iter = \<lparr>it_curElem = None, it_offset = 0, it_mark = 0\<rparr>,
      pos = VmPos_init pp, dataSrcCalls = []\<rparr>"

text \<open>
  A data source over a sequence of chunks: it returns the rest of the chunk which holds
  the requested byte, and no block past the last chunk.
\<close>

fun chunkAt :: "byte list list \<Rightarrow> nat \<Rightarrow> byte list option" where
  "chunkAt [] off = None"
| "chunkAt (c # cs) off = (if off < length c then Some (drop off c) else chunkAt cs (off - length c))"

definition chunkSrc :: "byte list list \<Rightarrow> DataSource" where
  "chunkSrc chunks offsetBytes sizeBytes = chunkAt chunks (unat offsetBytes)"

definition examplePktProc :: PktProc where
  "examplePktProc =
     \<lparr>preambleProc = [EndPktPreambleProcInstr], dsPktProcs = [], savedValsCount = 2,
      traceTypeUuid = None\<rparr>"

text \<open>
  A VM in the midst of a packet, to run the handlers on: the head at \<open>h\<close>, the expected
  content length \<open>content\<close>, an empty buffer window at the head.
\<close>

definition exampleVmAt :: "Index \<Rightarrow> Size \<Rightarrow> Vm" where
  "exampleVmAt h content =
     resetBuffer ((Vm_init examplePktProc)\<lparr>pos := (VmPos_init examplePktProc)
        \<lparr>headOffsetInCurPktBits := h, curExpectedPktContentLenBits := content,
         theState := EXEC_INSTR\<rparr>\<rparr>)"

text \<open>What a run ends with: the error thrown, the VM, the head offset.\<close>

definition outcomeError :: "'a result option \<Rightarrow> DecodingError option" where
  "outcomeError r = (case r of Some (Throw e vm) \<Rightarrow> Some e | _ \<Rightarrow> None)"

definition outcomeVm :: "'a result option \<Rightarrow> Vm option" where
  "outcomeVm r =
     (case r of Some (Throw e vm) \<Rightarrow> Some vm | Some (Ret x vm) \<Rightarrow> Some vm | None \<Rightarrow> None)"

definition outcomeHead :: "'a result option \<Rightarrow> Index option" where
  "outcomeHead r = map_option (\<lambda>vm. headOffsetInCurPktBits (pos vm)) (outcomeVm r)"

text \<open>A table of reading functions which all read the byte they point to.\<close>

definition exampleReaders :: IntReaders where
  "exampleReaders index mem buf = ucast (mem ! nat buf)"

definition lastBo_upd :: "ByteOrder option \<Rightarrow> Vm \<Rightarrow> Vm" where
  "lastBo_upd b vm = vm\<lparr>pos := (pos vm)\<lparr>lastBo := b\<rparr>\<rparr>"

text \<open>The VM a result carries.\<close>

definition resVm :: "'a result \<Rightarrow> Vm" where
  "resVm r = (case r of Ret x vm \<Rightarrow> vm | Throw e vm \<Rightarrow> vm)"

definition outcomeStack :: "'a result option \<Rightarrow> VmStackFrame list option" where
  "outcomeStack r = map_option (\<lambda>vm. stack (pos vm)) (outcomeVm r)"

text \<open>
  The variant of the fourth seed scenario: the option of the ranges \<open>[0, 5]\<close> reads an
  unsigned integer of 8 bits, the option of \<open>[6, 10]\<close> one of 16 bits; the saved values are
  7 and 11.
\<close>

definition exampleVarOpts :: "(IntRangeSet \<times> Proc) list" where
  "exampleVarOpts =
     [([(0, 5)], [ReadBitArrayInstr (INT_ELEM UINT) (STD 8) 0 8 8 LITTLE, EndReadVarInstr]),
      ([(6, 10)], [ReadBitArrayInstr (INT_ELEM UINT) (STD 16) 0 8 16 LITTLE, EndReadVarInstr])]"

definition exampleVarVm :: Vm where
  "exampleVarVm =
     (exampleVmAt 0 SIZE_UNSET)\<lparr>pos := (pos (exampleVmAt 0 SIZE_UNSET))
        \<lparr>savedVals := [7, 11],
         stack := [\<lparr>proc = [BeginReadVarInstr UINT 0 1 0 exampleVarOpts, EndReadStructInstr],
                    it = 0, parentState = EXEC_INSTR, remElems = 0\<rparr>]\<rparr>\<rparr>"

text \<open>
  The bytes of the substring element, and the fifth seed scenario: a data source which
  returns \<open>hel\<close> and then \<open>lo\0wo\<close>, and a VM which starts to read a string.
\<close>

definition substrBytes :: "Vm \<Rightarrow> byte list" where
  "substrBytes vm =
     take (nat (substr_end (elems (pos vm)) - substr_begin (elems (pos vm))))
       (drop (nat (substr_begin (elems (pos vm)))) (bufMem vm))"

definition exampleStrSrc :: DataSource where
  "exampleStrSrc = chunkSrc [[0x68, 0x65, 0x6C], [0x6C, 0x6F, 0, 0x77, 0x6F]]"

definition exampleStrVm :: Vm where
  "exampleStrVm = state_upd READ_SUBSTR_UNTIL_NULL (exampleVmAt 0 SIZE_UNSET)"

text \<open>
  A VM at the end of the first packet of a stream of two packets of one byte: the packet
  is 8 bits long, the head is at its end, the buffer holds both bytes, and the iterator
  has shown six elements of this packet.
\<close>

definition exampleEndPktVm :: Vm where
  "exampleEndPktVm =
     \<lparr>bufMem = [0x2A, 0x2B], bufAddr = 0, bufLenBits = 16, bufOffsetInCurPktBits = 0,
      iter = \<lparr>it_curElem = Some E_end, it_offset = 8, it_mark = 6\<rparr>,
      pos = (VmPos_init examplePktProc)
              \<lparr>headOffsetInCurPktBits := 8, theState := END_PKT,
               curExpectedPktTotalLenBits := 8, curExpectedPktContentLenBits := 8\<rparr>,
      dataSrcCalls = [(0, 1)]\<rparr>"

text \<open>
  A run of the VM: \<open>n\<close> calls of \<^verbatim>\<open>nextElem\<close>, each on the VM the call before returned.
  The run of the examples is over a stream of two packets of one byte, which the packet
  procedure reads as the one field of the packet header.
\<close>

definition exampleReaderFuncs :: IntReaderFuncs where
  "exampleReaderFuncs =
     \<lparr>readIntFuncs = (\<lambda>sg bo. exampleReaders), readInt8 = (\<lambda>sg. exampleReaders 0),
      readIntStd = (\<lambda>sg bo n. exampleReaders 0)\<rparr>"

fun nextElems :: "IntReaderFuncs \<Rightarrow> DataSource \<Rightarrow> nat \<Rightarrow> Vm \<Rightarrow> Vm option" where
  "nextElems rd src 0 vm = Some vm"
| "nextElems rd src (Suc n) vm =
     (case nextElems rd src n vm of
        None \<Rightarrow> None
      | Some vm1 \<Rightarrow>
          (case nextElem rd src vm1 of
             Some (Ret _ vm2) \<Rightarrow> Some vm2
           | _ \<Rightarrow> None))"

definition byteHeaderPktProc :: PktProc where
  "byteHeaderPktProc =
     \<lparr>preambleProc =
        [BeginReadScopeInstr PACKET_HEADER 8
           [ReadBitArrayInstr (INT_ELEM UINT) (STD 8) 0 8 8 LITTLE, EndReadScopeInstr],
         EndPktPreambleProcInstr],
      dsPktProcs = [], savedValsCount = 0, traceTypeUuid = None\<rparr>"

definition exampleRun :: "nat \<Rightarrow> Vm option" where
  "exampleRun n =
     nextElems exampleReaderFuncs (chunkSrc [[0x2A, 0x2B]]) n (Vm_init byteHeaderPktProc)"

definition itPos :: "Vm option \<Rightarrow> (ElemKind option \<times> nat \<times> nat) option" where
  "itPos r = map_option (\<lambda>vm. (it_curElem (iter vm), unat (it_offset (iter vm)),
                                unat (it_mark (iter vm)))) r"

subsection \<open>The clock update as the specification words it\<close>

text \<open>
  The value \<^verbatim>\<open>updateDefClkVal\<close> is specified to compute, with
  \<open>mask = (1 << L) - 1\<close> and \<open>curLow = defClkVal & mask\<close>.
\<close>

definition spec_clk_update :: "nat \<Rightarrow> 64 word \<Rightarrow> 64 word \<Rightarrow> 64 word" where
  "spec_clk_update L clk new =
     (if L = 64 then new
      else ((clk + (if new < clk AND (2 ^ L - 1) then (2 ^ L - 1) + 1 else 0))
              AND NOT (2 ^ L - 1)) OR new)"

subsection \<open>Alignment as the specification words it\<close>

text \<open>
  The number of bits from an offset \<open>h\<close> to the next multiple of \<open>2 ^ k\<close>, which is
  \<open>ceil(h / 2 ^ k) * 2 ^ k\<close>.
\<close>

definition padBits :: "nat \<Rightarrow> nat \<Rightarrow> nat" where
  "padBits k h = (if h mod 2 ^ k = 0 then 0 else 2 ^ k - h mod 2 ^ k)"

text \<open>
  A data source whose blocks are never empty (and shorter than \<open>2 ^ 61\<close> bytes, so that
  their length in bits fits 64 bits).
\<close>

definition blocksNonEmpty :: "DataSource \<Rightarrow> bool" where
  "blocksNonEmpty src =
     (\<forall>offsetBytes sizeBytes dataBlock. src offsetBytes sizeBytes = Some dataBlock \<longrightarrow>
        0 < length dataBlock \<and> length dataBlock < 2 ^ 61)"

subsection \<open>The substring read as the specification words it\<close>

text \<open>
  The window the scan sees: the whole bytes which remain in the buffer from the head. The
  substring emitted from a window: its bytes up to the first zero byte, this byte
  included, or all of the window when it holds no zero byte.
\<close>

definition bufWindow :: "Vm \<Rightarrow> byte list" where
  "bufWindow vm = take (unat (remBitsInBuf vm div 8)) (drop (nat (bufAtHead vm)) (bufMem vm))"

definition substrUntilNull :: "byte list \<Rightarrow> byte list" where
  "substrUntilNull window =
     (if 0 \<in> set window then takeWhile (\<lambda>b. b \<noteq> 0) window @ [0] else window)"


subsection \<open>The invariant of a run\<close>

text \<open>
  A data source fit for the VM: its blocks are never empty, and a block ends before the
  bit \<open>2 ^ 64\<close> of the element sequence, the greatest offset an \<^verbatim>\<open>Index\<close> holds.
\<close>

definition blocksInRange :: "DataSource \<Rightarrow> bool" where
  "blocksInRange src =
     (\<forall>offsetBytes sizeBytes dataBlock. src offsetBytes sizeBytes = Some dataBlock \<longrightarrow>
        0 < length dataBlock \<and> (unat offsetBytes + length dataBlock) * 8 < 2 ^ 64)"

text \<open>
  The offset of the head in the element sequence, as a natural number: the sum which
  \<^verbatim>\<open>headOffsetInElemSeqBits\<close> computes in 64 bits.
\<close>

definition headOffsetNat :: "Vm \<Rightarrow> nat" where
  "headOffsetNat vm =
     unat (curPktOffsetInElemSeqBits (pos vm)) + unat (headOffsetInCurPktBits (pos vm))"

text \<open>
  The data source has a block for every request at a byte which holds a bit from \<open>lo\<close> up
  to, but not including, \<open>hi\<close>.
\<close>

definition dataAt :: "DataSource \<Rightarrow> nat \<Rightarrow> nat \<Rightarrow> bool" where
  "dataAt src lo hi =
     (\<forall>offsetBytes sizeBytes.
        lo div 8 \<le> unat offsetBytes \<and> unat offsetBytes * 8 < hi \<longrightarrow>
        src offsetBytes sizeBytes \<noteq> None)"

text \<open>
  The buffer window is sound: the packet and the window start on a byte, the head is inside
  the window or at its end, and the window ends before the bit \<open>2 ^ 64\<close> of the element
  sequence.
\<close>

definition bufOK :: "Vm \<Rightarrow> bool" where
  "bufOK vm =
     (curPktOffsetInElemSeqBits (pos vm) AND 7 = 0
      \<and> bufOffsetInCurPktBits vm AND 7 = 0
      \<and> unat (bufOffsetInCurPktBits vm) \<le> unat (headOffsetInCurPktBits (pos vm))
      \<and> unat (headOffsetInCurPktBits (pos vm))
           \<le> unat (bufOffsetInCurPktBits vm) + unat (bufLenBits vm)
      \<and> unat (curPktOffsetInElemSeqBits (pos vm)) + unat (bufOffsetInCurPktBits vm)
           + unat (bufLenBits vm) < 2 ^ 64)"

text \<open>
  The parent states of the frames of the stack, the one of the top frame first. The
  bottom frame is pushed by \<^verbatim>\<open>loadNewProc\<close>, in the state \<open>BEGIN_PKT\<close>, \<open>BEGIN_ER\<close> or
  \<open>EXEC_INSTR\<close>; any other frame is pushed by an instruction, in the state \<open>EXEC_INSTR\<close>
  or \<open>EXEC_ARRAY_INSTR\<close>, and in the latter state the frame below is itself one which
  an instruction has pushed. \<open>arrayFrameOK\<close>: the top frame returns to one of the two
  states which run instructions.
\<close>

definition pstates :: "VmPos \<Rightarrow> VmState list" where
  "pstates p = rev (map parentState (stack p))"

fun chainOK :: "VmState list \<Rightarrow> bool" where
  "chainOK [] = True"
| "chainOK [s] = (s = BEGIN_PKT \<or> s = BEGIN_ER \<or> s = EXEC_INSTR)"
| "chainOK (s # t # ss) =
     ((s = EXEC_INSTR \<or> s = EXEC_ARRAY_INSTR \<and> (t = EXEC_INSTR \<or> t = EXEC_ARRAY_INSTR))
      \<and> chainOK (t # ss))"

definition arrayFrameOK :: "VmPos \<Rightarrow> bool" where
  "arrayFrameOK p =
     (stack p \<noteq> []
      \<and> (parentState (last (stack p)) = EXEC_INSTR
         \<or> parentState (last (stack p)) = EXEC_ARRAY_INSTR))"

text \<open>
  What holds in a state between two calls of \<^verbatim>\<open>_handleState\<close> which return: at the
  beginning of a packet the head is at 0; at the end of a packet the head is at the
  expected total length, if there is one; the state which skips padding is the one
  \<^verbatim>\<open>_stateEndPktContent\<close> sets, and the skip ends at the expected total length (the state
  which skips content padding is only set within \<^verbatim>\<open>_alignHead\<close>); the states which read
  the elements of an array have the frame of this array on top.
\<close>

definition stateOK :: "VmPos \<Rightarrow> bool" where
  "stateOK p =
     (case theState p of
        BEGIN_PKT \<Rightarrow> headOffsetInCurPktBits p = 0
      | END_PKT \<Rightarrow>
          curExpectedPktTotalLenBits p = SIZE_UNSET
          \<or> headOffsetInCurPktBits p = curExpectedPktTotalLenBits p
      | CONTINUE_SKIP_PADDING_BITS \<Rightarrow>
          postSkipBitsState p = END_PKT
          \<and> headOffsetInCurPktBits p + remBitsToSkip p = curExpectedPktTotalLenBits p
      | CONTINUE_SKIP_CONTENT_PADDING_BITS \<Rightarrow> False
      | EXEC_ARRAY_INSTR \<Rightarrow> arrayFrameOK p
      | READ_SUBSTR \<Rightarrow> arrayFrameOK p
      | READ_UUID_BYTE \<Rightarrow> arrayFrameOK p
      | SET_TRACE_TYPE_UUID \<Rightarrow> arrayFrameOK p
      | READ_SUBSTR_UNTIL_NULL \<Rightarrow>
          (postEndStrState p = EXEC_ARRAY_INSTR \<longrightarrow> arrayFrameOK p)
      | END_STR \<Rightarrow> (postEndStrState p = EXEC_ARRAY_INSTR \<longrightarrow> arrayFrameOK p)
      | _ \<Rightarrow> True)"

definition vmOK :: "Vm \<Rightarrow> bool" where
  "vmOK vm = (bufOK vm \<and> chainOK (pstates (pos vm)) \<and> stateOK (pos vm))"

text \<open>
  The iterator is not ahead of the head. The iterator is at its end. And a VM which has
  \<^emph>\<open>escaped\<close>: it is at the beginning of a packet with a head which is not at 0, which
  happens when an instruction which ends a structure or a variant pops the bottom frame of
  the packet preamble procedure; no procedure which the procedure builder makes does
  this.
\<close>

definition itOK :: "Vm \<Rightarrow> bool" where
  "itOK vm = (unat (it_offset (iter vm)) \<le> headOffsetNat vm)"

definition atEnd :: "Vm \<Rightarrow> bool" where
  "atEnd vm = (it_offset (iter vm) = END_OFFSET \<and> it_mark (iter vm) = 0)"

definition escaped :: "Vm \<Rightarrow> bool" where
  "escaped vm = (theState (pos vm) = BEGIN_PKT \<and> headOffsetInCurPktBits (pos vm) \<noteq> 0)"

text \<open>
  What a step from \<open>vm\<close> to \<open>vm'\<close> which returns \<open>b\<close> does to the head and to the iterator:
  the head does not move back; with a new element (\<open>b\<close> true) the mark is one more and
  the offset of the iterator is between the two offsets of the head; without one the
  iterator is the same.
\<close>

definition stepOrder :: "Vm \<Rightarrow> bool \<Rightarrow> Vm \<Rightarrow> bool" where
  "stepOrder vm b vm' =
     (headOffsetNat vm \<le> headOffsetNat vm'
      \<and> (if b then it_mark (iter vm') = it_mark (iter vm) + 1
                 \<and> headOffsetNat vm \<le> unat (it_offset (iter vm'))
                 \<and> unat (it_offset (iter vm')) \<le> headOffsetNat vm'
          else iter vm' = iter vm))"

definition stepOK :: "Vm \<Rightarrow> bool \<Rightarrow> Vm \<Rightarrow> bool" where
  "stepOK vm b vm' =
     (stepOrder vm b vm'
      \<and> (if b then vmOK vm' \<or> escaped vm'
          else vmOK vm' \<and> theState (pos vm') \<noteq> BEGIN_PKT))"

text \<open>
  Relations between a VM and a later one, to follow a handler through its steps:
  \<open>advanced\<close>, the head may have moved forward and the window may be a new one;
  \<open>shown\<close>, a new element is shown at the head, which does not move; \<open>quiet\<close>, neither the
  window, the iterator, the state nor the stack have changed.
\<close>

definition advanced :: "Vm \<Rightarrow> Vm \<Rightarrow> bool" where
  "advanced vm vm' =
     (bufOK vm' \<and> iter vm' = iter vm
      \<and> unat (headOffsetInCurPktBits (pos vm)) \<le> unat (headOffsetInCurPktBits (pos vm'))
      \<and> curPktOffsetInElemSeqBits (pos vm') = curPktOffsetInElemSeqBits (pos vm)
      \<and> theState (pos vm') = theState (pos vm)
      \<and> stack (pos vm') = stack (pos vm)
      \<and> postEndStrState (pos vm') = postEndStrState (pos vm)
      \<and> curExpectedPktTotalLenBits (pos vm') = curExpectedPktTotalLenBits (pos vm)
      \<and> unat (headOffsetInElemSeqBits (pos vm')) = headOffsetNat vm')"

definition shown :: "Vm \<Rightarrow> Vm \<Rightarrow> bool" where
  "shown vm vm' =
     (bufOffsetInCurPktBits vm' = bufOffsetInCurPktBits vm
      \<and> bufLenBits vm' = bufLenBits vm
      \<and> curPktOffsetInElemSeqBits (pos vm') = curPktOffsetInElemSeqBits (pos vm)
      \<and> headOffsetInCurPktBits (pos vm') = headOffsetInCurPktBits (pos vm)
      \<and> theState (pos vm') = theState (pos vm)
      \<and> stack (pos vm') = stack (pos vm)
      \<and> postEndStrState (pos vm') = postEndStrState (pos vm)
      \<and> curExpectedPktTotalLenBits (pos vm') = curExpectedPktTotalLenBits (pos vm)
      \<and> it_mark (iter vm') = it_mark (iter vm) + 1
      \<and> it_offset (iter vm') = headOffsetInElemSeqBits (pos vm))"

definition quiet :: "Vm \<Rightarrow> Vm \<Rightarrow> bool" where
  "quiet vm vm' =
     (bufOffsetInCurPktBits vm' = bufOffsetInCurPktBits vm
      \<and> bufLenBits vm' = bufLenBits vm
      \<and> iter vm' = iter vm
      \<and> curPktOffsetInElemSeqBits (pos vm') = curPktOffsetInElemSeqBits (pos vm)
      \<and> headOffsetInCurPktBits (pos vm') = headOffsetInCurPktBits (pos vm)
      \<and> theState (pos vm') = theState (pos vm)
      \<and> stack (pos vm') = stack (pos vm)
      \<and> postEndStrState (pos vm') = postEndStrState (pos vm))"

text \<open>
  What an instruction handler which returns the reaction \<open>r\<close> guarantees, what
  \<^verbatim>\<open>_stateBeginPkt\<close> does, and both for any state.
\<close>

definition execOK :: "Vm \<Rightarrow> ExecReaction \<Rightarrow> Vm \<Rightarrow> bool" where
  "execOK vm r vm' =
     (stepOrder vm (r = FETCH_NEXT_INSTR_AND_STOP \<or> r = STOP) vm'
      \<and> (vmOK vm' \<or> r = STOP \<and> escaped vm'
          \<or> theState (pos vm) = EXEC_ARRAY_INSTR \<and> r = EXEC_CUR_INSTR)
      \<and> (r = EXEC_NEXT_INSTR \<or> r = EXEC_CUR_INSTR
           \<longrightarrow> theState (pos vm') = theState (pos vm))
      \<and> (r = CHANGE_STATE \<longrightarrow> theState (pos vm') \<noteq> BEGIN_PKT))"

definition beginOrder :: "Vm \<Rightarrow> Vm \<Rightarrow> bool" where
  "beginOrder vm vm' =
     (atEnd vm'
      \<or> it_mark (iter vm') = 1
         \<and> unat (it_offset (iter vm')) = headOffsetNat vm
         \<and> headOffsetNat vm' = headOffsetNat vm
         \<and> vmOK vm')"

definition nextOrder :: "Vm \<Rightarrow> bool \<Rightarrow> Vm \<Rightarrow> bool" where
  "nextOrder vm b vm' =
     (if theState (pos vm) = BEGIN_PKT then b \<and> beginOrder vm vm' else stepOK vm b vm')"

section \<open>Words\<close>

lemma unat_and_mask64: "unat ((w::64 word) AND mask L) = unat w mod 2 ^ L"
proof -
  have "unat (take_bit L w) = take_bit L (unat w)"
    by (simp add: unsigned_take_bit_eq)
  then show ?thesis
    by (simp only: take_bit_eq_mask [symmetric] take_bit_eq_mod)
qed

lemma and_not_mask_eq_diff: "(w :: 64 word) AND NOT (mask L) = w - (w AND mask L)"
proof -
  have "(w AND NOT (mask L)) AND (w AND mask L) = 0"
    by (rule bit_eqI) (auto simp: bit_simps)
  then have "(w AND NOT (mask L)) + (w AND mask L) = (w AND NOT (mask L)) OR (w AND mask L)"
    by (rule disjunctive_add_eq_or)
  also have "\<dots> = w"
    by (rule bit_eqI) (auto simp: bit_simps)
  finally show ?thesis by (simp add: algebra_simps)
qed

lemma unat_and_not_mask64: "unat ((w::64 word) AND NOT (mask L)) = unat w - unat w mod 2 ^ L"
proof -
  have "w AND mask L \<le> w" by (rule word_and_le2)
  then show ?thesis
    by (simp add: and_not_mask_eq_diff unat_sub unat_and_mask64)
qed

lemma unat_2p64: "L < 64 \<Longrightarrow> unat (2 ^ L :: 64 word) = 2 ^ L"
proof -
  assume a: "L < 64"
  have "(2 ^ L :: 64 word) = of_nat (2 ^ L)" by simp
  then have "unat (2 ^ L :: 64 word) = (2 ^ L) mod 2 ^ 64"
    by (simp only: unat_of_nat) simp
  moreover from a have "(2 ^ L :: nat) < 2 ^ 64"
    by (rule power_strict_increasing) simp
  ultimately show ?thesis by (simp only: mod_less)
qed

lemma unat_of_nat_len64: "L \<le> 64 \<Longrightarrow> unat (of_nat L :: 64 word) = L"
  by (simp add: unat_of_nat)

lemma seven_mask: "(7 :: 64 word) = mask 3"
  by (simp add: mask_eq_exp_minus_1)

lemma unat_and7: "unat ((w :: 64 word) AND 7) = unat w mod 8"
  by (simp add: seven_mask unat_and_mask64)

lemma floor_div8: "((w :: 64 word) AND NOT 7) div 8 = w div 8"
proof -
  have "unat ((w AND NOT 7) div 8) = (unat w - unat w mod 8) div 8"
    by (simp add: seven_mask unat_and_not_mask64 unat_div)
  also have "\<dots> = unat w div 8"
    by (simp add: minus_mod_eq_mult_div)
  also have "\<dots> = unat (w div 8)"
    by (simp add: unat_div)
  finally show ?thesis
    by (simp only: word_unat_eq_iff)
qed

lemma floor_div8_neg: "((w :: 64 word) AND - 8) div 8 = w div 8"
  using floor_div8 [of w] by simp

lemma sizeBytes_unat:
  fixes n h :: "64 word"
  assumes "n \<le> 64"
  shows "unat ((n + 7 + (h AND 7)) div 8) = (unat n + unat h mod 8 + 7) div 8"
proof -
  from assms have n: "unat n \<le> 64"
    by (simp add: word_le_nat_alt)
  have b: "unat (h AND 7) < 8"
    by (simp add: unat_and7)
  from n have "unat (n + 7) = unat n + 7"
    by (simp add: unat_add_lem [THEN iffD1])
  with n b have "unat (n + 7 + (h AND 7)) = unat n + 7 + unat (h AND 7)"
    by (simp add: unat_add_lem [THEN iffD1])
  moreover have "unat (8 :: 64 word) = 8" by simp
  ultimately have "unat ((n + 7 + (h AND 7)) div 8) = (unat n + 7 + unat (h AND 7)) div 8"
    by (simp only: unat_div)
  also have "\<dots> = (unat n + unat h mod 8 + 7) div 8"
    by (simp only: unat_and7 add.commute add.left_commute)
  finally show ?thesis .
qed

lemma sizeBytes_le9:
  fixes n :: "64 word"
  assumes "n \<le> 64"
  shows "(unat n + unat (h :: 64 word) mod 8 + 7) div 8 \<le> 9"
proof -
  from assms have "unat n \<le> 64"
    by (simp add: word_le_nat_alt)
  moreover have "unat h mod 8 < 8" by simp
  ultimately show ?thesis by linarith
qed

lemma reqOffset_floor:
  fixes c h :: "64 word"
  assumes "c AND 7 = 0" and "unat c + unat h < 2 ^ 64"
  shows "c div 8 + h div 8 = (c + h) div 8"
proof -
  from assms(1) have "unat c mod 8 = 0"
    using unat_and7 [of c] by simp
  then have d: "(unat c + unat h) div 8 = unat c div 8 + unat h div 8"
    by (simp add: div_add1_eq)
  from assms(2) have s: "unat (c + h) = unat c + unat h"
    by (simp add: unat_add_lem [THEN iffD1])
  have e: "unat (8 :: 64 word) = 8" by simp
  from assms(2) have "unat c div 8 + unat h div 8 < 2 ^ 64"
    by (simp add: d [symmetric] less_imp_diff_less div_le_dividend le_less_trans)
  then have "unat (c div 8 + h div 8) = unat c div 8 + unat h div 8"
    by (simp add: unat_add_lem [THEN iffD1] unat_div)
  also have "\<dots> = unat ((c + h) div 8)"
    by (simp only: unat_div s d e)
  finally show ?thesis
    by (simp only: word_unat_eq_iff)
qed

lemma neg_pow2: "- (2 ^ k :: 64 word) = NOT (mask k)"
  by (simp add: minus_eq_not_minus_1 mask_eq_exp_minus_1)

lemma align_expr: "((h :: 64 word) + 2 ^ k - 1) AND (- (2 ^ k)) = (h + mask k) AND NOT (mask k)"
  by (simp add: neg_pow2 mask_eq_exp_minus_1 algebra_simps)

lemma unat_mask64: "k < 64 \<Longrightarrow> unat (mask k :: 64 word) = 2 ^ k - 1"
proof -
  assume k: "k < 64"
  have "(2 ^ k :: 64 word) \<noteq> 0"
    using unat_2p64 [OF k] by (metis power_not_zero unat_0 zero_neq_numeral)
  then have "unat ((2 ^ k :: 64 word) - 1) = unat (2 ^ k :: 64 word) - 1"
    by (rule unat_minus_one)
  with k show ?thesis
    by (simp add: mask_eq_exp_minus_1 unat_2p64)
qed

lemma mod_pow2_64: "k < 64 \<Longrightarrow> (x mod 2 ^ 64) mod 2 ^ k = (x :: nat) mod 2 ^ k"
proof -
  assume "k < 64"
  then have "k \<le> 64" by simp
  then have "(2 :: nat) ^ k dvd 2 ^ 64"
    by (rule le_imp_power_dvd)
  then show ?thesis
    by (rule mod_mod_cancel)
qed

lemma shifted_mod:
  "((h :: nat) + 2 ^ k - 1) mod 2 ^ k = (if h mod 2 ^ k = 0 then 2 ^ k - 1 else h mod 2 ^ k - 1)"
proof -
  let ?P = "(2 :: nat) ^ k"
  have P: "0 < ?P" by simp
  have "(h + ?P - 1) mod ?P = (h mod ?P + (?P - 1)) mod ?P"
    using P by (metis Nat.add_diff_assoc One_nat_def Suc_leI mod_add_left_eq)
  also have "\<dots> = (if h mod ?P = 0 then ?P - 1 else h mod ?P - 1)"
  proof (cases "h mod ?P = 0")
    case True
    then show ?thesis by simp
  next
    case False
    then have a: "h mod ?P + (?P - 1) = ?P + (h mod ?P - 1)" by simp
    have "h mod ?P - 1 < ?P"
      using P by (meson less_imp_diff_less mod_less_divisor)
    then have "(?P + (h mod ?P - 1)) mod ?P = h mod ?P - 1"
      by (simp only: mod_add_self1 mod_less)
    with a False show ?thesis by (simp only: if_False)
  qed
  finally show ?thesis .
qed

lemma unat_bitsToSkip:
  fixes h :: "64 word"
  assumes k: "k < 64"
  shows "unat (((h + 2 ^ k - 1) AND (- (2 ^ k))) - h) = padBits k (unat h)"
proof -
  let ?m = "mask k :: 64 word"
  have e: "((h + 2 ^ k - 1) AND (- (2 ^ k))) - h = ?m - ((h + ?m) AND ?m)"
    by (simp add: align_expr and_not_mask_eq_diff)
  have le: "(h + ?m) AND ?m \<le> ?m" by (rule word_and_le1)
  have "unat (h + ?m) = (unat h + unat ?m) mod 2 ^ 64"
    using unat_word_ariths(1) [of h ?m] by simp
  then have "unat (h + ?m) mod 2 ^ k = (unat h + unat ?m) mod 2 ^ k"
    using k by (simp only: mod_pow2_64)
  then have "unat ((h + ?m) AND ?m) = (unat h + 2 ^ k - 1) mod 2 ^ k"
    using k by (simp add: unat_and_mask64 unat_mask64)
  then have "unat (?m - ((h + ?m) AND ?m)) = (2 ^ k - 1) - (unat h + 2 ^ k - 1) mod 2 ^ k"
    using le k by (simp add: unat_sub unat_mask64)
  also have "\<dots> = padBits k (unat h)"
    unfolding shifted_mod padBits_def
    using mod_less_divisor [of "2 ^ k" "unat h"] by (auto simp del: mod_less_divisor)
  finally show ?thesis using e by simp
qed

lemma padBits_ceil: "h + padBits k h = (h + 2 ^ k - 1) div 2 ^ k * 2 ^ k"
proof -
  let ?P = "(2 :: nat) ^ k"
  have P: "0 < ?P" by simp
  have "(h + ?P - 1) div ?P * ?P = (h + ?P - 1) - (h + ?P - 1) mod ?P"
    by (simp add: minus_mod_eq_div_mult)
  also have "\<dots> = h + padBits k h"
    unfolding shifted_mod padBits_def
    using mod_less_divisor [of ?P h] mod_less_eq_dividend [of h ?P]
    by (auto simp del: mod_less_divisor)
  finally show ?thesis by simp
qed

lemma unat_newHead:
  fixes h :: "64 word"
  assumes k: "k < 64"
  shows "unat ((h + 2 ^ k - 1) AND (- (2 ^ k))) = ((unat h + 2 ^ k - 1) div 2 ^ k * 2 ^ k) mod 2 ^ 64"
proof -
  let ?n = "(h + 2 ^ k - 1) AND (- (2 ^ k))"
  have "unat (h + (?n - h)) = (unat h + unat (?n - h)) mod 2 ^ 64"
    using unat_word_ariths(1) [of h "?n - h"] by simp
  then have "unat ?n = (unat h + padBits k (unat h)) mod 2 ^ 64"
    by (simp add: unat_bitsToSkip [OF k])
  then show ?thesis
    by (simp only: padBits_ceil)
qed

section \<open>The clock accumulator\<close>

lemma unat_hi_or_low:
  fixes clk new :: "64 word"
  assumes "new < 2 ^ L"
  shows "unat ((clk AND NOT (mask L)) OR new) = unat clk - unat clk mod 2 ^ L + unat new"
proof -
  let ?hi = "clk AND NOT (mask L)"
  from assms have nm: "new AND mask L = new" by (rule less_mask_eq)
  have "?hi AND (new AND mask L) = 0"
    by (rule bit_eqI) (auto simp: bit_simps)
  with nm have "?hi AND new = 0" by simp
  then have eq: "?hi OR new = ?hi + new"
    by (simp add: disjunctive_add_eq_or)
  have "?hi \<le> ?hi OR new" by (rule le_word_or2)
  with eq have "?hi \<le> ?hi + new" by simp
  then have "unat (?hi + new) = unat ?hi + unat new"
    by (simp add: unat_plus_simple)
  with eq show ?thesis by (simp add: unat_and_not_mask64)
qed

lemma clk_no_wrap:
  fixes clk new :: "64 word"
  assumes "new < 2 ^ L" and "\<not> new < clk AND mask L"
  shows "clk \<le> (clk AND NOT (mask L)) OR new"
proof -
  from assms(2) have "unat clk mod 2 ^ L \<le> unat new"
    by (simp add: word_less_nat_alt unat_and_mask64)
  moreover have "unat clk mod 2 ^ L \<le> unat clk" by simp
  ultimately show ?thesis
    using unat_hi_or_low [OF assms(1), of clk]
    by (simp add: word_le_nat_alt)
qed

lemma clk_wrap:
  fixes clk new :: "64 word"
  assumes "L < 64" and "unat clk + 2 ^ L < 2 ^ 64"
  shows "clk \<le> ((clk + (mask L + 1)) AND NOT (mask L)) OR new"
proof -
  let ?c = "clk + (mask L + 1)"
  have m1: "(mask L + 1 :: 64 word) = 2 ^ L"
    by (simp add: mask_eq_exp_minus_1)
  from assms(1) have p: "unat (2 ^ L :: 64 word) = 2 ^ L"
    by (rule unat_2p64)
  with assms(2) have uc: "unat ?c = unat clk + 2 ^ L"
    by (simp add: m1 unat_add_lem [THEN iffD1])
  have "unat (?c AND NOT (mask L)) = unat ?c - unat ?c mod 2 ^ L"
    by (rule unat_and_not_mask64)
  also have "\<dots> = unat clk + 2 ^ L - unat clk mod 2 ^ L"
    by (simp add: uc)
  finally have e: "unat (?c AND NOT (mask L)) = unat clk + 2 ^ L - unat clk mod 2 ^ L" .
  have "unat clk mod 2 ^ L < 2 ^ L" by simp
  then have "unat clk \<le> unat clk + 2 ^ L - unat clk mod 2 ^ L" by linarith
  with e have "unat clk \<le> unat (?c AND NOT (mask L))" by simp
  then have "clk \<le> ?c AND NOT (mask L)"
    by (simp add: word_le_nat_alt)
  also have "\<dots> \<le> (?c AND NOT (mask L)) OR new"
    by (rule le_word_or2)
  finally show ?thesis .
qed

lemma updateDefClkVal_fst:
  assumes "L < 64"
  shows "fst (updateDefClkVal (of_nat L) p) =
           ((if lastIntVal p < defClkVal p AND mask L then defClkVal p + (mask L + 1)
             else defClkVal p) AND NOT (mask L)) OR lastIntVal p"
proof -
  from assms have un: "unat (of_nat L :: 64 word) = L"
    by (simp add: unat_of_nat_len64)
  with assms have neq: "(of_nat L :: 64 word) \<noteq> 64"
    by auto
  show ?thesis
    using neq
    by (simp add: updateDefClkVal_def un Let_def push_bit_eq_mult mask_eq_exp_minus_1)
qed

text \<open>
  C1. For every accumulator value, every just-decoded value and every length \<open>L\<close> from 1
  to 64, \<^verbatim>\<open>updateDefClkVal(L)\<close> returns the value of the specification (the new value
  itself when \<open>L = 64\<close>; otherwise the accumulator, plus \<open>mask + 1\<close> when the new value is
  below the accumulator's low \<open>L\<close> bits, with its low \<open>L\<close> bits cleared and the new value
  ORed in), and this value is stored back into \<^verbatim>\<open>defClkVal\<close>, every other field of the
  position being left as it was.
\<close>

theorem updateDefClkVal_spec:
  assumes "1 \<le> L" and "L \<le> 64"
  shows "updateDefClkVal (of_nat L) p =
           (spec_clk_update L (defClkVal p) (lastIntVal p),
            p\<lparr>defClkVal := spec_clk_update L (defClkVal p) (lastIntVal p)\<rparr>)"
proof (cases "L = 64")
  case True
  then show ?thesis
    by (simp add: updateDefClkVal_def spec_clk_update_def)
next
  case False
  with assms have lt: "L < 64" by simp
  then have un: "unat (of_nat L :: 64 word) = L"
    by (simp add: unat_of_nat_len64)
  with lt have neq: "(of_nat L :: 64 word) \<noteq> 64"
    by auto
  show ?thesis
    using False neq
    by (simp add: updateDefClkVal_def spec_clk_update_def un Let_def push_bit_eq_mult)
qed

text \<open>
  The second seed scenario: with a clock field of 16 bits, the values \<open>0xFF00\<close> and then
  \<open>0x0100\<close> give the clock values \<open>0xFF00\<close> and \<open>0x010100\<close>.
\<close>

theorem updateDefClkVal_spec_witness:
  "(1::nat) \<le> 16 \<and> (16::nat) \<le> 64
   \<and> fst (updateDefClkVal (of_nat 16) ((VmPos_init examplePktProc)\<lparr>lastIntVal := 0xFF00\<rparr>))
       = 0xFF00
   \<and> fst (updateDefClkVal (of_nat 16)
            ((VmPos_init examplePktProc)\<lparr>lastIntVal := 0x0100, defClkVal := 0xFF00\<rparr>))
       = 0x010100"
  using updateDefClkVal_spec [of 16 "(VmPos_init examplePktProc)\<lparr>lastIntVal := 0xFF00\<rparr>"]
    updateDefClkVal_spec [of 16
      "(VmPos_init examplePktProc)\<lparr>lastIntVal := 0x0100, defClkVal := 0xFF00\<rparr>"]
  by (simp add: spec_clk_update_def VmPos_init_def)

text \<open>
  C2, as the specification states it, fails: a 64-bit update overwrites the accumulator
  with a smaller value, and an update of fewer bits can wrap the 64-bit accumulator.
\<close>

theorem updateDefClkVal_monotone_counterexample:
  "\<not> defClkVal ((VmPos_init examplePktProc)\<lparr>lastIntVal := 3, defClkVal := 5\<rparr>)
       \<le> fst (updateDefClkVal 64
                ((VmPos_init examplePktProc)\<lparr>lastIntVal := 3, defClkVal := 5\<rparr>))
   \<and> \<not> defClkVal ((VmPos_init examplePktProc)\<lparr>lastIntVal := 0,
                                                   defClkVal := 0xFFFFFFFFFFFFFFFF\<rparr>)
       \<le> fst (updateDefClkVal 8
                ((VmPos_init examplePktProc)\<lparr>lastIntVal := 0,
                                                defClkVal := 0xFFFFFFFFFFFFFFFF\<rparr>))"
  by (simp add: updateDefClkVal_def VmPos_init_def)

text \<open>
  C2, amended. For a length \<open>L\<close> from 1 to 63, when the new value fits in \<open>L\<close> bits and,
  in case a wrap is detected, adding \<open>2 ^ L\<close> to the accumulator does not overflow 64
  bits, the value returned by \<^verbatim>\<open>updateDefClkVal(L)\<close> is at least the accumulator before
  the call. For \<open>L = 64\<close> the accumulator is overwritten: the returned value is at least
  the accumulator when the new value is.
\<close>

theorem updateDefClkVal_monotone:
  assumes "1 \<le> L" and "L \<le> 64"
    and "L < 64 \<Longrightarrow> lastIntVal p < 2 ^ L"
    and "L < 64 \<Longrightarrow> lastIntVal p < defClkVal p AND mask L
           \<Longrightarrow> unat (defClkVal p) + 2 ^ L < 2 ^ 64"
    and "L = 64 \<Longrightarrow> defClkVal p \<le> lastIntVal p"
  shows "defClkVal p \<le> fst (updateDefClkVal (of_nat L) p)"
proof (cases "L = 64")
  case True
  with assms(5) show ?thesis
    by (simp add: updateDefClkVal_def)
next
  case False
  with assms(2) have lt: "L < 64" by simp
  show ?thesis
  proof (cases "lastIntVal p < defClkVal p AND mask L")
    case True
    with lt assms(4) have "unat (defClkVal p) + 2 ^ L < 2 ^ 64" by simp
    with lt have "defClkVal p \<le> ((defClkVal p + (mask L + 1)) AND NOT (mask L)) OR lastIntVal p"
      by (rule clk_wrap)
    with True lt show ?thesis
      by (simp add: updateDefClkVal_fst)
  next
    case False
    from lt assms(3) have "lastIntVal p < 2 ^ L" by simp
    then have "defClkVal p \<le> (defClkVal p AND NOT (mask L)) OR lastIntVal p"
      using False by (rule clk_no_wrap)
    with False lt show ?thesis
      by (simp add: updateDefClkVal_fst)
  qed
qed

theorem updateDefClkVal_monotone_witness:
  "defClkVal ((VmPos_init examplePktProc)\<lparr>lastIntVal := 0x0100, defClkVal := 0xFF00\<rparr>)
     \<le> fst (updateDefClkVal (of_nat 16)
              ((VmPos_init examplePktProc)\<lparr>lastIntVal := 0x0100, defClkVal := 0xFF00\<rparr>))
   \<and> defClkVal ((VmPos_init examplePktProc)\<lparr>lastIntVal := 7, defClkVal := 5\<rparr>)
     \<le> fst (updateDefClkVal (of_nat 64)
              ((VmPos_init examplePktProc)\<lparr>lastIntVal := 7, defClkVal := 5\<rparr>))"
proof
  let ?p = "(VmPos_init examplePktProc)\<lparr>lastIntVal := 0x0100, defClkVal := 0xFF00\<rparr>"
  show "defClkVal ?p \<le> fst (updateDefClkVal (of_nat 16) ?p)"
    by (rule updateDefClkVal_monotone [of 16 ?p]) (simp_all add: VmPos_init_def)
next
  let ?q = "(VmPos_init examplePktProc)\<lparr>lastIntVal := 7, defClkVal := 5\<rparr>"
  show "defClkVal ?q \<le> fst (updateDefClkVal (of_nat 64) ?q)"
    by (rule updateDefClkVal_monotone [of 64 ?q]) (simp_all add: VmPos_init_def)
qed

section \<open>Requiring bits from the data source\<close>

lemma tryHaveBits_pos:
  "tryHaveBits src n vm = Ret b vm' \<Longrightarrow> pos vm' = pos vm"
  by (auto simp: tryHaveBits_def newDataBlock_def Let_def split: if_splits option.splits)

lemma tryHaveBits_Throw:
  "tryHaveBits src n vm = Throw e vm' \<Longrightarrow> e = AssertionFailed \<and> vm' = vm"
  by (auto simp: tryHaveBits_def newDataBlock_def Let_def split: if_splits option.splits)

lemma requireBits_pos:
  "requireBits src n vm = Ret u vm' \<Longrightarrow> pos vm' = pos vm"
  by (auto simp: requireBits_def dest: tryHaveBits_pos split: result.splits bool.splits)

text \<open>
  C4. \<^verbatim>\<open>_requireContentBits(n)\<close> throws \<open>CannotDecodeDataBeyondPacketContent\<close> exactly
  when \<open>n\<close> is greater than the remaining content bits (the expected content length
  minus the head offset, in 64 bits); otherwise it is \<^verbatim>\<open>_requireBits(n)\<close>, which throws
  \<open>PrematureEndOfData\<close> exactly when \<^verbatim>\<open>_tryHaveBits(n)\<close> returns false and returns when
  it returns true. Neither function changes the head offset when it returns.
\<close>

theorem requireContentBits_spec:
  "((\<exists>off need rem vm'. requireContentBits src n vm =
        Throw (CannotDecodeDataBeyondPacketContent off need rem) vm')
      \<longleftrightarrow> n > curExpectedPktContentLenBits (pos vm) - headOffsetInCurPktBits (pos vm))
   \<and> (n > curExpectedPktContentLenBits (pos vm) - headOffsetInCurPktBits (pos vm) \<longrightarrow>
        requireContentBits src n vm =
          Throw (CannotDecodeDataBeyondPacketContent (headOffsetInElemSeqBits (pos vm)) n
                   (curExpectedPktContentLenBits (pos vm) - headOffsetInCurPktBits (pos vm))) vm)
   \<and> (\<not> n > curExpectedPktContentLenBits (pos vm) - headOffsetInCurPktBits (pos vm) \<longrightarrow>
        requireContentBits src n vm = requireBits src n vm)
   \<and> ((\<exists>off need vm'. requireBits src n vm = Throw (PrematureEndOfData off need) vm')
        \<longleftrightarrow> (\<exists>vm'. tryHaveBits src n vm = Ret False vm'))
   \<and> (\<forall>vm'. tryHaveBits src n vm = Ret False vm' \<longrightarrow>
        requireBits src n vm = Throw (PrematureEndOfData (headOffsetInElemSeqBits (pos vm)) n) vm')
   \<and> (\<forall>vm'. tryHaveBits src n vm = Ret True vm' \<longrightarrow> requireBits src n vm = Ret () vm')
   \<and> (\<forall>vm'. requireBits src n vm = Ret () vm' \<longrightarrow>
        headOffsetInCurPktBits (pos vm') = headOffsetInCurPktBits (pos vm))
   \<and> (\<forall>vm'. requireContentBits src n vm = Ret () vm' \<longrightarrow>
        headOffsetInCurPktBits (pos vm') = headOffsetInCurPktBits (pos vm))"
proof (intro conjI)
  show "(\<exists>off need rem vm'. requireContentBits src n vm =
        Throw (CannotDecodeDataBeyondPacketContent off need rem) vm')
      \<longleftrightarrow> n > curExpectedPktContentLenBits (pos vm) - headOffsetInCurPktBits (pos vm)"
    by (auto simp: requireContentBits_def remContentBitsInPkt_def requireBits_def
        dest: tryHaveBits_Throw split: result.splits bool.splits)
  show "n > curExpectedPktContentLenBits (pos vm) - headOffsetInCurPktBits (pos vm) \<longrightarrow>
        requireContentBits src n vm =
          Throw (CannotDecodeDataBeyondPacketContent (headOffsetInElemSeqBits (pos vm)) n
                   (curExpectedPktContentLenBits (pos vm) - headOffsetInCurPktBits (pos vm))) vm"
    by (simp add: requireContentBits_def remContentBitsInPkt_def)
  show "\<not> n > curExpectedPktContentLenBits (pos vm) - headOffsetInCurPktBits (pos vm) \<longrightarrow>
        requireContentBits src n vm = requireBits src n vm"
    by (simp add: requireContentBits_def remContentBitsInPkt_def)
  show "(\<exists>off need vm'. requireBits src n vm = Throw (PrematureEndOfData off need) vm')
        \<longleftrightarrow> (\<exists>vm'. tryHaveBits src n vm = Ret False vm')"
    by (auto simp: requireBits_def dest: tryHaveBits_Throw split: result.splits bool.splits)
  show "\<forall>vm'. tryHaveBits src n vm = Ret False vm' \<longrightarrow>
        requireBits src n vm = Throw (PrematureEndOfData (headOffsetInElemSeqBits (pos vm)) n) vm'"
    by (auto simp: requireBits_def dest: tryHaveBits_pos)
  show "\<forall>vm'. tryHaveBits src n vm = Ret True vm' \<longrightarrow> requireBits src n vm = Ret () vm'"
    by (simp add: requireBits_def)
  show "\<forall>vm'. requireBits src n vm = Ret () vm' \<longrightarrow>
        headOffsetInCurPktBits (pos vm') = headOffsetInCurPktBits (pos vm)"
    by (auto dest: requireBits_pos)
  show "\<forall>vm'. requireContentBits src n vm = Ret () vm' \<longrightarrow>
        headOffsetInCurPktBits (pos vm') = headOffsetInCurPktBits (pos vm)"
    by (auto simp: requireContentBits_def dest: requireBits_pos split: if_splits)
qed


theorem requireContentBits_spec_witness:
  "requireContentBits (chunkSrc [[0x2A]]) 8
      ((Vm_init examplePktProc)\<lparr>pos := (VmPos_init examplePktProc)\<lparr>curExpectedPktContentLenBits := 4\<rparr>\<rparr>)
     = Throw (CannotDecodeDataBeyondPacketContent 0 8 4)
         ((Vm_init examplePktProc)\<lparr>pos := (VmPos_init examplePktProc)\<lparr>curExpectedPktContentLenBits := 4\<rparr>\<rparr>)
   \<and> requireContentBits (chunkSrc []) 8 (Vm_init examplePktProc)
     = requireBits (chunkSrc []) 8 (Vm_init examplePktProc)
   \<and> requireBits (chunkSrc []) 8 (Vm_init examplePktProc)
     = Throw (PrematureEndOfData 0 8) ((Vm_init examplePktProc)\<lparr>dataSrcCalls := [(0, 1)]\<rparr>)"
proof (intro conjI)
  let ?vm = "(Vm_init examplePktProc)\<lparr>pos := (VmPos_init examplePktProc)\<lparr>curExpectedPktContentLenBits := 4\<rparr>\<rparr>"
  note a = requireContentBits_spec [of "chunkSrc [[0x2A]]" 8 ?vm]
  have "8 > curExpectedPktContentLenBits (pos ?vm) - headOffsetInCurPktBits (pos ?vm)"
    by (simp add: Vm_init_def VmPos_init_def)
  with a [THEN conjunct2, THEN conjunct1]
  have "requireContentBits (chunkSrc [[0x2A]]) 8 ?vm =
          Throw (CannotDecodeDataBeyondPacketContent (headOffsetInElemSeqBits (pos ?vm)) 8
                   (curExpectedPktContentLenBits (pos ?vm) - headOffsetInCurPktBits (pos ?vm))) ?vm"
    by blast
  then show "requireContentBits (chunkSrc [[0x2A]]) 8 ?vm =
               Throw (CannotDecodeDataBeyondPacketContent 0 8 4) ?vm"
    by (simp add: Vm_init_def VmPos_init_def headOffsetInElemSeqBits_def)
next
  let ?vm = "Vm_init examplePktProc"
  note b = requireContentBits_spec [of "chunkSrc []" 8 ?vm]
  have "\<not> 8 > curExpectedPktContentLenBits (pos ?vm) - headOffsetInCurPktBits (pos ?vm)"
    by (simp add: Vm_init_def VmPos_init_def SIZE_UNSET_def)
  with b [THEN conjunct2, THEN conjunct2, THEN conjunct1]
  show "requireContentBits (chunkSrc []) 8 ?vm = requireBits (chunkSrc []) 8 ?vm"
    by blast
next
  let ?vm = "Vm_init examplePktProc"
  note b = requireContentBits_spec [of "chunkSrc []" 8 ?vm]
  have "tryHaveBits (chunkSrc []) 8 ?vm = Ret False (?vm\<lparr>dataSrcCalls := [(0, 1)]\<rparr>)"
    by (simp add: tryHaveBits_def newDataBlock_def Vm_init_def VmPos_init_def chunkSrc_def
        remBitsInBuf_def Let_def)
  with b [THEN conjunct2, THEN conjunct2, THEN conjunct2, THEN conjunct2, THEN conjunct1]
  have "requireBits (chunkSrc []) 8 ?vm =
          Throw (PrematureEndOfData (headOffsetInElemSeqBits (pos ?vm)) 8)
            (?vm\<lparr>dataSrcCalls := [(0, 1)]\<rparr>)"
    by blast
  then show "requireBits (chunkSrc []) 8 ?vm =
               Throw (PrematureEndOfData 0 8) (?vm\<lparr>dataSrcCalls := [(0, 1)]\<rparr>)"
    by (simp add: Vm_init_def VmPos_init_def headOffsetInElemSeqBits_def)
qed

lemma tryHaveBits_newDataBlock:
  assumes "n \<le> 64" and "\<not> n \<le> remBitsInBuf vm"
  shows "\<exists>b vm'. tryHaveBits src n vm = Ret b vm'
           \<and> dataSrcCalls vm' = dataSrcCalls vm @
                [(curPktOffsetInElemSeqBits (pos vm) div 8 + headOffsetInCurPktBits (pos vm) div 8,
                  of_nat ((unat n + unat (headOffsetInCurPktBits (pos vm)) mod 8 + 7) div 8))]
           \<and> (unat n + unat (headOffsetInCurPktBits (pos vm)) mod 8 + 7) div 8 \<le> 9
           \<and> (curPktOffsetInElemSeqBits (pos vm) AND 7 = 0
                \<and> unat (curPktOffsetInElemSeqBits (pos vm))
                    + unat (headOffsetInCurPktBits (pos vm)) < 2 ^ 64
               \<longrightarrow> curPktOffsetInElemSeqBits (pos vm) div 8 + headOffsetInCurPktBits (pos vm) div 8
                    = headOffsetInElemSeqBits (pos vm) div 8)"
proof -
  let ?h = "headOffsetInCurPktBits (pos vm)"
  let ?sz = "(n + 7 + (?h AND 7)) div 8"
  let ?k = "(unat n + unat ?h mod 8 + 7) div 8"
  from assms(1) have u: "unat ?sz = ?k" by (rule sizeBytes_unat)
  from assms(1) have k9: "?k \<le> 9" by (rule sizeBytes_le9)
  have "of_nat (unat ?sz) = ?sz" by simp
  with u have sz: "?sz = of_nat ?k" by simp
  from u k9 have le: "?sz \<le> 9"
    by (simp add: word_le_nat_alt)
  have "\<exists>b vm'. tryHaveBits src n vm = Ret b vm'
           \<and> dataSrcCalls vm' = dataSrcCalls vm @
                [(curPktOffsetInElemSeqBits (pos vm) div 8 + ?h div 8, of_nat ?k)]"
    using assms le
    by (auto simp: tryHaveBits_def newDataBlock_def Let_def floor_div8_neg sz [symmetric]
        split: option.splits)
  moreover have "curPktOffsetInElemSeqBits (pos vm) AND 7 = 0
                \<and> unat (curPktOffsetInElemSeqBits (pos vm)) + unat ?h < 2 ^ 64
               \<longrightarrow> curPktOffsetInElemSeqBits (pos vm) div 8 + ?h div 8
                    = headOffsetInElemSeqBits (pos vm) div 8"
    by (auto simp only: headOffsetInElemSeqBits_def intro: reqOffset_floor)
  ultimately show ?thesis
    using k9 by blast
qed

text \<open>
  C5. When at most 64 bits are requested and the window does not hold them,
  \<^verbatim>\<open>_tryHaveBits\<close> makes one call to the data source, for
  \<open>ceil((n + bitInByte) / 8)\<close> bytes, \<open>bitInByte\<close> being the head offset modulo 8, at the
  byte offset of the packet plus the whole bytes of the head offset; this size is at most
  9, and the offset is the head's offset in the element sequence in whole bytes when the
  packet starts on a byte.
\<close>

theorem tryHaveBits_request:
  assumes "n \<le> 64" and "\<not> n \<le> remBitsInBuf vm"
  shows "\<exists>b vm'. tryHaveBits src n vm = Ret b vm'
           \<and> dataSrcCalls vm' = dataSrcCalls vm @
                [(curPktOffsetInElemSeqBits (pos vm) div 8 + headOffsetInCurPktBits (pos vm) div 8,
                  of_nat ((unat n + unat (headOffsetInCurPktBits (pos vm)) mod 8 + 7) div 8))]
           \<and> (unat n + unat (headOffsetInCurPktBits (pos vm)) mod 8 + 7) div 8 \<le> 9
           \<and> (curPktOffsetInElemSeqBits (pos vm) AND 7 = 0
                \<and> unat (curPktOffsetInElemSeqBits (pos vm))
                    + unat (headOffsetInCurPktBits (pos vm)) < 2 ^ 64
               \<longrightarrow> curPktOffsetInElemSeqBits (pos vm) div 8 + headOffsetInCurPktBits (pos vm) div 8
                    = headOffsetInElemSeqBits (pos vm) div 8)"
  using assms by (rule tryHaveBits_newDataBlock)

theorem tryHaveBits_request_witness:
  "(64 :: 64 word) \<le> 64
   \<and> \<not> 64 \<le> remBitsInBuf (resetBuffer ((Vm_init examplePktProc)\<lparr>pos := (VmPos_init examplePktProc)\<lparr>headOffsetInCurPktBits := 13\<rparr>\<rparr>))
   \<and> (\<exists>b vm'. tryHaveBits (chunkSrc [[1, 2, 3, 4, 5, 6, 7, 8, 9, 10]]) 64
          (resetBuffer ((Vm_init examplePktProc)\<lparr>pos := (VmPos_init examplePktProc)\<lparr>headOffsetInCurPktBits := 13\<rparr>\<rparr>)) = Ret b vm'
        \<and> dataSrcCalls vm' = [(1, 9)])"
proof -
  let ?vm = "resetBuffer ((Vm_init examplePktProc)\<lparr>pos := (VmPos_init examplePktProc)\<lparr>headOffsetInCurPktBits := 13\<rparr>\<rparr>)"
  have h1: "(64 :: 64 word) \<le> 64" by simp
  have h2: "\<not> 64 \<le> remBitsInBuf ?vm"
    by (simp add: Vm_init_def VmPos_init_def remBitsInBuf_def resetBuffer_def)
  from tryHaveBits_request [OF h1 h2, of "chunkSrc [[1, 2, 3, 4, 5, 6, 7, 8, 9, 10]]"]
  obtain b vm' where r: "tryHaveBits (chunkSrc [[1, 2, 3, 4, 5, 6, 7, 8, 9, 10]]) 64 ?vm = Ret b vm'"
    and c: "dataSrcCalls vm' = dataSrcCalls ?vm @
                [(curPktOffsetInElemSeqBits (pos ?vm) div 8 + headOffsetInCurPktBits (pos ?vm) div 8,
                  of_nat ((unat (64 :: 64 word) + unat (headOffsetInCurPktBits (pos ?vm)) mod 8 + 7) div 8))]"
    by blast
  from c have "dataSrcCalls vm' = [(1, 9)]"
    by (simp add: Vm_init_def VmPos_init_def resetBuffer_def)
  with r h1 h2 show ?thesis by blast
qed

section \<open>Alignment\<close>

lemma requireContentBits_pos:
  "requireContentBits src n vm = Ret u vm' \<Longrightarrow> pos vm' = pos vm"
  by (auto simp: requireContentBits_def dest: requireBits_pos split: if_splits)

lemma consumeExistingBits_Ret:
  "consumeExistingBits b vm = Ret u vm' \<Longrightarrow>
     vm' = vm\<lparr>pos := (pos vm)\<lparr>headOffsetInCurPktBits := headOffsetInCurPktBits (pos vm) + b\<rparr>\<rparr>"
  by (auto simp: consumeExistingBits_def split: if_splits)

lemma skip_partial:
  assumes "continueSkipPaddingBits src c vm = Some r"
  shows "\<forall>u vm'. r = Ret u vm' \<longrightarrow>
           pos vm' = (pos vm)\<lparr>headOffsetInCurPktBits :=
                                 headOffsetInCurPktBits (pos vm) + remBitsToSkip (pos vm),
                               remBitsToSkip := 0,
                               theState := postSkipBitsState (pos vm)\<rparr>"
proof (rule continueSkipPaddingBits.raw_induct
    [where P = "\<lambda>src c vm r. \<forall>u vm'. r = Ret u vm' \<longrightarrow>
           pos vm' = (pos vm)\<lparr>headOffsetInCurPktBits :=
                                 headOffsetInCurPktBits (pos vm) + remBitsToSkip (pos vm),
                               remBitsToSkip := 0,
                               theState := postSkipBitsState (pos vm)\<rparr>", OF _ assms])
  fix f :: "DataSource \<Rightarrow> bool \<Rightarrow> Vm \<Rightarrow> unit result option"
  fix src c vm r
  assume IH: "\<And>src c vm r. f src c vm = Some r \<Longrightarrow> \<forall>u vm'. r = Ret u vm' \<longrightarrow>
           pos vm' = (pos vm)\<lparr>headOffsetInCurPktBits :=
                                 headOffsetInCurPktBits (pos vm) + remBitsToSkip (pos vm),
                               remBitsToSkip := 0,
                               theState := postSkipBitsState (pos vm)\<rparr>"
  assume eq: "(if 0 < remBitsToSkip (pos vm)
      then case if c then requireContentBits src 1 vm else requireBits src 1 vm of
           Ret x vm1 \<Rightarrow>
             let bitsToSkip = min (remBitsToSkip (pos vm1)) (remBitsInBuf vm1);
                 vm2 = vm1\<lparr>pos := (pos vm1)\<lparr>remBitsToSkip :=
                            remBitsToSkip (pos vm1) - bitsToSkip\<rparr>\<rparr>
             in case consumeExistingBits bitsToSkip vm2 of
                Ret x vm3 \<Rightarrow> f src c vm3
                | Throw e vm' \<Rightarrow> Some (Throw e vm')
           | Throw e vm' \<Rightarrow> Some (Throw e vm')
      else Some (Ret () (state_upd (postSkipBitsState (pos vm)) vm))) = Some r"
  show "\<forall>u vm'. r = Ret u vm' \<longrightarrow>
           pos vm' = (pos vm)\<lparr>headOffsetInCurPktBits :=
                                 headOffsetInCurPktBits (pos vm) + remBitsToSkip (pos vm),
                               remBitsToSkip := 0,
                               theState := postSkipBitsState (pos vm)\<rparr>"
  proof (cases "0 < remBitsToSkip (pos vm)")
    case False
    then have z: "remBitsToSkip (pos vm) = 0"
      by (simp add: word_gt_0)
    from eq False have "r = Ret () (state_upd (postSkipBitsState (pos vm)) vm)"
      by simp
    then show ?thesis
      using z by (auto simp: state_upd_def)
  next
    case True
    let ?req = "if c then requireContentBits src 1 vm else requireBits src 1 vm"
    show ?thesis
    proof (cases ?req)
      case (Throw e vm1)
      with eq True show ?thesis by (auto split: if_splits)
    next
      case (Ret x vm1)
      then have p1: "pos vm1 = pos vm"
        by (auto dest: requireBits_pos requireContentBits_pos split: if_splits)
      let ?b = "min (remBitsToSkip (pos vm1)) (remBitsInBuf vm1)"
      let ?vm2 = "vm1\<lparr>pos := (pos vm1)\<lparr>remBitsToSkip := remBitsToSkip (pos vm1) - ?b\<rparr>\<rparr>"
      show ?thesis
      proof (cases "consumeExistingBits ?b ?vm2")
        case (Throw e vm3)
        with eq True \<open>?req = Ret x vm1\<close> show ?thesis by (auto simp: Let_def split: if_splits)
      next
        case (Ret y vm3)
        note c3 = consumeExistingBits_Ret [OF Ret]
        from eq True \<open>?req = Ret x vm1\<close> Ret have "f src c vm3 = Some r"
          by (auto simp: Let_def split: if_splits)
        from IH [OF this] show ?thesis
          by (auto simp: c3 p1)
      qed
    qed
  qed
qed


lemma div8_mult8: "(c :: 64 word) AND 7 = 0 \<Longrightarrow> c div 8 * 8 = c"
proof -
  assume "c AND 7 = 0"
  then have m: "unat c mod 8 = 0"
    using unat_and7 [of c] by simp
  have e: "unat (8 :: 64 word) = 8" by simp
  have "unat (c div 8 * 8) = (unat c div 8 * 8) mod 2 ^ 64"
    using unat_word_ariths(2) [of "c div 8" 8] by (simp add: unat_div)
  also have "unat c div 8 * 8 = unat c"
    using m by (simp add: mod_0_imp_dvd)
  also have "unat c mod 2 ^ 64 = unat c"
    using unsigned_less [of c, where 'a = nat] by simp
  finally show ?thesis
    by (simp only: word_unat_eq_iff)
qed

lemma floor8_and7: "((h :: 64 word) AND NOT 7) AND 7 = 0"
  by (rule bit_eqI) (auto simp: bit_simps)

lemma unat_rem_after_block:
  fixes c h :: "64 word"
  assumes "c AND 7 = 0" and "0 < n" and "n < 2 ^ 61"
  shows "unat (((c div 8 + (h AND NOT 7) div 8) * 8 - c) + of_nat n * 8 - h) = n * 8 - unat h mod 8"
proof -
  have "(c div 8 + (h AND NOT 7) div 8) * 8 = c div 8 * 8 + (h AND NOT 7) div 8 * 8"
    by (simp add: algebra_simps)
  also have "\<dots> = c + (h AND NOT 7)"
    using assms(1) floor8_and7 [of h] by (simp only: div8_mult8)
  finally have "((c div 8 + (h AND NOT 7) div 8) * 8 - c) + of_nat n * 8 - h
                  = of_nat n * 8 - (h AND 7)"
    by (simp add: seven_mask and_not_mask_eq_diff)
  then have e: "unat (((c div 8 + (h AND NOT 7) div 8) * 8 - c) + of_nat n * 8 - h)
                  = unat (of_nat n * 8 - (h AND 7))"
    by (simp only:)
  have u: "unat (of_nat n * 8 :: 64 word) = n * 8"
  proof -
    have "(of_nat n * 8 :: 64 word) = of_nat (n * 8)" by simp
    moreover from assms(3) have "n * 8 < 2 ^ 64" by simp
    ultimately show ?thesis
      by (simp only: unat_of_nat) simp
  qed
  have "(h AND 7) \<le> of_nat n * 8"
    using assms(2) u unat_and7 [of h] by (simp add: word_le_nat_alt)
  then have "unat (of_nat n * 8 - (h AND 7)) = unat (of_nat n * 8 :: 64 word) - unat (h AND 7)"
    by (rule unat_sub)
  with e u show ?thesis
    by (simp only: unat_and7)
qed

lemma tryHaveBits_Ret_ex:
  assumes "n \<le> 64"
  shows "\<exists>b vm'. tryHaveBits src n vm = Ret b vm'"
proof (cases "n \<le> remBitsInBuf vm")
  case True
  with assms show ?thesis by (auto simp: tryHaveBits_def)
next
  case False
  from tryHaveBits_newDataBlock [OF assms False] show ?thesis by blast
qed

lemma tryHaveBits1_progress:
  assumes "blocksNonEmpty src" and "curPktOffsetInElemSeqBits (pos vm) AND 7 = 0"
    and "tryHaveBits src 1 vm = Ret True vm1"
  shows "1 \<le> remBitsInBuf vm1"
proof (cases "1 \<le> remBitsInBuf vm")
  case True
  with assms(3) show ?thesis by (simp add: tryHaveBits_def)
next
  case False
  let ?off = "curPktOffsetInElemSeqBits (pos vm) div 8 + (headOffsetInCurPktBits (pos vm) AND NOT 7) div 8"
  let ?sz = "(1 + 7 + (headOffsetInCurPktBits (pos vm) AND 7)) div 8"
  from assms(3) False obtain blk where
    s: "src ?off ?sz = Some blk" and
    v: "remBitsInBuf vm1 = (?off * 8 - curPktOffsetInElemSeqBits (pos vm)) + of_nat (length blk) * 8
          - headOffsetInCurPktBits (pos vm)"
    by (auto simp: tryHaveBits_def newDataBlock_def Let_def remBitsInBuf_def
        split: if_splits option.splits)
  from assms(1) s have "0 < length blk" and "length blk < 2 ^ 61"
    unfolding blocksNonEmpty_def by blast+
  with assms(2) have "unat (remBitsInBuf vm1) = length blk * 8 - unat (headOffsetInCurPktBits (pos vm)) mod 8"
    unfolding v by (rule unat_rem_after_block)
  moreover have "unat (headOffsetInCurPktBits (pos vm)) mod 8 < 8" by simp
  ultimately have "1 \<le> unat (remBitsInBuf vm1)"
    using \<open>0 < length blk\<close> by linarith
  then show ?thesis
    by (simp add: word_le_nat_alt)
qed


lemma requireBits1_cases:
  assumes "blocksNonEmpty src" and "curPktOffsetInElemSeqBits (pos vm) AND 7 = 0"
  shows "(\<exists>off need vm1. requireBits src 1 vm = Throw (PrematureEndOfData off need) vm1)
         \<or> (\<exists>vm1. requireBits src 1 vm = Ret () vm1 \<and> pos vm1 = pos vm \<and> 1 \<le> remBitsInBuf vm1)"
proof -
  have "(1 :: 64 word) \<le> 64" by simp
  from tryHaveBits_Ret_ex [OF this] obtain b vm1 where t: "tryHaveBits src 1 vm = Ret b vm1"
    by blast
  show ?thesis
  proof (cases b)
    case True
    with t assms have "1 \<le> remBitsInBuf vm1"
      by (auto intro: tryHaveBits1_progress)
    moreover from t have "pos vm1 = pos vm" by (rule tryHaveBits_pos)
    ultimately show ?thesis
      using t True by (simp add: requireBits_def)
  next
    case False
    with t show ?thesis by (simp add: requireBits_def)
  qed
qed

lemma skip_total:
  assumes ok: "blocksNonEmpty src"
  shows "curPktOffsetInElemSeqBits (pos vm) AND 7 = 0 \<Longrightarrow>
         (c \<longrightarrow> remBitsToSkip (pos vm) \<le> remContentBitsInPkt (pos vm)) \<Longrightarrow>
         \<exists>r. continueSkipPaddingBits src c vm = Some r
              \<and> (\<forall>e vm'. r = Throw e vm' \<longrightarrow> (\<exists>off need. e = PrematureEndOfData off need))"
proof (induction "unat (remBitsToSkip (pos vm))" arbitrary: vm rule: less_induct)
  case less
  show ?case
  proof (cases "0 < remBitsToSkip (pos vm)")
    case False
    then show ?thesis
      by (subst continueSkipPaddingBits.simps) simp
  next
    case True
    then have rs1: "1 \<le> remBitsToSkip (pos vm)"
      by (simp add: word_le_nat_alt word_less_nat_alt)
    let ?req = "if c then requireContentBits src 1 vm else requireBits src 1 vm"
    have req: "?req = requireBits src 1 vm"
    proof (cases c)
      case True
      with less.prems(2) rs1 have "1 \<le> remContentBitsInPkt (pos vm)" by auto
      then show ?thesis
        by (simp add: requireContentBits_def not_less [symmetric])
    next
      case False
      then show ?thesis by simp
    qed
    from requireBits1_cases [OF ok less.prems(1)]
    show ?thesis
    proof
      assume "\<exists>off need vm1. requireBits src 1 vm = Throw (PrematureEndOfData off need) vm1"
      then obtain off need vm1 where
        "requireBits src 1 vm = Throw (PrematureEndOfData off need) vm1" by blast
      with req True show ?thesis
        by (subst continueSkipPaddingBits.simps) (simp del: if_split)
    next
      assume "\<exists>vm1. requireBits src 1 vm = Ret () vm1 \<and> pos vm1 = pos vm \<and> 1 \<le> remBitsInBuf vm1"
      then obtain vm1 where r1: "requireBits src 1 vm = Ret () vm1" and p1: "pos vm1 = pos vm"
        and b1: "1 \<le> remBitsInBuf vm1" by blast
      let ?b = "min (remBitsToSkip (pos vm1)) (remBitsInBuf vm1)"
      let ?vm2 = "vm1\<lparr>pos := (pos vm1)\<lparr>remBitsToSkip := remBitsToSkip (pos vm1) - ?b\<rparr>\<rparr>"
      let ?vm3 = "?vm2\<lparr>pos := (pos ?vm2)\<lparr>headOffsetInCurPktBits :=
                     headOffsetInCurPktBits (pos ?vm2) + ?b\<rparr>\<rparr>"
      have bpos: "1 \<le> ?b" using rs1 b1 p1 by simp
      have ble: "?b \<le> remBitsToSkip (pos vm)" using p1 by simp
      have "remBitsInBuf ?vm2 = remBitsInBuf vm1" by (simp add: remBitsInBuf_def)
      then have c3: "consumeExistingBits ?b ?vm2 = Ret () ?vm3"
        by (simp add: consumeExistingBits_def)
      have m: "unat (remBitsToSkip (pos ?vm3)) < unat (remBitsToSkip (pos vm))"
        using bpos ble p1 by (simp add: unat_sub word_le_nat_alt)
      have a1: "curPktOffsetInElemSeqBits (pos ?vm3) AND 7 = 0"
        using less.prems(1) p1 by simp
      have a2: "c \<longrightarrow> remBitsToSkip (pos ?vm3) \<le> remContentBitsInPkt (pos ?vm3)"
      proof
        assume c
        with less.prems(2) have le: "remBitsToSkip (pos vm) \<le> remContentBitsInPkt (pos vm)" by simp
        have "remContentBitsInPkt (pos ?vm3) = remContentBitsInPkt (pos vm) - ?b"
          using p1 by (simp add: remContentBitsInPkt_def)
        moreover have "remBitsToSkip (pos ?vm3) = remBitsToSkip (pos vm) - ?b"
          using p1 by simp
        moreover have "remBitsToSkip (pos vm) - ?b \<le> remContentBitsInPkt (pos vm) - ?b"
          using le ble by (simp add: word_le_nat_alt unat_sub)
        ultimately show "remBitsToSkip (pos ?vm3) \<le> remContentBitsInPkt (pos ?vm3)" by simp
      qed
      from less.hyps [OF m a1 a2]
      obtain r where "continueSkipPaddingBits src c ?vm3 = Some r"
        and "\<forall>e vm'. r = Throw e vm' \<longrightarrow> (\<exists>off need. e = PrematureEndOfData off need)"
        by blast
      with req r1 c3 True show ?thesis
        by (subst continueSkipPaddingBits.simps) (simp add: Let_def del: if_split)
    qed
  qed
qed


lemma padBits_zero_iff: "padBits k h = 0 \<longleftrightarrow> h mod 2 ^ k = 0"
proof -
  have "h mod 2 ^ k < 2 ^ k" by simp
  then show ?thesis
    unfolding padBits_def by (auto simp del: mod_less_divisor)
qed

lemma bitsToSkip_word:
  fixes h :: "64 word"
  assumes "k < 64"
  shows "((h + 2 ^ k - 1) AND (- (2 ^ k))) - h = of_nat (padBits k (unat h))"
proof -
  have "of_nat (unat (((h + 2 ^ k - 1) AND (- (2 ^ k))) - h)) = ((h + 2 ^ k - 1) AND (- (2 ^ k))) - h"
    by simp
  then show ?thesis
    by (simp only: unat_bitsToSkip [OF assms])
qed

lemma bitsToSkip_zero_iff:
  fixes h :: "64 word"
  assumes "k < 64"
  shows "((h + 2 ^ k - 1) AND (- (2 ^ k))) - h = 0 \<longleftrightarrow> unat h mod 2 ^ k = 0"
proof -
  have "((h + 2 ^ k - 1) AND (- (2 ^ k))) - h = 0
          \<longleftrightarrow> unat (((h + 2 ^ k - 1) AND (- (2 ^ k))) - h) = 0"
    by (simp add: unat_eq_0)
  then show ?thesis
    by (simp only: unat_bitsToSkip [OF assms] padBits_zero_iff)
qed

lemma requireBits1_data:
  assumes ok: "blocksNonEmpty src" and c7: "curPktOffsetInElemSeqBits (pos vm) AND 7 = 0"
    and nw: "unat (curPktOffsetInElemSeqBits (pos vm)) + unat (headOffsetInCurPktBits (pos vm)) < hi"
    and hi: "hi \<le> 2 ^ 64"
    and d: "dataAt src (unat (curPktOffsetInElemSeqBits (pos vm))
                          + unat (headOffsetInCurPktBits (pos vm))) hi"
  shows "\<exists>vm1. requireBits src 1 vm = Ret () vm1 \<and> pos vm1 = pos vm \<and> 1 \<le> remBitsInBuf vm1"
proof -
  let ?c = "curPktOffsetInElemSeqBits (pos vm)"
  let ?h = "headOffsetInCurPktBits (pos vm)"
  from requireBits1_cases [OF ok c7] show ?thesis
  proof
    assume "\<exists>off need vm1. requireBits src 1 vm = Throw (PrematureEndOfData off need) vm1"
    then obtain off need vm1 where t: "requireBits src 1 vm = Throw (PrematureEndOfData off need) vm1"
      by blast
    let ?off = "?c div 8 + (?h AND NOT 7) div 8"
    let ?sz = "(1 + 7 + (?h AND 7)) div 8"
    from t have n: "src ?off ?sz = None"
      by (auto simp: requireBits_def tryHaveBits_def newDataBlock_def Let_def
          split: result.splits bool.splits if_splits option.splits)
    from nw hi have lt: "unat ?c + unat ?h < 2 ^ 64" by simp
    have "?off = (?c + ?h) div 8"
      using reqOffset_floor [OF c7 lt] by (simp add: floor_div8 floor_div8_neg)
    moreover have "unat (?c + ?h) = unat ?c + unat ?h"
      using lt by (simp add: unat_add_lem [THEN iffD1])
    moreover have "unat (8 :: 64 word) = 8" by simp
    ultimately have u: "unat ?off = (unat ?c + unat ?h) div 8"
      by (simp only: unat_div)
    have "unat ?off * 8 \<le> unat ?c + unat ?h"
      unfolding u by simp
    with nw have "unat ?off * 8 < hi" by simp
    with d u have "src ?off ?sz \<noteq> None"
      unfolding dataAt_def by simp
    with n show ?thesis by simp
  qed
qed

lemma skip_returns:
  assumes ok: "blocksNonEmpty src"
  shows "curPktOffsetInElemSeqBits (pos vm) AND 7 = 0 \<Longrightarrow>
         (c \<longrightarrow> remBitsToSkip (pos vm) \<le> remContentBitsInPkt (pos vm)) \<Longrightarrow>
         unat (curPktOffsetInElemSeqBits (pos vm)) + unat (headOffsetInCurPktBits (pos vm))
           + unat (remBitsToSkip (pos vm)) = hi \<Longrightarrow>
         hi < 2 ^ 64 \<Longrightarrow>
         dataAt src (unat (curPktOffsetInElemSeqBits (pos vm))
                       + unat (headOffsetInCurPktBits (pos vm))) hi \<Longrightarrow>
         \<exists>vm'. continueSkipPaddingBits src c vm = Some (Ret () vm')"
proof (induction "unat (remBitsToSkip (pos vm))" arbitrary: vm rule: less_induct)
  case less
  let ?c = "curPktOffsetInElemSeqBits (pos vm)"
  let ?h = "headOffsetInCurPktBits (pos vm)"
  show ?case
  proof (cases "0 < remBitsToSkip (pos vm)")
    case False
    then show ?thesis
      by (subst continueSkipPaddingBits.simps) simp
  next
    case True
    then have rs1: "1 \<le> remBitsToSkip (pos vm)"
      by (simp add: word_le_nat_alt word_less_nat_alt)
    then have rs1': "1 \<le> unat (remBitsToSkip (pos vm))"
      by (simp add: word_le_nat_alt)
    let ?req = "if c then requireContentBits src 1 vm else requireBits src 1 vm"
    have req: "?req = requireBits src 1 vm"
    proof (cases c)
      case True
      with less.prems(2) rs1 have "1 \<le> remContentBitsInPkt (pos vm)" by auto
      then show ?thesis
        by (simp add: requireContentBits_def not_less [symmetric])
    next
      case False
      then show ?thesis by simp
    qed
    from less.prems(3) rs1' have nw: "unat ?c + unat ?h < hi" by linarith
    from less.prems(4) have hi: "hi \<le> 2 ^ 64" by simp
    from requireBits1_data [OF ok less.prems(1) nw hi less.prems(5)]
    obtain vm1 where r1: "requireBits src 1 vm = Ret () vm1" and p1: "pos vm1 = pos vm"
      and b1: "1 \<le> remBitsInBuf vm1" by blast
    let ?b = "min (remBitsToSkip (pos vm1)) (remBitsInBuf vm1)"
    let ?vm2 = "vm1\<lparr>pos := (pos vm1)\<lparr>remBitsToSkip := remBitsToSkip (pos vm1) - ?b\<rparr>\<rparr>"
    let ?vm3 = "?vm2\<lparr>pos := (pos ?vm2)\<lparr>headOffsetInCurPktBits :=
                   headOffsetInCurPktBits (pos ?vm2) + ?b\<rparr>\<rparr>"
    have bpos: "1 \<le> ?b" using rs1 b1 p1 by simp
    have ble: "?b \<le> remBitsToSkip (pos vm)" using p1 by simp
    then have ble': "unat ?b \<le> unat (remBitsToSkip (pos vm))"
      by (simp add: word_le_nat_alt)
    have "remBitsInBuf ?vm2 = remBitsInBuf vm1" by (simp add: remBitsInBuf_def)
    then have c3: "consumeExistingBits ?b ?vm2 = Ret () ?vm3"
      by (simp add: consumeExistingBits_def)
    have ur: "unat (remBitsToSkip (pos ?vm3)) = unat (remBitsToSkip (pos vm)) - unat ?b"
      using ble p1 by (simp add: unat_sub)
    have m: "unat (remBitsToSkip (pos ?vm3)) < unat (remBitsToSkip (pos vm))"
      using bpos ble p1 by (simp add: unat_sub word_le_nat_alt)
    have a1: "curPktOffsetInElemSeqBits (pos ?vm3) AND 7 = 0"
      using less.prems(1) p1 by simp
    have a2: "c \<longrightarrow> remBitsToSkip (pos ?vm3) \<le> remContentBitsInPkt (pos ?vm3)"
    proof
      assume c
      with less.prems(2) have le: "remBitsToSkip (pos vm) \<le> remContentBitsInPkt (pos vm)" by simp
      have "remContentBitsInPkt (pos ?vm3) = remContentBitsInPkt (pos vm) - ?b"
        using p1 by (simp add: remContentBitsInPkt_def)
      moreover have "remBitsToSkip (pos ?vm3) = remBitsToSkip (pos vm) - ?b"
        using p1 by simp
      moreover have "remBitsToSkip (pos vm) - ?b \<le> remContentBitsInPkt (pos vm) - ?b"
        using le ble by (simp add: word_le_nat_alt unat_sub)
      ultimately show "remBitsToSkip (pos ?vm3) \<le> remContentBitsInPkt (pos ?vm3)" by simp
    qed
    from less.prems(3,4) ble' have "unat ?h + unat ?b < 2 ^ 64" by linarith
    then have uh: "unat (headOffsetInCurPktBits (pos ?vm3)) = unat ?h + unat ?b"
      using p1 by (simp add: unat_add_lem [THEN iffD1])
    have a3: "unat (curPktOffsetInElemSeqBits (pos ?vm3))
                + unat (headOffsetInCurPktBits (pos ?vm3)) + unat (remBitsToSkip (pos ?vm3)) = hi"
      using less.prems(3) ble' p1 unfolding uh ur by simp
    have a5: "dataAt src (unat (curPktOffsetInElemSeqBits (pos ?vm3))
                       + unat (headOffsetInCurPktBits (pos ?vm3))) hi"
    proof -
      have "(unat ?c + unat ?h) div 8 \<le> (unat ?c + (unat ?h + unat ?b)) div 8"
        by (rule div_le_mono) simp
      with less.prems(5) show ?thesis
        unfolding dataAt_def uh using p1 by (auto simp: le_trans)
    qed
    from less.hyps [OF m a1 a2 a3 less.prems(4) a5]
    obtain vm' where "continueSkipPaddingBits src c ?vm3 = Some (Ret () vm')"
      by blast
    with req r1 c3 True show ?thesis
      by (subst continueSkipPaddingBits.simps) (simp add: Let_def del: if_split)
  qed
qed

text \<open>
  C8. For an alignment \<open>A = 2 ^ k\<close> and any head offset, \<^verbatim>\<open>_alignHead\<close> does nothing when
  the head is a multiple of \<open>A\<close>; otherwise, when the padding bits to skip are more than
  the remaining content bits, it throws \<open>CannotDecodeDataBeyondPacketContent\<close>; and
  whenever it returns, the head offset is \<open>ceil(head / A) * A\<close> (in 64 bits) and the
  state is the one before the call. With a data source whose blocks are not empty and a
  packet which starts on a byte, the skip ends: \<^verbatim>\<open>_alignHead\<close> returns or throws, and
  the only errors are the one above and \<open>PrematureEndOfData\<close>. And it does return, with
  the head at \<open>ceil(head / A) * A\<close>, however many blocks the skip goes through, when the
  padding bits fit the content, the new head is below \<open>2 ^ 64\<close> and the data source has
  a block for each byte of the padding.
\<close>

theorem alignHead_spec:
  assumes "k < 64"
  shows
    "(unat (headOffsetInCurPktBits (pos vm)) mod 2 ^ k = 0 \<longrightarrow>
        alignHead src (2 ^ k) vm = Some (Ret () vm))
     \<and> (unat (headOffsetInCurPktBits (pos vm)) mod 2 ^ k \<noteq> 0
          \<and> of_nat (padBits k (unat (headOffsetInCurPktBits (pos vm)))) > remContentBitsInPkt (pos vm) \<longrightarrow>
        alignHead src (2 ^ k) vm =
          Some (Throw (CannotDecodeDataBeyondPacketContent (headOffsetInElemSeqBits (pos vm))
                         (of_nat (padBits k (unat (headOffsetInCurPktBits (pos vm)))))
                         (remContentBitsInPkt (pos vm))) vm))
     \<and> (\<forall>u vm'. alignHead src (2 ^ k) vm = Some (Ret u vm') \<longrightarrow>
          unat (headOffsetInCurPktBits (pos vm')) =
            ((unat (headOffsetInCurPktBits (pos vm)) + 2 ^ k - 1) div 2 ^ k * 2 ^ k) mod 2 ^ 64
          \<and> theState (pos vm') = theState (pos vm))
     \<and> (blocksNonEmpty src \<and> curPktOffsetInElemSeqBits (pos vm) AND 7 = 0 \<longrightarrow>
          (\<exists>r. alignHead src (2 ^ k) vm = Some r
             \<and> (\<forall>e vm'. r = Throw e vm' \<longrightarrow>
                  (\<exists>off need rem. e = CannotDecodeDataBeyondPacketContent off need rem)
                  \<or> (\<exists>off need. e = PrematureEndOfData off need))))
     \<and> (blocksNonEmpty src \<and> curPktOffsetInElemSeqBits (pos vm) AND 7 = 0
          \<and> unat (headOffsetInCurPktBits (pos vm)) mod 2 ^ k \<noteq> 0
          \<and> \<not> of_nat (padBits k (unat (headOffsetInCurPktBits (pos vm))))
                 > remContentBitsInPkt (pos vm)
          \<and> headOffsetNat vm + padBits k (unat (headOffsetInCurPktBits (pos vm))) < 2 ^ 64
          \<and> dataAt src (headOffsetNat vm)
                (headOffsetNat vm + padBits k (unat (headOffsetInCurPktBits (pos vm)))) \<longrightarrow>
          (\<exists>vm'. alignHead src (2 ^ k) vm = Some (Ret () vm')
             \<and> unat (headOffsetInCurPktBits (pos vm')) =
                 (unat (headOffsetInCurPktBits (pos vm)) + 2 ^ k - 1) div 2 ^ k * 2 ^ k))"
proof -
  let ?h = "headOffsetInCurPktBits (pos vm)"
  let ?new = "(?h + 2 ^ k - 1) AND (- (2 ^ k))"
  let ?skip = "?new - ?h"
  let ?vm2 = "state_upd CONTINUE_SKIP_CONTENT_PADDING_BITS
                (vm\<lparr>pos := (pos vm)\<lparr>remBitsToSkip := ?skip, postSkipBitsState := theState (pos vm)\<rparr>\<rparr>)"
  note z = bitsToSkip_zero_iff [OF assms, of ?h]
  note w = bitsToSkip_word [OF assms, of ?h]
  from z have z': "?new = ?h \<longleftrightarrow> unat ?h mod 2 ^ k = 0" by simp
  have A: "unat ?h mod 2 ^ k = 0 \<longrightarrow> alignHead src (2 ^ k) vm = Some (Ret () vm)"
    using z' by (simp add: alignHead_def Let_def)
  have B: "unat ?h mod 2 ^ k \<noteq> 0 \<and> of_nat (padBits k (unat ?h)) > remContentBitsInPkt (pos vm) \<longrightarrow>
        alignHead src (2 ^ k) vm =
          Some (Throw (CannotDecodeDataBeyondPacketContent (headOffsetInElemSeqBits (pos vm))
                         (of_nat (padBits k (unat ?h))) (remContentBitsInPkt (pos vm))) vm)"
    using z' by (simp add: alignHead_def Let_def w [symmetric])
  have loop: "unat ?h mod 2 ^ k \<noteq> 0 \<Longrightarrow> \<not> ?skip > remContentBitsInPkt (pos vm) \<Longrightarrow>
        alignHead src (2 ^ k) vm = continueSkipPaddingBits src True ?vm2"
    using z' by (simp add: alignHead_def Let_def)
  have C: "\<forall>u vm'. alignHead src (2 ^ k) vm = Some (Ret u vm') \<longrightarrow>
          unat (headOffsetInCurPktBits (pos vm')) =
            ((unat ?h + 2 ^ k - 1) div 2 ^ k * 2 ^ k) mod 2 ^ 64
          \<and> theState (pos vm') = theState (pos vm)"
  proof (intro allI impI)
    fix u vm'
    assume r: "alignHead src (2 ^ k) vm = Some (Ret u vm')"
    have "headOffsetInCurPktBits (pos vm') = ?new \<and> theState (pos vm') = theState (pos vm)"
    proof (cases "unat ?h mod 2 ^ k = 0")
      case True
      with A r have "vm' = vm" by simp
      moreover from True z have "?new = ?h" by simp
      ultimately show ?thesis by simp
    next
      case False
      show ?thesis
      proof (cases "?skip > remContentBitsInPkt (pos vm)")
        case True
        with False z' r show ?thesis by (simp add: alignHead_def Let_def)
      next
        case nb: False
        from loop [OF False nb] r have "continueSkipPaddingBits src True ?vm2 = Some (Ret u vm')"
          by simp
        from skip_partial [OF this] show ?thesis
          by (simp add: state_upd_def)
      qed
    qed
    then show "unat (headOffsetInCurPktBits (pos vm')) =
            ((unat ?h + 2 ^ k - 1) div 2 ^ k * 2 ^ k) mod 2 ^ 64
          \<and> theState (pos vm') = theState (pos vm)"
      by (simp only: unat_newHead [OF assms])
  qed
  have D: "blocksNonEmpty src \<and> curPktOffsetInElemSeqBits (pos vm) AND 7 = 0 \<longrightarrow>
          (\<exists>r. alignHead src (2 ^ k) vm = Some r
             \<and> (\<forall>e vm'. r = Throw e vm' \<longrightarrow>
                  (\<exists>off need rem. e = CannotDecodeDataBeyondPacketContent off need rem)
                  \<or> (\<exists>off need. e = PrematureEndOfData off need)))"
  proof
    assume h: "blocksNonEmpty src \<and> curPktOffsetInElemSeqBits (pos vm) AND 7 = 0"
    show "\<exists>r. alignHead src (2 ^ k) vm = Some r
             \<and> (\<forall>e vm'. r = Throw e vm' \<longrightarrow>
                  (\<exists>off need rem. e = CannotDecodeDataBeyondPacketContent off need rem)
                  \<or> (\<exists>off need. e = PrematureEndOfData off need))"
    proof (cases "unat ?h mod 2 ^ k = 0")
      case True
      with A show ?thesis by simp
    next
      case False
      show ?thesis
      proof (cases "?skip > remContentBitsInPkt (pos vm)")
        case True
        with False B w show ?thesis by simp
      next
        case nb: False
        have a1: "curPktOffsetInElemSeqBits (pos ?vm2) AND 7 = 0"
          using h by (simp add: state_upd_def)
        have a2: "True \<longrightarrow> remBitsToSkip (pos ?vm2) \<le> remContentBitsInPkt (pos ?vm2)"
          using nb by (simp add: state_upd_def remContentBitsInPkt_def)
        from h have ok: "blocksNonEmpty src" by simp
        from skip_total [OF ok a1 a2] loop [OF False nb] show ?thesis
          by auto
      qed
    qed
  qed
  have E: "blocksNonEmpty src \<and> curPktOffsetInElemSeqBits (pos vm) AND 7 = 0
          \<and> unat ?h mod 2 ^ k \<noteq> 0
          \<and> \<not> of_nat (padBits k (unat ?h)) > remContentBitsInPkt (pos vm)
          \<and> headOffsetNat vm + padBits k (unat ?h) < 2 ^ 64
          \<and> dataAt src (headOffsetNat vm) (headOffsetNat vm + padBits k (unat ?h)) \<longrightarrow>
          (\<exists>vm'. alignHead src (2 ^ k) vm = Some (Ret () vm')
             \<and> unat (headOffsetInCurPktBits (pos vm')) = (unat ?h + 2 ^ k - 1) div 2 ^ k * 2 ^ k)"
  proof
    assume h: "blocksNonEmpty src \<and> curPktOffsetInElemSeqBits (pos vm) AND 7 = 0
          \<and> unat ?h mod 2 ^ k \<noteq> 0
          \<and> \<not> of_nat (padBits k (unat ?h)) > remContentBitsInPkt (pos vm)
          \<and> headOffsetNat vm + padBits k (unat ?h) < 2 ^ 64
          \<and> dataAt src (headOffsetNat vm) (headOffsetNat vm + padBits k (unat ?h))"
    then have ok: "blocksNonEmpty src" and na: "unat ?h mod 2 ^ k \<noteq> 0"
      and nb: "\<not> ?skip > remContentBitsInPkt (pos vm)"
      and hi: "headOffsetNat vm + padBits k (unat ?h) < 2 ^ 64"
      by (simp_all add: w)
    have us: "unat ?skip = padBits k (unat ?h)"
      by (rule unat_bitsToSkip [OF assms])
    have a1: "curPktOffsetInElemSeqBits (pos ?vm2) AND 7 = 0"
      using h by (simp add: state_upd_def)
    have a2: "True \<longrightarrow> remBitsToSkip (pos ?vm2) \<le> remContentBitsInPkt (pos ?vm2)"
      using nb by (simp add: state_upd_def remContentBitsInPkt_def)
    have a3: "unat (curPktOffsetInElemSeqBits (pos ?vm2)) + unat (headOffsetInCurPktBits (pos ?vm2))
                + unat (remBitsToSkip (pos ?vm2)) = headOffsetNat vm + padBits k (unat ?h)"
      by (simp add: state_upd_def us headOffsetNat_def)
    have a5: "dataAt src (unat (curPktOffsetInElemSeqBits (pos ?vm2))
                            + unat (headOffsetInCurPktBits (pos ?vm2)))
                (headOffsetNat vm + padBits k (unat ?h))"
      using h by (simp add: state_upd_def headOffsetNat_def)
    from skip_returns [OF ok a1 a2 a3 hi a5] loop [OF na nb]
    obtain vm' where r: "alignHead src (2 ^ k) vm = Some (Ret () vm')"
      by auto
    from hi have "unat ?h + padBits k (unat ?h) < 2 ^ 64"
      by (simp add: headOffsetNat_def)
    then have "((unat ?h + 2 ^ k - 1) div 2 ^ k * 2 ^ k) mod 2 ^ 64
                 = (unat ?h + 2 ^ k - 1) div 2 ^ k * 2 ^ k"
      by (simp only: padBits_ceil [symmetric] mod_less)
    with C r show "\<exists>vm'. alignHead src (2 ^ k) vm = Some (Ret () vm')
             \<and> unat (headOffsetInCurPktBits (pos vm')) = (unat ?h + 2 ^ k - 1) div 2 ^ k * 2 ^ k"
      by auto
  qed
  from A B C D E show ?thesis by blast
qed

lemma blocksNonEmpty_chunkSrc_example: "blocksNonEmpty (chunkSrc [[0, 0]])"
  by (auto simp: blocksNonEmpty_def chunkSrc_def split: if_splits)

lemma blocksNonEmpty_oneByteBlocks: "blocksNonEmpty (chunkSrc [[0], [0], [0], [0], [0]])"
  by (auto simp: blocksNonEmpty_def chunkSrc_def split: if_splits)

lemma dataAt_oneByteBlocks: "dataAt (chunkSrc [[0], [0], [0], [0], [0]]) 3 32"
  by (auto simp: dataAt_def chunkSrc_def)

lemma alignHead_example:
  "\<exists>vm'. alignHead (chunkSrc [[0, 0]]) (2 ^ 3) (exampleVmAt 3 SIZE_UNSET) = Some (Ret () vm')"
  apply (simp add: exampleVmAt_def alignHead_def Vm_init_def VmPos_init_def resetBuffer_def
      remContentBitsInPkt_def SIZE_UNSET_def Let_def state_upd_def)
  apply (subst continueSkipPaddingBits.simps)
  apply (simp add: requireContentBits_def requireBits_def tryHaveBits_def newDataBlock_def
      remContentBitsInPkt_def remBitsInBuf_def chunkSrc_def consumeExistingBits_def Let_def)
  apply (subst continueSkipPaddingBits.simps)
  apply (simp add: state_upd_def)
  done

theorem alignHead_spec_witness:
  "(3 :: nat) < 64
   \<and> alignHead (chunkSrc [[0, 0]]) (2 ^ 3) (exampleVmAt 16 SIZE_UNSET)
       = Some (Ret () (exampleVmAt 16 SIZE_UNSET))
   \<and> alignHead (chunkSrc [[0, 0]]) (2 ^ 3) (exampleVmAt 3 4)
       = Some (Throw (CannotDecodeDataBeyondPacketContent 3 5 1) (exampleVmAt 3 4))
   \<and> blocksNonEmpty (chunkSrc [[0, 0]])
   \<and> (\<exists>vm'. alignHead (chunkSrc [[0, 0]]) (2 ^ 3) (exampleVmAt 3 SIZE_UNSET) = Some (Ret () vm')
         \<and> unat (headOffsetInCurPktBits (pos vm')) = 8
         \<and> theState (pos vm') = EXEC_INSTR)
   \<and> blocksNonEmpty (chunkSrc [[0], [0], [0], [0], [0]])
   \<and> dataAt (chunkSrc [[0], [0], [0], [0], [0]]) 3 32
   \<and> (\<exists>vm'. alignHead (chunkSrc [[0], [0], [0], [0], [0]]) (2 ^ 5) (exampleVmAt 3 SIZE_UNSET)
                = Some (Ret () vm')
         \<and> unat (headOffsetInCurPktBits (pos vm')) = 32)"
proof -
  have k: "(3 :: nat) < 64" by simp
  note t = alignHead_spec [OF k, of _ "chunkSrc [[0, 0]]"]
  have h16: "headOffsetInCurPktBits (pos (exampleVmAt 16 SIZE_UNSET)) = 16"
    and h3: "headOffsetInCurPktBits (pos (exampleVmAt 3 c)) = 3"
    and st: "theState (pos (exampleVmAt 3 c)) = EXEC_INSTR" for c
    by (simp_all add: exampleVmAt_def resetBuffer_def)
  have a: "alignHead (chunkSrc [[0, 0]]) (2 ^ 3) (exampleVmAt 16 SIZE_UNSET)
             = Some (Ret () (exampleVmAt 16 SIZE_UNSET))"
    using t [of "exampleVmAt 16 SIZE_UNSET", THEN conjunct1] by (simp add: h16)
  have "alignHead (chunkSrc [[0, 0]]) (2 ^ 3) (exampleVmAt 3 4) =
          Some (Throw (CannotDecodeDataBeyondPacketContent
                         (headOffsetInElemSeqBits (pos (exampleVmAt 3 4)))
                         (of_nat (padBits 3 (unat (headOffsetInCurPktBits (pos (exampleVmAt 3 4))))))
                         (remContentBitsInPkt (pos (exampleVmAt 3 4)))) (exampleVmAt 3 4))"
    using t [of "exampleVmAt 3 4", THEN conjunct2, THEN conjunct1]
    by (simp add: h3 padBits_def) (simp add: exampleVmAt_def resetBuffer_def remContentBitsInPkt_def)
  then have b: "alignHead (chunkSrc [[0, 0]]) (2 ^ 3) (exampleVmAt 3 4)
       = Some (Throw (CannotDecodeDataBeyondPacketContent 3 5 1) (exampleVmAt 3 4))"
    by (simp add: h3 padBits_def)
      (simp add: exampleVmAt_def resetBuffer_def remContentBitsInPkt_def
        headOffsetInElemSeqBits_def Vm_init_def VmPos_init_def)
  from alignHead_example obtain vm' where
    r: "alignHead (chunkSrc [[0, 0]]) (2 ^ 3) (exampleVmAt 3 SIZE_UNSET) = Some (Ret () vm')"
    by blast
  with t [of "exampleVmAt 3 SIZE_UNSET", THEN conjunct2, THEN conjunct2, THEN conjunct1]
  have "unat (headOffsetInCurPktBits (pos vm')) = 8 \<and> theState (pos vm') = EXEC_INSTR"
    by (simp add: h3 st)
  then have c: "\<exists>vm'. alignHead (chunkSrc [[0, 0]]) (2 ^ 3) (exampleVmAt 3 SIZE_UNSET)
                       = Some (Ret () vm')
         \<and> unat (headOffsetInCurPktBits (pos vm')) = 8
         \<and> theState (pos vm') = EXEC_INSTR"
    using r by blast
  have k5: "(5 :: nat) < 64" by simp
  have p: "padBits 5 3 = 29"
    by (simp add: padBits_def)
  have e: "curPktOffsetInElemSeqBits (pos (exampleVmAt 3 SIZE_UNSET)) = 0"
    "headOffsetNat (exampleVmAt 3 SIZE_UNSET) = 3"
    "remContentBitsInPkt (pos (exampleVmAt 3 SIZE_UNSET)) = - 4"
    by (simp_all add: exampleVmAt_def resetBuffer_def Vm_init_def VmPos_init_def
        headOffsetNat_def remContentBitsInPkt_def SIZE_UNSET_def)
  from alignHead_spec [OF k5, of "exampleVmAt 3 SIZE_UNSET" "chunkSrc [[0], [0], [0], [0], [0]]",
      THEN conjunct2, THEN conjunct2, THEN conjunct2, THEN conjunct2]
    blocksNonEmpty_oneByteBlocks dataAt_oneByteBlocks
  have d: "\<exists>vm'. alignHead (chunkSrc [[0], [0], [0], [0], [0]]) (2 ^ 5) (exampleVmAt 3 SIZE_UNSET)
                = Some (Ret () vm')
         \<and> unat (headOffsetInCurPktBits (pos vm')) = 32"
    by (simp add: h3 p e)
  from k a b c d blocksNonEmpty_chunkSrc_example blocksNonEmpty_oneByteBlocks
    dataAt_oneByteBlocks show ?thesis
    by blast
qed

section \<open>Byte order changes within a byte\<close>

lemma alignHead_Ret_pos:
  assumes "alignHead src A vm = Some (Ret u vm')"
  shows "pos vm' = (pos vm)\<lparr>headOffsetInCurPktBits :=
                       (headOffsetInCurPktBits (pos vm) + A - 1) AND (- A),
                     remBitsToSkip := remBitsToSkip (pos vm'),
                     postSkipBitsState := postSkipBitsState (pos vm')\<rparr>"
proof -
  let ?h = "headOffsetInCurPktBits (pos vm)"
  let ?new = "(?h + A - 1) AND (- A)"
  let ?vm2 = "state_upd CONTINUE_SKIP_CONTENT_PADDING_BITS
                (vm\<lparr>pos := (pos vm)\<lparr>remBitsToSkip := ?new - ?h, postSkipBitsState := theState (pos vm)\<rparr>\<rparr>)"
  show ?thesis
  proof (cases "?new - ?h = 0")
    case True
    with assms have "vm' = vm" by (simp add: alignHead_def Let_def)
    moreover from True have "?new = ?h" by simp
    ultimately show ?thesis by simp
  next
    case False
    with assms have "continueSkipPaddingBits src True ?vm2 = Some (Ret u vm')"
      by (simp add: alignHead_def Let_def split: if_splits)
    from skip_partial [OF this] show ?thesis
      by (simp add: state_upd_def)
  qed
qed


lemma resVm_simps [simp]: "resVm (Ret x vm) = vm" "resVm (Throw e vm) = vm"
  by (simp_all add: resVm_def)

lemma tryHaveBits_iter: "iter (resVm (tryHaveBits src n vm)) = iter vm"
  by (simp add: tryHaveBits_def newDataBlock_def Let_def split: option.splits)

lemma requireBits_iter: "iter (resVm (requireBits src n vm)) = iter vm"
  using tryHaveBits_iter [of src n vm]
  by (auto simp: requireBits_def split: result.splits bool.splits)

lemma requireContentBits_iter: "iter (resVm (requireContentBits src n vm)) = iter vm"
  by (simp add: requireContentBits_def requireBits_iter)

lemma consumeExistingBits_iter: "iter (resVm (consumeExistingBits b vm)) = iter vm"
  by (simp add: consumeExistingBits_def)

lemma skip_iter:
  assumes "continueSkipPaddingBits src c vm = Some r"
  shows "iter (resVm r) = iter vm"
proof (rule continueSkipPaddingBits.raw_induct
    [where P = "\<lambda>src c vm r. iter (resVm r) = iter vm", OF _ assms])
  fix f :: "DataSource \<Rightarrow> bool \<Rightarrow> Vm \<Rightarrow> unit result option"
  fix src c vm r
  assume IH: "\<And>src c vm r. f src c vm = Some r \<Longrightarrow> iter (resVm r) = iter vm"
  assume eq: "(if 0 < remBitsToSkip (pos vm)
      then case if c then requireContentBits src 1 vm else requireBits src 1 vm of
           Ret x vm1 \<Rightarrow>
             let bitsToSkip = min (remBitsToSkip (pos vm1)) (remBitsInBuf vm1);
                 vm2 = vm1\<lparr>pos := (pos vm1)\<lparr>remBitsToSkip :=
                            remBitsToSkip (pos vm1) - bitsToSkip\<rparr>\<rparr>
             in case consumeExistingBits bitsToSkip vm2 of
                Ret x vm3 \<Rightarrow> f src c vm3
                | Throw e vm' \<Rightarrow> Some (Throw e vm')
           | Throw e vm' \<Rightarrow> Some (Throw e vm')
      else Some (Ret () (state_upd (postSkipBitsState (pos vm)) vm))) = Some r"
  let ?req = "if c then requireContentBits src 1 vm else requireBits src 1 vm"
  have i1: "iter (resVm ?req) = iter vm"
    by (simp add: requireBits_iter requireContentBits_iter)
  show "iter (resVm r) = iter vm"
  proof (cases "0 < remBitsToSkip (pos vm)")
    case False
    with eq show ?thesis by (auto simp: state_upd_def)
  next
    case True
    show ?thesis
    proof (cases ?req)
      case (Throw e vm1)
      with eq True i1 show ?thesis by (auto split: if_splits)
    next
      case (Ret x vm1)
      with i1 have j1: "iter vm1 = iter vm" by simp
      let ?b = "min (remBitsToSkip (pos vm1)) (remBitsInBuf vm1)"
      let ?vm2 = "vm1\<lparr>pos := (pos vm1)\<lparr>remBitsToSkip := remBitsToSkip (pos vm1) - ?b\<rparr>\<rparr>"
      have i2: "iter (resVm (consumeExistingBits ?b ?vm2)) = iter vm"
        by (simp add: consumeExistingBits_iter j1)
      show ?thesis
      proof (cases "consumeExistingBits ?b ?vm2")
        case (Throw e vm3)
        with eq True \<open>?req = Ret x vm1\<close> i2 show ?thesis
          by (auto simp: Let_def split: if_splits)
      next
        case r3: (Ret y vm3)
        from eq True \<open>?req = Ret x vm1\<close> r3 have "f src c vm3 = Some r"
          by (auto simp: Let_def split: if_splits)
        from IH [OF this] i2 r3 show ?thesis by simp
      qed
    qed
  qed
qed

lemma alignHead_iter:
  assumes "alignHead src A vm = Some r"
  shows "iter (resVm r) = iter vm"
proof -
  let ?h = "headOffsetInCurPktBits (pos vm)"
  let ?new = "(?h + A - 1) AND (- A)"
  let ?vm2 = "state_upd CONTINUE_SKIP_CONTENT_PADDING_BITS
                (vm\<lparr>pos := (pos vm)\<lparr>remBitsToSkip := ?new - ?h, postSkipBitsState := theState (pos vm)\<rparr>\<rparr>)"
  show ?thesis
  proof (cases "?new - ?h = 0 \<or> ?new - ?h > remContentBitsInPkt (pos vm)")
    case True
    with assms show ?thesis by (auto simp: alignHead_def Let_def split: if_splits)
  next
    case False
    with assms have "continueSkipPaddingBits src True ?vm2 = Some r"
      by (simp add: alignHead_def Let_def split: if_splits)
    from skip_iter [OF this] show ?thesis
      by (simp add: state_upd_def)
  qed
qed


lemma preamble_Ret_pos:
  assumes "execReadBitArrayPreamble src A len vm = Some (Ret u vm1)"
  shows "pos vm1 = (pos vm)\<lparr>headOffsetInCurPktBits :=
                       (headOffsetInCurPktBits (pos vm) + A - 1) AND (- A),
                     remBitsToSkip := remBitsToSkip (pos vm1),
                     postSkipBitsState := postSkipBitsState (pos vm1)\<rparr>"
proof -
  from assms obtain v vm0 where a: "alignHead src A vm = Some (Ret v vm0)"
    and r: "requireContentBits src len vm0 = Ret u vm1"
    by (auto simp: execReadBitArrayPreamble_def split: bind_splits result.splits)
  from r have "pos vm1 = pos vm0" by (rule requireContentBits_pos)
  with alignHead_Ret_pos [OF a] show ?thesis by simp
qed

text \<open>
  C7, as the specification states it, fails. With the head at bit 1, a recorded byte
  order and an instruction of the other byte order aligned on 2 bits, the read throws
  \<open>ByteOrderChangeWithinByte\<close> after it has skipped one padding bit: the head is at bit
  2. And a read whose byte order does not change does not succeed when the packet content
  ends before the bit array does.
\<close>

theorem readInt_counterexample:
  "headOffsetInCurPktBits (pos (lastBo_upd (Some LITTLE) (exampleVmAt 1 SIZE_UNSET))) = 1
   \<and> lastBo (pos (lastBo_upd (Some LITTLE) (exampleVmAt 1 SIZE_UNSET))) = Some LITTLE
   \<and> outcomeError (readInt exampleReaders (chunkSrc [[0xFF, 0xFF]]) 2 3 BIG
           (lastBo_upd (Some LITTLE) (exampleVmAt 1 SIZE_UNSET)))
       = Some (ByteOrderChangeWithinByte 2 LITTLE BIG)
   \<and> outcomeHead (readInt exampleReaders (chunkSrc [[0xFF, 0xFF]]) 2 3 BIG
           (lastBo_upd (Some LITTLE) (exampleVmAt 1 SIZE_UNSET)))
       = Some 2
   \<and> lastBo (pos (exampleVmAt 2 5)) = None
   \<and> outcomeError (readInt exampleReaders (chunkSrc [[0xFF, 0xFF]]) 1 8 BIG (exampleVmAt 2 5))
       = Some (CannotDecodeDataBeyondPacketContent 2 8 3)"
  by (simp add: exampleVmAt_def alignHead_def Vm_init_def VmPos_init_def resetBuffer_def
      remContentBitsInPkt_def SIZE_UNSET_def Let_def state_upd_def
      requireContentBits_def requireBits_def tryHaveBits_def newDataBlock_def
      remBitsInBuf_def chunkSrc_def consumeExistingBits_def lastBo_upd_def
      execReadBitArrayPreamble_def readInt_def headOffsetInElemSeqBits_def
      outcomeError_def outcomeVm_def outcomeHead_def continueSkipPaddingBits.simps)


text \<open>
  C7, amended. A read on the general path first aligns the head and requires the bits of
  the bit array in the packet content; an error of this preamble is the error of the
  read. After the preamble the head is at the aligned offset and the recorded byte order
  is as before. Then, if a byte order is recorded, the aligned head offset is not a
  multiple of 8 and the byte order of the instruction differs from the recorded one, the
  read throws \<open>ByteOrderChangeWithinByte\<close> with the offset of the aligned head in the
  element sequence, the recorded byte order and the new one, and leaves the VM as the
  preamble left it (the head at the aligned offset, the recorded byte order unchanged);
  otherwise it returns the value read at the aligned head and records the byte order of
  the instruction.
\<close>

theorem readInt_spec:
  "readInt funcs src align len bo vm =
     (case execReadBitArrayPreamble src align len vm of
        None \<Rightarrow> None
      | Some (Throw e vm') \<Rightarrow> Some (Throw e vm')
      | Some (Ret u vm1) \<Rightarrow>
          (if lastBo (pos vm) \<noteq> None
              \<and> ((headOffsetInCurPktBits (pos vm) + align - 1) AND (- align)) AND 7 \<noteq> 0
              \<and> bo \<noteq> the (lastBo (pos vm))
           then Some (Throw (ByteOrderChangeWithinByte
                               (curPktOffsetInElemSeqBits (pos vm)
                                  + ((headOffsetInCurPktBits (pos vm) + align - 1) AND (- align)))
                               (the (lastBo (pos vm))) bo) vm1)
           else Some (Ret (funcs ((len - 1) * 8
                                    + (((headOffsetInCurPktBits (pos vm) + align - 1) AND (- align)) AND 7))
                             (bufMem vm1) (bufAtHead vm1))
                          (vm1\<lparr>pos := (pos vm1)\<lparr>lastBo := Some bo\<rparr>\<rparr>))))
   \<and> (\<forall>u vm1. execReadBitArrayPreamble src align len vm = Some (Ret u vm1) \<longrightarrow>
         headOffsetInCurPktBits (pos vm1)
           = (headOffsetInCurPktBits (pos vm) + align - 1) AND (- align)
         \<and> lastBo (pos vm1) = lastBo (pos vm))"
proof
  show "readInt funcs src align len bo vm =
     (case execReadBitArrayPreamble src align len vm of
        None \<Rightarrow> None
      | Some (Throw e vm') \<Rightarrow> Some (Throw e vm')
      | Some (Ret u vm1) \<Rightarrow>
          (if lastBo (pos vm) \<noteq> None
              \<and> ((headOffsetInCurPktBits (pos vm) + align - 1) AND (- align)) AND 7 \<noteq> 0
              \<and> bo \<noteq> the (lastBo (pos vm))
           then Some (Throw (ByteOrderChangeWithinByte
                               (curPktOffsetInElemSeqBits (pos vm)
                                  + ((headOffsetInCurPktBits (pos vm) + align - 1) AND (- align)))
                               (the (lastBo (pos vm))) bo) vm1)
           else Some (Ret (funcs ((len - 1) * 8
                                    + (((headOffsetInCurPktBits (pos vm) + align - 1) AND (- align)) AND 7))
                             (bufMem vm1) (bufAtHead vm1))
                          (vm1\<lparr>pos := (pos vm1)\<lparr>lastBo := Some bo\<rparr>\<rparr>))))"
  proof (cases "execReadBitArrayPreamble src align len vm")
    case None
    then show ?thesis by (simp add: readInt_def)
  next
    case (Some r)
    show ?thesis
    proof (cases r)
      case (Throw e vm')
      with Some show ?thesis by (simp add: readInt_def)
    next
      case (Ret u vm1)
      with Some have p: "execReadBitArrayPreamble src align len vm = Some (Ret u vm1)" by simp
      note q = preamble_Ret_pos [OF p]
      have h: "headOffsetInCurPktBits (pos vm1)
                 = (headOffsetInCurPktBits (pos vm) + align - 1) AND (- align)"
        and l: "lastBo (pos vm1) = lastBo (pos vm)"
        and c: "curPktOffsetInElemSeqBits (pos vm1) = curPktOffsetInElemSeqBits (pos vm)"
        by (subst q, simp)+
      show ?thesis
        using p
        by (cases "lastBo (pos vm)")
          (simp_all add: readInt_def Let_def h l c headOffsetInElemSeqBits_def bufAtHead_def)
    qed
  qed
next
  show "\<forall>u vm1. execReadBitArrayPreamble src align len vm = Some (Ret u vm1) \<longrightarrow>
         headOffsetInCurPktBits (pos vm1)
           = (headOffsetInCurPktBits (pos vm) + align - 1) AND (- align)
         \<and> lastBo (pos vm1) = lastBo (pos vm)"
  proof (intro allI impI)
    fix u vm1
    assume p: "execReadBitArrayPreamble src align len vm = Some (Ret u vm1)"
    note q = preamble_Ret_pos [OF p]
    show "headOffsetInCurPktBits (pos vm1)
           = (headOffsetInCurPktBits (pos vm) + align - 1) AND (- align)
         \<and> lastBo (pos vm1) = lastBo (pos vm)"
      by (subst q, simp)+
  qed
qed


theorem readInt_spec_witness:
  "outcomeError (readInt exampleReaders (chunkSrc [[0xFF, 0xFF]]) 2 3 BIG
           (lastBo_upd (Some LITTLE) (exampleVmAt 1 SIZE_UNSET)))
       = Some (ByteOrderChangeWithinByte 2 LITTLE BIG)
   \<and> outcomeHead (readInt exampleReaders (chunkSrc [[0xFF, 0xFF]]) 2 3 BIG
           (lastBo_upd (Some LITTLE) (exampleVmAt 1 SIZE_UNSET)))
       = Some 2
   \<and> outcomeError (readInt exampleReaders (chunkSrc [[0xFF, 0xFF]]) 2 3 LITTLE
           (lastBo_upd (Some LITTLE) (exampleVmAt 1 SIZE_UNSET)))
       = None
   \<and> outcomeHead (readInt exampleReaders (chunkSrc [[0xFF, 0xFF]]) 2 3 LITTLE
           (lastBo_upd (Some LITTLE) (exampleVmAt 1 SIZE_UNSET)))
       = Some 2"
proof -
  let ?vm = "lastBo_upd (Some LITTLE) (exampleVmAt 1 SIZE_UNSET)"
  let ?src = "chunkSrc [[0xFF, 0xFF]]"
  have "\<exists>vm1. execReadBitArrayPreamble ?src 2 3 ?vm = Some (Ret () vm1)"
    by (simp add: exampleVmAt_def alignHead_def Vm_init_def VmPos_init_def resetBuffer_def
      remContentBitsInPkt_def SIZE_UNSET_def Let_def state_upd_def
      requireContentBits_def requireBits_def tryHaveBits_def newDataBlock_def
      remBitsInBuf_def chunkSrc_def consumeExistingBits_def lastBo_upd_def
      execReadBitArrayPreamble_def continueSkipPaddingBits.simps)
  then obtain vm1 where p: "execReadBitArrayPreamble ?src 2 3 ?vm = Some (Ret () vm1)"
    by blast
  have f: "headOffsetInCurPktBits (pos ?vm) = 1" "lastBo (pos ?vm) = Some LITTLE"
    "curPktOffsetInElemSeqBits (pos ?vm) = 0"
    by (simp_all add: lastBo_upd_def exampleVmAt_def resetBuffer_def Vm_init_def VmPos_init_def)
  from readInt_spec [of exampleReaders ?src 2 3 _ ?vm, THEN conjunct2] p
  have h1: "headOffsetInCurPktBits (pos vm1) = 2"
    by (simp add: f)
  from readInt_spec [of exampleReaders ?src 2 3 BIG ?vm, THEN conjunct1]
  have a: "readInt exampleReaders ?src 2 3 BIG ?vm
             = Some (Throw (ByteOrderChangeWithinByte 2 LITTLE BIG) vm1)"
    by (simp add: p f)
  from readInt_spec [of exampleReaders ?src 2 3 LITTLE ?vm, THEN conjunct1]
  have b: "\<exists>v. readInt exampleReaders ?src 2 3 LITTLE ?vm
             = Some (Ret v (vm1\<lparr>pos := (pos vm1)\<lparr>lastBo := Some LITTLE\<rparr>\<rparr>))"
    by (simp add: p f)
  from a b h1 show ?thesis
    by (auto simp: outcomeError_def outcomeHead_def outcomeVm_def)
qed

section \<open>Variants\<close>

lemma procForSelVal_find:
  "procForSelVal sg opts selVal = map_option snd (find (\<lambda>opt. contains sg (fst opt) selVal) opts)"
  by (induction opts) simp_all

text \<open>
  C9. A variant-begin instruction first aligns the head; an error of the alignment is the
  error of the handler. The selector value is the saved value at the selector position,
  read as signed or unsigned as the variant has it. When no option's range set contains
  it, the handler throws \<open>InvalidVariantSignedSelectorValue\<close> or
  \<open>InvalidVariantUnsignedSelectorValue\<close>, as the selector is signed or not, with the
  offset of the head in the element sequence and the selector value, and the stack is as
  it was. Otherwise, with the first option whose range set contains it, the handler
  emits the variant beginning element with the selector value at the head's offset, moves
  the top frame to its next instruction, pushes a frame for the procedure of this option
  and sets the state to \<open>EXEC_INSTR\<close>.
\<close>

theorem execBeginReadVar_spec:
  assumes sp: "unat selPos < length (savedVals (pos vm))" and st: "stack (pos vm) \<noteq> []"
  shows
    "(\<forall>e vm'. alignHead src align vm = Some (Throw e vm') \<longrightarrow>
        execBeginReadVar src sg dt align selPos opts vm = Some (Throw e vm'))
     \<and> (\<forall>u vm1. alignHead src align vm = Some (Ret u vm1) \<longrightarrow>
          (find (\<lambda>opt. contains sg (fst opt) (savedVals (pos vm) ! unat selPos)) opts = None \<longrightarrow>
             execBeginReadVar src sg dt align selPos opts vm =
               Some (Throw (case sg of
                              SINT \<Rightarrow> InvalidVariantSignedSelectorValue
                                        (headOffsetInElemSeqBits (pos vm1))
                                        (savedVals (pos vm) ! unat selPos)
                            | UINT \<Rightarrow> InvalidVariantUnsignedSelectorValue
                                        (headOffsetInElemSeqBits (pos vm1))
                                        (savedVals (pos vm) ! unat selPos)) vm1)
             \<and> stack (pos vm1) = stack (pos vm))
          \<and> (\<forall>opt. find (\<lambda>opt. contains sg (fst opt) (savedVals (pos vm) ! unat selPos)) opts
                      = Some opt \<longrightarrow>
               (\<exists>vm'. execBeginReadVar src sg dt align selPos opts vm = Some (Ret () vm')
                  \<and> it_curElem (iter vm') =
                      Some (case sg of SINT \<Rightarrow> E_varSSelBeginning | UINT \<Rightarrow> E_varUSelBeginning)
                  \<and> it_offset (iter vm') = headOffsetInElemSeqBits (pos vm1)
                  \<and> it_mark (iter vm') = it_mark (iter vm) + 1
                  \<and> (case sg of SINT \<Rightarrow> varSSelBeginning_selVal (elems (pos vm'))
                                | UINT \<Rightarrow> varUSelBeginning_selVal (elems (pos vm')))
                      = savedVals (pos vm) ! unat selPos
                  \<and> stack (pos vm') =
                      butlast (stack (pos vm))
                        @ [(last (stack (pos vm)))\<lparr>it := it (last (stack (pos vm))) + 1\<rparr>,
                           \<lparr>proc = snd opt, it = 0, parentState = theState (pos vm),
                            remElems = 0\<rparr>]
                  \<and> theState (pos vm') = EXEC_INSTR
                  \<and> headOffsetInCurPktBits (pos vm') = headOffsetInCurPktBits (pos vm1))))"
proof (intro conjI allI impI)
  fix e vm'
  assume "alignHead src align vm = Some (Throw e vm')"
  then show "execBeginReadVar src sg dt align selPos opts vm = Some (Throw e vm')"
    by (simp add: execBeginReadVar_def)
next
  fix u vm1
  assume a: "alignHead src align vm = Some (Ret u vm1)"
  note q = alignHead_Ret_pos [OF a]
  have sv: "savedVals (pos vm1) = savedVals (pos vm)" and sk: "stack (pos vm1) = stack (pos vm)"
    by (subst q, simp)+
  assume n: "find (\<lambda>opt. contains sg (fst opt) (savedVals (pos vm) ! unat selPos)) opts = None"
  show "execBeginReadVar src sg dt align selPos opts vm =
               Some (Throw (case sg of
                              SINT \<Rightarrow> InvalidVariantSignedSelectorValue
                                        (headOffsetInElemSeqBits (pos vm1))
                                        (savedVals (pos vm) ! unat selPos)
                            | UINT \<Rightarrow> InvalidVariantUnsignedSelectorValue
                                        (headOffsetInElemSeqBits (pos vm1))
                                        (savedVals (pos vm) ! unat selPos)) vm1)"
    using a sp n
    by (cases sg) (simp_all add: execBeginReadVar_def savedVal_def sv procForSelVal_find)
  show "stack (pos vm1) = stack (pos vm)" by (rule sk)
next
  fix u vm1 opt
  assume a: "alignHead src align vm = Some (Ret u vm1)"
  note q = alignHead_Ret_pos [OF a]
  have sv: "savedVals (pos vm1) = savedVals (pos vm)" and sk: "stack (pos vm1) = stack (pos vm)"
    and ts: "theState (pos vm1) = theState (pos vm)"
    by (subst q, simp)+
  from alignHead_iter [OF a] have it: "iter vm1 = iter vm" by simp
  assume f: "find (\<lambda>opt. contains sg (fst opt) (savedVals (pos vm) ! unat selPos)) opts = Some opt"
  show "\<exists>vm'. execBeginReadVar src sg dt align selPos opts vm = Some (Ret () vm')
                  \<and> it_curElem (iter vm') =
                      Some (case sg of SINT \<Rightarrow> E_varSSelBeginning | UINT \<Rightarrow> E_varUSelBeginning)
                  \<and> it_offset (iter vm') = headOffsetInElemSeqBits (pos vm1)
                  \<and> it_mark (iter vm') = it_mark (iter vm) + 1
                  \<and> (case sg of SINT \<Rightarrow> varSSelBeginning_selVal (elems (pos vm'))
                                | UINT \<Rightarrow> varUSelBeginning_selVal (elems (pos vm')))
                      = savedVals (pos vm) ! unat selPos
                  \<and> stack (pos vm') =
                      butlast (stack (pos vm))
                        @ [(last (stack (pos vm)))\<lparr>it := it (last (stack (pos vm))) + 1\<rparr>,
                           \<lparr>proc = snd opt, it = 0, parentState = theState (pos vm),
                            remElems = 0\<rparr>]
                  \<and> theState (pos vm') = EXEC_INSTR
                  \<and> headOffsetInCurPktBits (pos vm') = headOffsetInCurPktBits (pos vm1)"
    using a sp st f
    by (cases sg)
      (simp_all add: execBeginReadVar_def savedVal_def sv sk ts it procForSelVal_find
        gotoNextInstr_def stackPush_def updateItCurOffset_def elems_upd_def state_upd_def
        headOffsetInElemSeqBits_def Let_def)
qed


theorem execBeginReadVar_spec_witness:
  "outcomeError (execBeginReadVar (chunkSrc [[0xBE, 0xBA]]) UINT 0 1 1 exampleVarOpts exampleVarVm)
     = Some (InvalidVariantUnsignedSelectorValue 0 11)
   \<and> outcomeStack (execBeginReadVar (chunkSrc [[0xBE, 0xBA]]) UINT 0 1 1 exampleVarOpts exampleVarVm)
     = Some (stack (pos exampleVarVm))
   \<and> outcomeError (execBeginReadVar (chunkSrc [[0xBE, 0xBA]]) UINT 0 1 0 exampleVarOpts exampleVarVm)
     = None
   \<and> outcomeStack (execBeginReadVar (chunkSrc [[0xBE, 0xBA]]) UINT 0 1 0 exampleVarOpts exampleVarVm)
     = Some [\<lparr>proc = [BeginReadVarInstr UINT 0 1 0 exampleVarOpts, EndReadStructInstr],
               it = 1, parentState = EXEC_INSTR, remElems = 0\<rparr>,
             \<lparr>proc = [ReadBitArrayInstr (INT_ELEM UINT) (STD 16) 0 8 16 LITTLE, EndReadVarInstr],
               it = 0, parentState = EXEC_INSTR, remElems = 0\<rparr>]"
proof -
  let ?src = "chunkSrc [[0xBE, 0xBA]]"
  have a: "alignHead ?src 1 exampleVarVm = Some (Ret () exampleVarVm)"
    by (simp add: alignHead_def)
  have sv: "savedVals (pos exampleVarVm) = [7, 11]"
    and sk: "stack (pos exampleVarVm) =
              [\<lparr>proc = [BeginReadVarInstr UINT 0 1 0 exampleVarOpts, EndReadStructInstr],
                 it = 0, parentState = EXEC_INSTR, remElems = 0\<rparr>]"
    and ts: "theState (pos exampleVarVm) = EXEC_INSTR"
    and ho: "headOffsetInElemSeqBits (pos exampleVarVm) = 0"
    by (simp_all add: exampleVarVm_def exampleVmAt_def resetBuffer_def headOffsetInElemSeqBits_def
        Vm_init_def VmPos_init_def)
  have s1: "unat (1 :: Index) < length (savedVals (pos exampleVarVm))"
    and s0: "unat (0 :: Index) < length (savedVals (pos exampleVarVm))"
    and st: "stack (pos exampleVarVm) \<noteq> []"
    by (simp_all add: sv sk)
  have f1: "find (\<lambda>opt. contains UINT (fst opt) (savedVals (pos exampleVarVm) ! unat (1 :: Index)))
              exampleVarOpts = None"
    by (simp add: sv exampleVarOpts_def contains_def)
  have f0: "find (\<lambda>opt. contains UINT (fst opt) (savedVals (pos exampleVarVm) ! unat (0 :: Index)))
              exampleVarOpts = Some (exampleVarOpts ! 1)"
    by (simp add: sv exampleVarOpts_def contains_def)
  from execBeginReadVar_spec [OF s1 st, of ?src 1 UINT 0 exampleVarOpts, THEN conjunct2] a f1
  have e1: "execBeginReadVar ?src UINT 0 1 1 exampleVarOpts exampleVarVm =
              Some (Throw (InvalidVariantUnsignedSelectorValue 0 11) exampleVarVm)"
    by (simp add: ho sv)
  from execBeginReadVar_spec [OF s0 st, of ?src 1 UINT 0 exampleVarOpts, THEN conjunct2] a f0
  obtain vm' where e0: "execBeginReadVar ?src UINT 0 1 0 exampleVarOpts exampleVarVm = Some (Ret () vm')"
    and k0: "stack (pos vm') =
               butlast (stack (pos exampleVarVm))
                 @ [(last (stack (pos exampleVarVm)))\<lparr>it := it (last (stack (pos exampleVarVm))) + 1\<rparr>,
                    \<lparr>proc = snd (exampleVarOpts ! 1), it = 0,
                      parentState = theState (pos exampleVarVm), remElems = 0\<rparr>]"
    by blast
  from k0 have "stack (pos vm') =
      [\<lparr>proc = [BeginReadVarInstr UINT 0 1 0 exampleVarOpts, EndReadStructInstr],
               it = 1, parentState = EXEC_INSTR, remElems = 0\<rparr>,
             \<lparr>proc = [ReadBitArrayInstr (INT_ELEM UINT) (STD 16) 0 8 16 LITTLE, EndReadVarInstr],
               it = 0, parentState = EXEC_INSTR, remElems = 0\<rparr>]"
    by (simp add: sk ts) (simp add: exampleVarOpts_def)
  with e0 e1 show ?thesis
    by (simp add: outcomeError_def outcomeStack_def outcomeVm_def)
qed

section \<open>Reading a string until its null byte\<close>

lemma memchr_from_takeWhile:
  "memchr_from xs c i =
     (if c \<in> set xs then Some (i + length (takeWhile (\<lambda>b. b \<noteq> c) xs)) else None)"
  by (induction xs arbitrary: i) auto

lemma memchr_window:
  "memchr mem buf c n =
     (if c \<in> set (take n (drop (nat buf) mem))
      then Some (buf + int (length (takeWhile (\<lambda>b. b \<noteq> c) (take n (drop (nat buf) mem)))))
      else None)"
  by (simp add: memchr_def memchr_from_takeWhile)

lemma takeWhile_lt_length:
  "c \<in> set xs \<Longrightarrow> length (takeWhile (\<lambda>b. b \<noteq> c) xs) < length xs"
  by (induction xs) auto

lemma bytes_bits_le:
  fixes r :: "64 word"
  assumes "k \<le> unat (r div 8)"
  shows "(of_nat k :: 64 word) * 8 \<le> r" and "unat ((of_nat k :: 64 word) * 8) = k * 8"
proof -
  have e: "unat (r div 8) = unat r div 8"
    by (simp add: unat_div)
  have "unat r < 2 ^ 64" using unsigned_less [of r, where 'a = nat] by simp
  with assms e have b: "k * 8 \<le> unat r" and "k * 8 < 2 ^ 64" by simp_all
  have "(of_nat k :: 64 word) * 8 = of_nat (k * 8)" by simp
  with \<open>k * 8 < 2 ^ 64\<close> show u: "unat ((of_nat k :: 64 word) * 8) = k * 8"
    by (simp only: unat_of_nat) simp
  with b show "(of_nat k :: 64 word) * 8 \<le> r"
    by (simp add: word_le_nat_alt)
qed


lemma bufWindow_length:
  assumes lo: "0 \<le> bufAtHead vm1"
    and hi: "bufAtHead vm1 + uint (remBitsInBuf vm1 div 8) \<le> int (length (bufMem vm1))"
  shows "length (bufWindow vm1) = unat (remBitsInBuf vm1 div 8)"
proof -
  have "uint (remBitsInBuf vm1 div 8) = int (unat (remBitsInBuf vm1 div 8))"
    by (rule uint_nat)
  with lo hi have "nat (bufAtHead vm1) + unat (remBitsInBuf vm1 div 8) \<le> length (bufMem vm1)"
    by linarith
  then show ?thesis
    by (simp add: bufWindow_def)
qed

lemma substrUntilNull_length:
  assumes lw: "length w = n" and "1 \<le> n"
  shows "length (substrUntilNull w) \<le> n" "1 \<le> length (substrUntilNull w)"
    using assms takeWhile_lt_length [of 0 w]
    by (auto simp: substrUntilNull_def)

lemma substr_end_eq:
  assumes lw: "length (bufWindow vm1) = unat (remBitsInBuf vm1 div 8)"
  shows "(case memchr (bufMem vm1) (bufAtHead vm1) 0 (unat (remBitsInBuf vm1 div 8)) of
                    Some r \<Rightarrow> r + 1 | None \<Rightarrow> bufAtHead vm1 + uint (remBitsInBuf vm1 div 8))
                  = bufAtHead vm1 + int (length (substrUntilNull (bufWindow vm1)))"
proof -
  have "uint (remBitsInBuf vm1 div 8) = int (unat (remBitsInBuf vm1 div 8))"
    by (rule uint_nat)
  with lw show ?thesis
    by (simp add: memchr_window bufWindow_def [symmetric] substrUntilNull_def)
qed


lemma substr_found_iff:
  "memchr (bufMem vm1) (bufAtHead vm1) 0 (unat (remBitsInBuf vm1 div 8)) \<noteq> None
     \<longleftrightarrow> 0 \<in> set (bufWindow vm1)"
  by (simp add: memchr_window bufWindow_def [symmetric])

lemma memchr_bufWindow:
  "memchr (bufMem vm1) (bufAtHead vm1) 0 (unat (remBitsInBuf vm1 div 8)) =
     (if 0 \<in> set (bufWindow vm1)
      then Some (bufAtHead vm1 + int (length (takeWhile (\<lambda>b. b \<noteq> 0) (bufWindow vm1))))
      else None)"
  by (simp add: memchr_window bufWindow_def [symmetric])

lemma substr_core:
  assumes al: "headOffsetInCurPktBits (pos vm) AND 7 = 0"
    and rq: "requireContentBits src 8 vm = Ret u vm1"
    and n1: "1 \<le> remBitsInBuf vm1 div 8"
    and lo: "0 \<le> bufAtHead vm1"
    and hi: "bufAtHead vm1 + uint (remBitsInBuf vm1 div 8) \<le> int (length (bufMem vm1))"
  shows "stateReadSubstrUntilNull src vm =
     (if of_nat (length (substrUntilNull (bufWindow vm1))) * 8 > remContentBitsInPkt (pos vm)
      then Throw (CannotDecodeDataBeyondPacketContent (headOffsetInElemSeqBits (pos vm))
                    (of_nat (length (substrUntilNull (bufWindow vm1))) * 8)
                    (remContentBitsInPkt (pos vm))) vm1
      else Ret True
        (vm1\<lparr>pos := (pos vm)
               \<lparr>elems := (elems (pos vm))
                  \<lparr>substr_begin := bufAtHead vm1,
                   substr_end := bufAtHead vm1 + int (length (substrUntilNull (bufWindow vm1)))\<rparr>,
                theState := (if 0 \<in> set (bufWindow vm1) then END_STR else theState (pos vm)),
                headOffsetInCurPktBits := headOffsetInCurPktBits (pos vm)
                   + of_nat (length (substrUntilNull (bufWindow vm1))) * 8\<rparr>,
             iter := \<lparr>it_curElem = Some E_substr,
                      it_offset = headOffsetInElemSeqBits (pos vm),
                      it_mark = it_mark (iter vm) + 1\<rparr>\<rparr>))"
proof -
  let ?n = "remBitsInBuf vm1 div 8"
  let ?w = "bufWindow vm1"
  let ?sub = "substrUntilNull ?w"
  let ?len = "(of_nat (length ?sub) :: 64 word) * 8"
  from rq have p1: "pos vm1 = pos vm" by (rule requireContentBits_pos)
  from requireContentBits_iter [of src 8 vm] rq have i1: "iter vm1 = iter vm" by simp
  have lw: "length ?w = unat ?n"
    using lo hi by (rule bufWindow_length)
  have n1': "1 \<le> unat ?n" using n1 by (simp add: word_le_nat_alt)
  note ls = substrUntilNull_length [OF lw n1']
  note bb = bytes_bits_le [OF ls(1)]
  note eb = substr_end_eq [OF lw]
  have g1: "\<not> (bufAtHead vm1 < 0 \<or> int (length (bufMem vm1)) < bufAtHead vm1 + uint ?n)"
    using lo hi by linarith
  have g2: "0 < int (length ?sub)" using ls(2) by (cases ?sub) simp_all
  have d: "stateReadSubstrUntilNull src vm =
     (if ?len > remContentBitsInPkt (pos vm1)
      then Throw (CannotDecodeDataBeyondPacketContent (headOffsetInElemSeqBits (pos vm1)) ?len
                    (remContentBitsInPkt (pos vm1))) vm1
      else
        (case consumeExistingBits ?len
                (updateItCurOffset E_substr
                  ((if 0 \<in> set ?w then state_upd END_STR else (\<lambda>v. v))
                    (elems_upd (\<lambda>e. e\<lparr>substr_begin := bufAtHead vm1,
                                          substr_end := bufAtHead vm1 + int (length ?sub)\<rparr>) vm1))) of
           Throw e vm' \<Rightarrow> Throw e vm'
         | Ret _ vm4 \<Rightarrow> Ret True vm4))"
  proof (cases "0 \<in> set ?w")
    case True
    then have sl: "bufAtHead vm1 + int (length ?sub)
                     = bufAtHead vm1 + int (length (takeWhile (\<lambda>b. b \<noteq> 0) ?w)) + 1"
      by (simp add: substrUntilNull_def)
    show ?thesis
      unfolding stateReadSubstrUntilNull_def Let_def
      using al rq n1 g1 g2 True
      by (simp add: memchr_bufWindow sl [symmetric] del: of_nat_mult)
  next
    case False
    have "uint ?n = int (unat ?n)" by (rule uint_nat)
    with lw False have sl: "uint ?n = int (length ?sub)"
      by (simp add: substrUntilNull_def)
    show ?thesis
      unfolding stateReadSubstrUntilNull_def Let_def
      using al rq n1 g1 g2 False
      by (simp add: memchr_bufWindow sl del: of_nat_mult)
  qed
  have rb: "remBitsInBuf (updateItCurOffset E_substr
                  ((if 0 \<in> set ?w then state_upd END_STR else (\<lambda>v. v))
                    (elems_upd (\<lambda>e. e\<lparr>substr_begin := bufAtHead vm1,
                                          substr_end := bufAtHead vm1 + int (length ?sub)\<rparr>) vm1)))
             = remBitsInBuf vm1"
    by (simp add: remBitsInBuf_def updateItCurOffset_def state_upd_def elems_upd_def)
  show ?thesis
    unfolding d
    using bb(1)
    by (simp add: consumeExistingBits_def rb p1 del: of_nat_mult)
      (simp add: updateItCurOffset_def state_upd_def elems_upd_def p1 i1
        headOffsetInElemSeqBits_def del: of_nat_mult)
qed


lemma tryHaveBits8_whole_byte:
  assumes "blocksNonEmpty src" and "curPktOffsetInElemSeqBits (pos vm) AND 7 = 0"
    and "headOffsetInCurPktBits (pos vm) AND 7 = 0"
    and "tryHaveBits src 8 vm = Ret True vm1"
  shows "8 \<le> remBitsInBuf vm1"
proof (cases "8 \<le> remBitsInBuf vm")
  case True
  with assms(4) show ?thesis by (simp add: tryHaveBits_def)
next
  case False
  let ?off = "curPktOffsetInElemSeqBits (pos vm) div 8 + (headOffsetInCurPktBits (pos vm) AND NOT 7) div 8"
  let ?sz = "(8 + 7 + (headOffsetInCurPktBits (pos vm) AND 7)) div 8"
  from assms(4) False obtain blk where
    s: "src ?off ?sz = Some blk" and
    v: "remBitsInBuf vm1 = (?off * 8 - curPktOffsetInElemSeqBits (pos vm)) + of_nat (length blk) * 8
          - headOffsetInCurPktBits (pos vm)"
    by (auto simp: tryHaveBits_def newDataBlock_def Let_def remBitsInBuf_def
        split: if_splits option.splits)
  from assms(1) s have "0 < length blk" and "length blk < 2 ^ 61"
    unfolding blocksNonEmpty_def by blast+
  with assms(2) have "unat (remBitsInBuf vm1) = length blk * 8 - unat (headOffsetInCurPktBits (pos vm)) mod 8"
    unfolding v by (rule unat_rem_after_block)
  moreover from assms(3) have "unat (headOffsetInCurPktBits (pos vm)) mod 8 = 0"
    using unat_and7 [of "headOffsetInCurPktBits (pos vm)"] by simp
  ultimately have "8 \<le> unat (remBitsInBuf vm1)"
    using \<open>0 < length blk\<close> by linarith
  then show ?thesis
    by (simp add: word_le_nat_alt)
qed

lemma requireContentBits8_whole_byte:
  assumes "blocksNonEmpty src" and "curPktOffsetInElemSeqBits (pos vm) AND 7 = 0"
    and "headOffsetInCurPktBits (pos vm) AND 7 = 0"
    and "requireContentBits src 8 vm = Ret u vm1"
  shows "1 \<le> remBitsInBuf vm1 div 8"
proof -
  from assms(4) have "tryHaveBits src 8 vm = Ret True vm1"
    by (auto simp: requireContentBits_def requireBits_def split: if_splits result.splits bool.splits)
  with assms(1-3) have "8 \<le> remBitsInBuf vm1" by (rule tryHaveBits8_whole_byte)
  then have "8 \<le> unat (remBitsInBuf vm1)" by (simp add: word_le_nat_alt)
  then have "1 \<le> unat (remBitsInBuf vm1) div 8" by simp
  then show ?thesis by (simp add: word_le_nat_alt unat_div)
qed

text \<open>
  C6. With the head on a byte, \<^verbatim>\<open>_stateReadSubstrUntilNull\<close> first requires 8 content
  bits, whose error is its error. Then it scans the whole bytes of the window from the head
  for a zero byte. The substring runs from the head to the byte after the first zero
  byte, or to the end of the window when there is none. When its length in bits is more
  than the remaining content bits, the handler throws
  \<open>CannotDecodeDataBeyondPacketContent\<close>; otherwise it emits the substring element at
  the head's offset, sets the state to \<open>END_STR\<close> when a zero byte was found and leaves
  it otherwise, and moves the head by the length of the substring in bits. With a data
  source whose blocks are not empty and a packet which starts on a byte, the window holds
  one byte at least.
\<close>

theorem stateReadSubstrUntilNull_spec:
  assumes al: "headOffsetInCurPktBits (pos vm) AND 7 = 0"
  shows
    "(\<forall>e vm'. requireContentBits src 8 vm = Throw e vm' \<longrightarrow>
        stateReadSubstrUntilNull src vm = Throw e vm')
     \<and> (\<forall>u vm1. requireContentBits src 8 vm = Ret u vm1
            \<and> 1 \<le> remBitsInBuf vm1 div 8
            \<and> 0 \<le> bufAtHead vm1
            \<and> bufAtHead vm1 + uint (remBitsInBuf vm1 div 8) \<le> int (length (bufMem vm1)) \<longrightarrow>
          stateReadSubstrUntilNull src vm =
            (if of_nat (length (substrUntilNull (bufWindow vm1))) * 8 > remContentBitsInPkt (pos vm)
             then Throw (CannotDecodeDataBeyondPacketContent (headOffsetInElemSeqBits (pos vm))
                           (of_nat (length (substrUntilNull (bufWindow vm1))) * 8)
                           (remContentBitsInPkt (pos vm))) vm1
             else Ret True
               (vm1\<lparr>pos := (pos vm)
                      \<lparr>elems := (elems (pos vm))
                         \<lparr>substr_begin := bufAtHead vm1,
                          substr_end := bufAtHead vm1
                             + int (length (substrUntilNull (bufWindow vm1)))\<rparr>,
                       theState := (if 0 \<in> set (bufWindow vm1) then END_STR
                                    else theState (pos vm)),
                       headOffsetInCurPktBits := headOffsetInCurPktBits (pos vm)
                          + of_nat (length (substrUntilNull (bufWindow vm1))) * 8\<rparr>,
                    iter := \<lparr>it_curElem = Some E_substr,
                             it_offset = headOffsetInElemSeqBits (pos vm),
                             it_mark = it_mark (iter vm) + 1\<rparr>\<rparr>)))
     \<and> (blocksNonEmpty src \<and> curPktOffsetInElemSeqBits (pos vm) AND 7 = 0 \<longrightarrow>
          (\<forall>u vm1. requireContentBits src 8 vm = Ret u vm1 \<longrightarrow> 1 \<le> remBitsInBuf vm1 div 8))"
proof (intro conjI allI impI)
  fix e vm'
  assume "requireContentBits src 8 vm = Throw e vm'"
  with al show "stateReadSubstrUntilNull src vm = Throw e vm'"
    by (simp add: stateReadSubstrUntilNull_def)
next
  fix u vm1
  assume h: "requireContentBits src 8 vm = Ret u vm1
            \<and> 1 \<le> remBitsInBuf vm1 div 8
            \<and> 0 \<le> bufAtHead vm1
            \<and> bufAtHead vm1 + uint (remBitsInBuf vm1 div 8) \<le> int (length (bufMem vm1))"
  then have "requireContentBits src 8 vm = Ret u vm1" "1 \<le> remBitsInBuf vm1 div 8"
    "0 \<le> bufAtHead vm1"
    "bufAtHead vm1 + uint (remBitsInBuf vm1 div 8) \<le> int (length (bufMem vm1))"
    by simp_all
  with al show "stateReadSubstrUntilNull src vm =
            (if of_nat (length (substrUntilNull (bufWindow vm1))) * 8 > remContentBitsInPkt (pos vm)
             then Throw (CannotDecodeDataBeyondPacketContent (headOffsetInElemSeqBits (pos vm))
                           (of_nat (length (substrUntilNull (bufWindow vm1))) * 8)
                           (remContentBitsInPkt (pos vm))) vm1
             else Ret True
               (vm1\<lparr>pos := (pos vm)
                      \<lparr>elems := (elems (pos vm))
                         \<lparr>substr_begin := bufAtHead vm1,
                          substr_end := bufAtHead vm1
                             + int (length (substrUntilNull (bufWindow vm1)))\<rparr>,
                       theState := (if 0 \<in> set (bufWindow vm1) then END_STR
                                    else theState (pos vm)),
                       headOffsetInCurPktBits := headOffsetInCurPktBits (pos vm)
                          + of_nat (length (substrUntilNull (bufWindow vm1))) * 8\<rparr>,
                    iter := \<lparr>it_curElem = Some E_substr,
                             it_offset = headOffsetInElemSeqBits (pos vm),
                             it_mark = it_mark (iter vm) + 1\<rparr>\<rparr>))"
    by (rule substr_core)
next
  fix u vm1
  assume "blocksNonEmpty src \<and> curPktOffsetInElemSeqBits (pos vm) AND 7 = 0"
    and "requireContentBits src 8 vm = Ret u vm1"
  with al show "1 \<le> remBitsInBuf vm1 div 8"
    by (auto intro: requireContentBits8_whole_byte)
qed

lemmas example_eval = exampleVmAt_def Vm_init_def VmPos_init_def resetBuffer_def
      remContentBitsInPkt_def SIZE_UNSET_def Let_def state_upd_def
      requireContentBits_def requireBits_def tryHaveBits_def newDataBlock_def
      remBitsInBuf_def chunkSrc_def headOffsetInElemSeqBits_def exampleStrSrc_def exampleStrVm_def

theorem stateReadSubstrUntilNull_spec_witness:
  "headOffsetInCurPktBits (pos exampleStrVm) AND 7 = 0
   \<and> substrBytes (resVm (stateReadSubstrUntilNull exampleStrSrc exampleStrVm)) = [0x68, 0x65, 0x6C]
   \<and> theState (pos (resVm (stateReadSubstrUntilNull exampleStrSrc exampleStrVm)))
       = READ_SUBSTR_UNTIL_NULL
   \<and> headOffsetInCurPktBits (pos (resVm (stateReadSubstrUntilNull exampleStrSrc exampleStrVm))) = 24
   \<and> substrBytes (resVm (stateReadSubstrUntilNull exampleStrSrc
          (resVm (stateReadSubstrUntilNull exampleStrSrc exampleStrVm)))) = [0x6C, 0x6F, 0]
   \<and> theState (pos (resVm (stateReadSubstrUntilNull exampleStrSrc
          (resVm (stateReadSubstrUntilNull exampleStrSrc exampleStrVm))))) = END_STR
   \<and> headOffsetInCurPktBits (pos (resVm (stateReadSubstrUntilNull exampleStrSrc
          (resVm (stateReadSubstrUntilNull exampleStrSrc exampleStrVm))))) = 48"
proof -
  let ?vm1 = "exampleStrVm\<lparr>bufMem := [0x68, 0x65, 0x6C], bufAddr := 0, bufLenBits := 24,
                  bufOffsetInCurPktBits := 0, dataSrcCalls := [(0, 1)]\<rparr>"
  have al: "headOffsetInCurPktBits (pos exampleStrVm) AND 7 = 0"
    by (simp add: example_eval)
  have r1: "requireContentBits exampleStrSrc 8 exampleStrVm = Ret () ?vm1"
    by (simp add: example_eval)
  have w1: "bufWindow ?vm1 = [0x68, 0x65, 0x6C]"
    by (simp add: bufWindow_def bufAtHead_def remBitsInBuf_def example_eval)
  have g1: "1 \<le> remBitsInBuf ?vm1 div 8 \<and> 0 \<le> bufAtHead ?vm1
            \<and> bufAtHead ?vm1 + uint (remBitsInBuf ?vm1 div 8) \<le> int (length (bufMem ?vm1))"
    by (simp add: bufAtHead_def remBitsInBuf_def example_eval)
  from stateReadSubstrUntilNull_spec [OF al, of exampleStrSrc, THEN conjunct2, THEN conjunct1] r1 g1
  have s1: "stateReadSubstrUntilNull exampleStrSrc exampleStrVm =
     Ret True
       (?vm1\<lparr>pos := (pos exampleStrVm)
              \<lparr>elems := (elems (pos exampleStrVm))\<lparr>substr_begin := 0, substr_end := 3\<rparr>,
               theState := READ_SUBSTR_UNTIL_NULL,
               headOffsetInCurPktBits := 24\<rparr>,
            iter := \<lparr>it_curElem = Some E_substr, it_offset = 0, it_mark = 1\<rparr>\<rparr>)"
    (is "_ = Ret True ?vm2")
    apply (simp only: w1)
    apply (simp add: substrUntilNull_def bufAtHead_def)
    apply (simp add: example_eval)
    done
  let ?vm3 = "?vm2\<lparr>bufMem := [0x6C, 0x6F, 0, 0x77, 0x6F], bufAddr := 0, bufLenBits := 40,
                  bufOffsetInCurPktBits := 24, dataSrcCalls := [(0, 1), (3, 1)]\<rparr>"
  have al2: "headOffsetInCurPktBits (pos ?vm2) AND 7 = 0"
    by simp
  have r2: "requireContentBits exampleStrSrc 8 ?vm2 = Ret () ?vm3"
    by (simp add: example_eval)
  have w2: "bufWindow ?vm3 = [0x6C, 0x6F, 0, 0x77, 0x6F]"
    by (simp add: bufWindow_def bufAtHead_def remBitsInBuf_def example_eval)
  have g2: "1 \<le> remBitsInBuf ?vm3 div 8 \<and> 0 \<le> bufAtHead ?vm3
            \<and> bufAtHead ?vm3 + uint (remBitsInBuf ?vm3 div 8) \<le> int (length (bufMem ?vm3))"
    by (simp add: bufAtHead_def remBitsInBuf_def example_eval)
  from stateReadSubstrUntilNull_spec [OF al2, of exampleStrSrc, THEN conjunct2, THEN conjunct1] r2 g2
  have s2: "stateReadSubstrUntilNull exampleStrSrc ?vm2 =
     Ret True
       (?vm3\<lparr>pos := (pos ?vm2)
              \<lparr>elems := (elems (pos ?vm2))\<lparr>substr_begin := 0, substr_end := 3\<rparr>,
               theState := END_STR,
               headOffsetInCurPktBits := 48\<rparr>,
            iter := \<lparr>it_curElem = Some E_substr, it_offset = 24, it_mark = 2\<rparr>\<rparr>)"
    apply (simp only: w2)
    apply (simp add: substrUntilNull_def bufAtHead_def)
    apply (simp add: example_eval)
    done
  show ?thesis
    by (simp add: al s1 s2 substrBytes_def)
qed

section \<open>The order of the elements\<close>

text \<open>
  Each state handler and each instruction handler keeps the invariant of a run and moves
  the head and the iterator forward only; then so does \<^verbatim>\<open>_handleState\<close>, and an advance of
  the iterator.
\<close>

lemma bufOK_remBitsInBuf:
  assumes "bufOK vm"
  shows "unat (remBitsInBuf vm)
           = unat (bufOffsetInCurPktBits vm) + unat (bufLenBits vm)
               - unat (headOffsetInCurPktBits (pos vm))"
proof -
  from assms have lt: "unat (bufOffsetInCurPktBits vm) + unat (bufLenBits vm) < 2 ^ 64"
    and le: "unat (headOffsetInCurPktBits (pos vm))
               \<le> unat (bufOffsetInCurPktBits vm) + unat (bufLenBits vm)"
    by (simp_all add: bufOK_def)
  from lt have s: "unat (bufOffsetInCurPktBits vm + bufLenBits vm)
                  = unat (bufOffsetInCurPktBits vm) + unat (bufLenBits vm)"
    by (simp add: unat_add_lem [THEN iffD1])
  with le have "headOffsetInCurPktBits (pos vm) \<le> bufOffsetInCurPktBits vm + bufLenBits vm"
    by (simp add: word_le_nat_alt)
  then have "unat (bufOffsetInCurPktBits vm + bufLenBits vm - headOffsetInCurPktBits (pos vm))
      = unat (bufOffsetInCurPktBits vm + bufLenBits vm) - unat (headOffsetInCurPktBits (pos vm))"
    by (rule unat_sub)
  with s show ?thesis by (simp add: remBitsInBuf_def)
qed

lemma newBlock_window:
  fixes c h :: "64 word"
  assumes c: "c AND 7 = 0" and lt: "unat c + unat h < 2 ^ 64"
    and n: "0 < n" and r: "(unat (c div 8 + (h AND NOT 7) div 8) + n) * 8 < 2 ^ 64"
  shows "((c div 8 + (h AND NOT 7) div 8) * 8 - c) AND 7 = 0"
    and "unat ((c div 8 + (h AND NOT 7) div 8) * 8 - c) \<le> unat h"
    and "unat h \<le> unat ((c div 8 + (h AND NOT 7) div 8) * 8 - c) + unat (of_nat n * 8 :: 64 word)"
    and "unat c + unat ((c div 8 + (h AND NOT 7) div 8) * 8 - c) + unat (of_nat n * 8 :: 64 word) < 2 ^ 64"
proof -
  have "(c div 8 + (h AND NOT 7) div 8) * 8 = c div 8 * 8 + (h AND NOT 7) div 8 * 8"
    by (simp add: algebra_simps)
  also have "\<dots> = c + (h AND NOT 7)"
    using c floor8_and7 [of h] by (simp only: div8_mult8)
  finally have e: "(c div 8 + (h AND NOT 7) div 8) * 8 - c = h AND NOT 7"
    by simp
  have f: "unat (h AND NOT 7) = unat h - unat h mod 8"
    using unat_and_not_mask64 [of h 3] by (simp add: seven_mask)
  show "((c div 8 + (h AND NOT 7) div 8) * 8 - c) AND 7 = 0"
    unfolding e by (rule floor8_and7)
  show "unat ((c div 8 + (h AND NOT 7) div 8) * 8 - c) \<le> unat h"
    unfolding e f by simp
  have d: "c div 8 + (h AND NOT 7) div 8 = (c + h) div 8"
    using reqOffset_floor [OF c lt] by (simp add: floor_div8 floor_div8_neg)
  have s: "unat (c + h) = unat c + unat h"
    using lt by (simp add: unat_add_lem [THEN iffD1])
  have e8: "unat (8 :: 64 word) = 8" by simp
  have q: "unat (c div 8 + (h AND NOT 7) div 8) = (unat c + unat h) div 8"
    unfolding d by (simp only: unat_div s e8)
  from r have n8: "n * 8 < 2 ^ 64" by simp
  have u: "unat (of_nat n * 8 :: 64 word) = n * 8"
  proof -
    have "(of_nat n * 8 :: 64 word) = of_nat (n * 8)" by simp
    with n8 show ?thesis
      by (simp only: unat_of_nat) simp
  qed
  have "unat h mod 8 < 8" by simp
  with n show "unat h \<le> unat ((c div 8 + (h AND NOT 7) div 8) * 8 - c) + unat (of_nat n * 8 :: 64 word)"
    unfolding e f u by linarith
  from c have cm: "unat c mod 8 = 0"
    using unat_and7 [of c] by simp
  then have "(unat c + unat h) div 8 * 8 = unat c + (unat h - unat h mod 8)"
    by (metis add.commute add_diff_cancel_left' div_mult_mod_eq mod_add_left_eq add_0 minus_mod_eq_div_mult mod_mod_trivial Nat.add_diff_assoc mod_less_eq_dividend)
  with r q show "unat c + unat ((c div 8 + (h AND NOT 7) div 8) * 8 - c) + unat (of_nat n * 8 :: 64 word) < 2 ^ 64"
    unfolding e f u by (simp add: algebra_simps)
qed

lemma bufOK_cong:
  "curPktOffsetInElemSeqBits (pos vm') = curPktOffsetInElemSeqBits (pos vm)
   \<Longrightarrow> headOffsetInCurPktBits (pos vm') = headOffsetInCurPktBits (pos vm)
   \<Longrightarrow> bufOffsetInCurPktBits vm' = bufOffsetInCurPktBits vm
   \<Longrightarrow> bufLenBits vm' = bufLenBits vm
   \<Longrightarrow> bufOK vm' = bufOK vm"
  by (simp add: bufOK_def)

lemma bufOK_no_wrap:
  "bufOK vm \<Longrightarrow> headOffsetNat vm < 2 ^ 64"
  by (simp add: bufOK_def headOffsetNat_def)

lemma tryHaveBits_bufOK:
  assumes src: "blocksInRange src" and ok: "bufOK vm"
    and t: "tryHaveBits src n vm = Ret b vm'"
  shows "bufOK vm'"
proof (cases "n \<le> 64 \<and> \<not> n \<le> remBitsInBuf vm")
  case False
  with t have "vm' = vm \<or> (\<exists>e. Throw e vm = Ret b vm')"
    by (auto simp: tryHaveBits_def split: if_splits)
  with ok show ?thesis by auto
next
  case True
  let ?c = "curPktOffsetInElemSeqBits (pos vm)"
  let ?h = "headOffsetInCurPktBits (pos vm)"
  let ?off = "?c div 8 + (?h AND NOT 7) div 8"
  let ?sz = "(n + 7 + (?h AND 7)) div 8"
  from ok have c: "?c AND 7 = 0" and lt: "unat ?c + unat ?h < 2 ^ 64"
    by (simp_all add: bufOK_def)
  show ?thesis
  proof (cases "src ?off ?sz")
    case None
    with t True have "bufOffsetInCurPktBits vm' = bufOffsetInCurPktBits vm"
      "bufLenBits vm' = bufLenBits vm" "pos vm' = pos vm"
      by (auto simp: tryHaveBits_def newDataBlock_def Let_def split: if_splits)
    with ok show ?thesis by (simp add: bufOK_def)
  next
    case (Some blk)
    with t True have v: "bufOffsetInCurPktBits vm' = ?off * 8 - ?c"
      "bufLenBits vm' = of_nat (length blk) * 8" "pos vm' = pos vm"
      by (auto simp: tryHaveBits_def newDataBlock_def Let_def split: if_splits)
    from src Some have n: "0 < length blk" and r: "(unat ?off + length blk) * 8 < 2 ^ 64"
      unfolding blocksInRange_def by blast+
    from newBlock_window [OF c lt n r] c show ?thesis
      unfolding bufOK_def v by simp
  qed
qed

lemma requireBits_bufOK:
  assumes "blocksInRange src" and "bufOK vm" and "requireBits src n vm = Ret u vm'"
  shows "bufOK vm'"
  using assms
  by (auto simp: requireBits_def dest: tryHaveBits_bufOK split: result.splits bool.splits)

lemma requireContentBits_bufOK:
  assumes "blocksInRange src" and "bufOK vm" and "requireContentBits src n vm = Ret u vm'"
  shows "bufOK vm'"
  using assms
  by (auto simp: requireContentBits_def dest: requireBits_bufOK split: if_splits)

lemma consumeExistingBits_bufOK:
  assumes ok: "bufOK vm" and c: "consumeExistingBits k vm = Ret u vm'"
  shows "bufOK vm'"
    and "unat (headOffsetInCurPktBits (pos vm')) = unat (headOffsetInCurPktBits (pos vm)) + unat k"
proof -
  from c have le: "k \<le> remBitsInBuf vm"
    and v: "vm' = vm\<lparr>pos := (pos vm)\<lparr>headOffsetInCurPktBits := headOffsetInCurPktBits (pos vm) + k\<rparr>\<rparr>"
    by (auto simp: consumeExistingBits_def split: if_splits)
  from le have "unat k \<le> unat (remBitsInBuf vm)"
    by (simp add: word_le_nat_alt)
  moreover from ok have "unat (headOffsetInCurPktBits (pos vm))
                    \<le> unat (bufOffsetInCurPktBits vm) + unat (bufLenBits vm)"
    by (simp add: bufOK_def)
  ultimately have k: "unat (headOffsetInCurPktBits (pos vm)) + unat k
                    \<le> unat (bufOffsetInCurPktBits vm) + unat (bufLenBits vm)"
    using bufOK_remBitsInBuf [OF ok] by linarith
  moreover from ok have "unat (bufOffsetInCurPktBits vm) + unat (bufLenBits vm) < 2 ^ 64"
    by (simp add: bufOK_def)
  ultimately have s: "unat (headOffsetInCurPktBits (pos vm) + k)
                       = unat (headOffsetInCurPktBits (pos vm)) + unat k"
    by (simp add: unat_add_lem [THEN iffD1])
  then show "unat (headOffsetInCurPktBits (pos vm')) = unat (headOffsetInCurPktBits (pos vm)) + unat k"
    by (simp add: v)
  from ok k s show "bufOK vm'"
    by (simp add: v bufOK_def)
qed

lemma skip_bufOK:
  assumes r: "continueSkipPaddingBits src c vm = Some r"
  shows "blocksInRange src \<longrightarrow> bufOK vm \<longrightarrow> (\<forall>u vm'. r = Ret u vm' \<longrightarrow>
           bufOK vm' \<and>
           unat (headOffsetInCurPktBits (pos vm'))
             = unat (headOffsetInCurPktBits (pos vm)) + unat (remBitsToSkip (pos vm)))"
proof (rule continueSkipPaddingBits.raw_induct
    [where P = "\<lambda>src c vm r. blocksInRange src \<longrightarrow> bufOK vm \<longrightarrow> (\<forall>u vm'. r = Ret u vm' \<longrightarrow>
           bufOK vm' \<and>
           unat (headOffsetInCurPktBits (pos vm'))
             = unat (headOffsetInCurPktBits (pos vm)) + unat (remBitsToSkip (pos vm)))",
     OF _ r])
  fix f :: "DataSource \<Rightarrow> bool \<Rightarrow> Vm \<Rightarrow> unit result option"
  fix src c vm r
  assume IH: "\<And>src c vm r. f src c vm = Some r \<Longrightarrow> blocksInRange src \<longrightarrow> bufOK vm \<longrightarrow>
           (\<forall>u vm'. r = Ret u vm' \<longrightarrow> bufOK vm' \<and>
             unat (headOffsetInCurPktBits (pos vm'))
               = unat (headOffsetInCurPktBits (pos vm)) + unat (remBitsToSkip (pos vm)))"
  assume eq: "(if remBitsToSkip (pos vm) > 0 then
        (case (if c then requireContentBits src 1 vm else requireBits src 1 vm) of
           Throw e vm' \<Rightarrow> Some (Throw e vm')
         | Ret _ vm1 \<Rightarrow>
             let bitsToSkip = min (remBitsToSkip (pos vm1)) (remBitsInBuf vm1);
                 vm2 = vm1\<lparr>pos := (pos vm1)\<lparr>remBitsToSkip :=
                         remBitsToSkip (pos vm1) - bitsToSkip\<rparr>\<rparr>
             in (case consumeExistingBits bitsToSkip vm2 of
                   Throw e vm' \<Rightarrow> Some (Throw e vm')
                 | Ret _ vm3 \<Rightarrow> f src c vm3))
      else Some (Ret () (state_upd (postSkipBitsState (pos vm)) vm))) = Some r"
  show "blocksInRange src \<longrightarrow> bufOK vm \<longrightarrow> (\<forall>u vm'. r = Ret u vm' \<longrightarrow>
           bufOK vm' \<and>
           unat (headOffsetInCurPktBits (pos vm'))
             = unat (headOffsetInCurPktBits (pos vm)) + unat (remBitsToSkip (pos vm)))"
  proof (intro impI allI)
    fix u vm'
    assume src: "blocksInRange src" and ok: "bufOK vm" and ret: "r = Ret u vm'"
    show "bufOK vm' \<and>
           unat (headOffsetInCurPktBits (pos vm'))
             = unat (headOffsetInCurPktBits (pos vm)) + unat (remBitsToSkip (pos vm))"
    proof (cases "remBitsToSkip (pos vm) > 0")
      case False
      then have z: "remBitsToSkip (pos vm) = 0"
        by (simp add: word_greater_zero_iff)
      from False eq ret have "vm' = state_upd (postSkipBitsState (pos vm)) vm" by simp
      with ok z show ?thesis
        by (simp add: state_upd_def bufOK_def)
    next
      case True
      let ?req = "if c then requireContentBits src 1 vm else requireBits src 1 vm"
      from True eq ret obtain vm1 where q: "?req = Ret () vm1"
        by (auto split: result.splits if_splits)
      then have p1: "pos vm1 = pos vm"
        by (auto dest: requireContentBits_pos requireBits_pos split: if_splits)
      from q src ok have ok1: "bufOK vm1"
        by (auto dest: requireContentBits_bufOK requireBits_bufOK split: if_splits)
      let ?k = "min (remBitsToSkip (pos vm1)) (remBitsInBuf vm1)"
      let ?vm2 = "vm1\<lparr>pos := (pos vm1)\<lparr>remBitsToSkip := remBitsToSkip (pos vm1) - ?k\<rparr>\<rparr>"
      from ok1 have ok2: "bufOK ?vm2" by (simp add: bufOK_def)
      from True eq ret q obtain vm3 where
        c3: "consumeExistingBits ?k ?vm2 = Ret () vm3" and f3: "f src c vm3 = Some (Ret u vm')"
        by (auto simp: Let_def split: result.splits if_splits)
      from consumeExistingBits_bufOK [OF ok2 c3]
      have ok3: "bufOK vm3"
        and h3: "unat (headOffsetInCurPktBits (pos vm3))
                   = unat (headOffsetInCurPktBits (pos vm)) + unat ?k"
        by (simp_all add: p1)
      from consumeExistingBits_Ret [OF c3]
      have r3: "remBitsToSkip (pos vm3) = remBitsToSkip (pos vm) - ?k"
        by (simp add: p1)
      have "?k \<le> remBitsToSkip (pos vm)" by (simp add: p1)
      then have "unat (remBitsToSkip (pos vm) - ?k) = unat (remBitsToSkip (pos vm)) - unat ?k"
        and "unat ?k \<le> unat (remBitsToSkip (pos vm))"
        by (simp_all add: unat_sub word_le_nat_alt)
      with IH [OF f3, rule_format, OF src ok3 refl] h3 r3 show ?thesis
        by simp
    qed
  qed
qed

lemma alignHead_bufOK:
  assumes src: "blocksInRange src" and ok: "bufOK vm"
    and a: "alignHead src A vm = Some (Ret u vm')"
  shows "bufOK vm'"
    and "unat (headOffsetInCurPktBits (pos vm)) \<le> unat (headOffsetInCurPktBits (pos vm'))"
proof -
  let ?h = "headOffsetInCurPktBits (pos vm)"
  let ?k = "((?h + A - 1) AND (- A)) - ?h"
  have "bufOK vm' \<and> unat ?h \<le> unat (headOffsetInCurPktBits (pos vm'))"
  proof (cases "?k = 0")
    case True
    with a have "vm' = vm" by (simp add: alignHead_def Let_def)
    with ok show ?thesis by simp
  next
    case False
    let ?vm2 = "state_upd CONTINUE_SKIP_CONTENT_PADDING_BITS
                  (vm\<lparr>pos := (pos vm)\<lparr>remBitsToSkip := ?k, postSkipBitsState := theState (pos vm)\<rparr>\<rparr>)"
    from False a have "continueSkipPaddingBits src True ?vm2 = Some (Ret u vm')"
      by (simp add: alignHead_def Let_def split: if_splits)
    moreover from ok have "bufOK ?vm2" by (simp add: bufOK_def state_upd_def)
    ultimately show ?thesis
      using skip_bufOK [of src True ?vm2 "Ret u vm'"] src by (simp add: state_upd_def)
  qed
  then show "bufOK vm'"
    and "unat (headOffsetInCurPktBits (pos vm)) \<le> unat (headOffsetInCurPktBits (pos vm'))"
    by simp_all
qed

lemma chainOK_tl: "chainOK c \<Longrightarrow> chainOK (tl c)"
  by (induction c rule: chainOK.induct) auto

lemma chainOK_push_exec: "chainOK c \<Longrightarrow> chainOK (EXEC_INSTR # c)"
  by (cases c) auto

lemma chainOK_push_array:
  "chainOK c \<Longrightarrow> c \<noteq> [] \<Longrightarrow> hd c = EXEC_INSTR \<or> hd c = EXEC_ARRAY_INSTR
   \<Longrightarrow> chainOK (EXEC_ARRAY_INSTR # c)"
  by (cases c) auto

lemma chainOK_hd:
  "chainOK c \<Longrightarrow> c \<noteq> [] \<Longrightarrow> hd c = EXEC_ARRAY_INSTR
   \<Longrightarrow> tl c \<noteq> [] \<and> (hd (tl c) = EXEC_INSTR \<or> hd (tl c) = EXEC_ARRAY_INSTR)"
  by (induction c rule: chainOK.induct) auto

lemma pstates_push [simp]: "pstates (stackPush pr p) = theState p # pstates p"
  by (simp add: pstates_def stackPush_def)

lemma pstates_Nil [simp]: "pstates p = [] \<longleftrightarrow> stack p = []"
  by (simp add: pstates_def)

lemma hd_pstates: "stack p \<noteq> [] \<Longrightarrow> hd (pstates p) = parentState (last (stack p))"
  by (simp add: pstates_def hd_rev last_map)

lemma pstates_butlast: "pstates (p\<lparr>stack := butlast (stack p)\<rparr>) = tl (pstates p)"
proof -
  have "rev (butlast xs) = tl (rev xs)" for xs :: "VmState list"
    by (induction xs rule: rev_induct) simp_all
  then show ?thesis
    by (simp add: pstates_def map_butlast)
qed

lemma map_parentState_top:
  "xs \<noteq> [] \<Longrightarrow> parentState f = parentState (last xs)
   \<Longrightarrow> map parentState (butlast xs @ [f]) = map parentState xs"
  by (induction xs) auto

lemma arrayFrameOK_pstates:
  "arrayFrameOK p \<longleftrightarrow> pstates p \<noteq> [] \<and> (hd (pstates p) = EXEC_INSTR \<or> hd (pstates p) = EXEC_ARRAY_INSTR)"
  by (auto simp: arrayFrameOK_def hd_pstates)

lemma unat_headOffsetInElemSeqBits:
  "bufOK vm \<Longrightarrow> unat (headOffsetInElemSeqBits (pos vm)) = headOffsetNat vm"
  by (simp add: bufOK_def headOffsetInElemSeqBits_def headOffsetNat_def unat_add_lem [THEN iffD1])

lemma stateBeginPktContent_step:
  assumes "vmOK vm" and "theState (pos vm) = BEGIN_PKT_CONTENT"
    and "stateBeginPktContent vm = Ret b vm'"
  shows "stepOrder vm b vm' \<and> vmOK vm'"
  using assms unat_headOffsetInElemSeqBits [of vm]
  by (auto simp: stateBeginPktContent_def vmOK_def stepOrder_def state_upd_def
      updateItCurOffset_def bufOK_def headOffsetNat_def stateOK_def pstates_def)

lemma stateEndEr_step:
  assumes "vmOK vm" and "theState (pos vm) = END_ER"
    and "stateEndEr vm = Ret b vm'"
  shows "stepOrder vm b vm' \<and> vmOK vm'"
  using assms unat_headOffsetInElemSeqBits [of vm]
  by (auto simp: stateEndEr_def vmOK_def stepOrder_def state_upd_def
      updateItCurOffset_def bufOK_def headOffsetNat_def stateOK_def pstates_def
      headOffsetInElemSeqBits_def
      split: if_splits)

lemma stateEndStr_step:
  assumes "vmOK vm" and "theState (pos vm) = END_STR"
    and "stateEndStr vm = Ret b vm'"
  shows "stepOrder vm b vm' \<and> vmOK vm'"
  using assms unat_headOffsetInElemSeqBits [of vm]
  by (auto simp: stateEndStr_def vmOK_def stepOrder_def state_upd_def Let_def
      updateItCurOffset_def bufOK_def headOffsetNat_def stateOK_def pstates_def
      headOffsetInElemSeqBits_def arrayFrameOK_def
      split: if_splits)

lemma stateEndPktContent_step:
  assumes "vmOK vm" and "theState (pos vm) = END_PKT_CONTENT"
    and "stateEndPktContent vm = Ret b vm'"
  shows "stepOrder vm b vm' \<and> vmOK vm'"
  using assms unat_headOffsetInElemSeqBits [of vm]
  by (auto simp: stateEndPktContent_def vmOK_def stepOrder_def state_upd_def Let_def
      updateItCurOffset_def bufOK_def headOffsetNat_def stateOK_def pstates_def
      headOffsetInElemSeqBits_def word_greater_zero_iff
      split: if_splits)

lemma bindR_Ret:
  "bindR m f = Some (Ret y vm'') \<longleftrightarrow> (\<exists>x vm'. m = Some (Ret x vm') \<and> f x vm' = Some (Ret y vm''))"
  by (auto simp: bindR_def split: option.splits result.splits)

lemma withPos_Ret:
  "withPos f vm = Some (Ret u vm') \<longleftrightarrow> (\<exists>p. f (pos vm) = Some p \<and> vm' = vm\<lparr>pos := p\<rparr>)"
  by (auto simp: withPos_def split: option.splits)

lemma andReturn_Ret:
  "andReturn x m = Some (Ret y vm') \<longleftrightarrow> y = x \<and> m = Some (Ret () vm')"
  by (auto simp: andReturn_def bindR_Ret)

lemma gotoNextInstr_Some:
  "gotoNextInstr p = Some p' \<longleftrightarrow>
     stack p \<noteq> [] \<and>
     p' = p\<lparr>stack := butlast (stack p) @ [(last (stack p))\<lparr>it := it (last (stack p)) + 1\<rparr>]\<rparr>"
  by (auto simp: gotoNextInstr_def)

lemma remElems_upd_Some:
  "remElems_upd f p = Some p' \<longleftrightarrow>
     stack p \<noteq> [] \<and>
     p' = p\<lparr>stack := butlast (stack p)
                 @ [(last (stack p))\<lparr>remElems := f (remElems (last (stack p)))\<rparr>]\<rparr>"
  by (auto simp: remElems_upd_def)

lemma stackPop_Some:
  "stackPop p = Some p' \<longleftrightarrow> stack p \<noteq> [] \<and> p' = p\<lparr>stack := butlast (stack p)\<rparr>"
  by (auto simp: stackPop_def)

lemma setParentStateAndStackPop_Some:
  "setParentStateAndStackPop p = Some p' \<longleftrightarrow>
     stack p \<noteq> [] \<and>
     p' = p\<lparr>theState := parentState (last (stack p)), stack := butlast (stack p)\<rparr>"
  by (auto simp: setParentStateAndStackPop_def stackPop_def)

lemma loadNewProc_Some:
  "loadNewProc pr p = Some p' \<longleftrightarrow> stack p = [] \<and> p' = stackPush pr p"
  by (auto simp: loadNewProc_def)

lemma pstates_top_it [simp]:
  "stack p \<noteq> [] \<Longrightarrow>
   pstates (p\<lparr>stack := butlast (stack p) @ [(last (stack p))\<lparr>it := k\<rparr>]\<rparr>) = pstates p"
  using map_parentState_top [of "stack p" "(last (stack p))\<lparr>it := k\<rparr>"]
  by (simp add: pstates_def del: map_append)

lemma pstates_top_remElems [simp]:
  "stack p \<noteq> [] \<Longrightarrow>
   pstates (p\<lparr>stack := butlast (stack p) @ [(last (stack p))\<lparr>remElems := k\<rparr>]\<rparr>) = pstates p"
  using map_parentState_top [of "stack p" "(last (stack p))\<lparr>remElems := k\<rparr>"]
  by (simp add: pstates_def del: map_append)

lemma advanced_refl: "bufOK vm \<Longrightarrow> advanced vm vm"
  by (simp add: advanced_def unat_headOffsetInElemSeqBits)

lemma advanced_trans: "advanced vm vm1 \<Longrightarrow> advanced vm1 vm2 \<Longrightarrow> advanced vm vm2"
  by (auto simp: advanced_def)

lemma alignHead_advanced:
  assumes src: "blocksInRange src" and ok: "bufOK vm"
    and a: "alignHead src A vm = Some (Ret u vm')"
  shows "advanced vm vm'"
proof -
  note p = alignHead_Ret_pos [OF a]
  from alignHead_iter [OF a] have "iter vm' = iter vm" by simp
  moreover have "curPktOffsetInElemSeqBits (pos vm') = curPktOffsetInElemSeqBits (pos vm)"
    by (subst p) simp
  moreover have "theState (pos vm') = theState (pos vm)"
    by (subst p) simp
  moreover have "stack (pos vm') = stack (pos vm)"
    by (subst p) simp
  moreover have "postEndStrState (pos vm') = postEndStrState (pos vm)"
    by (subst p) simp
  moreover have "curExpectedPktTotalLenBits (pos vm') = curExpectedPktTotalLenBits (pos vm)"
    by (subst p) simp
  ultimately show ?thesis
    using alignHead_bufOK [OF src ok a] unat_headOffsetInElemSeqBits [of vm']
    by (simp add: advanced_def)
qed

lemma requireContentBits_advanced:
  assumes "blocksInRange src" and "bufOK vm" and "requireContentBits src n vm = Ret u vm'"
  shows "advanced vm vm'"
  using requireContentBits_bufOK [OF assms] requireContentBits_pos [OF assms(3)]
    requireContentBits_iter [of src n vm] assms(3) unat_headOffsetInElemSeqBits [of vm']
  by (simp add: advanced_def)

lemma tryHaveBits_advanced:
  assumes "blocksInRange src" and "bufOK vm" and "tryHaveBits src n vm = Ret b vm'"
  shows "advanced vm vm'"
  using tryHaveBits_bufOK [OF assms] tryHaveBits_pos [OF assms(3)]
    tryHaveBits_iter [of src n vm] assms(3) unat_headOffsetInElemSeqBits [of vm']
  by (simp add: advanced_def)

lemma consumeExistingBits_advanced:
  assumes "bufOK vm" and "consumeExistingBits k vm = Ret u vm'"
  shows "advanced vm vm'"
  using consumeExistingBits_bufOK [OF assms] consumeExistingBits_Ret [OF assms(2)]
    unat_headOffsetInElemSeqBits [of vm']
  by (simp add: advanced_def)

lemma preamble_advanced:
  assumes src: "blocksInRange src" and ok: "bufOK vm"
    and p: "execReadBitArrayPreamble src A len vm = Some (Ret u vm')"
  shows "advanced vm vm'"
proof -
  from p obtain r0 where a0: "alignHead src A vm = Some r0"
    and c0: "(case r0 of Throw e vm' \<Rightarrow> Some (Throw e vm')
              | Ret _ vm1 \<Rightarrow> Some (requireContentBits src len vm1)) = Some (Ret u vm')"
    by (auto simp: execReadBitArrayPreamble_def bind_eq_Some_conv)
  then obtain vm1 where a: "alignHead src A vm = Some (Ret () vm1)"
    and r: "requireContentBits src len vm1 = Ret u vm'"
    by (cases r0) auto
  from alignHead_advanced [OF src ok a] have a1: "advanced vm vm1" .
  then have "bufOK vm1" by (simp add: advanced_def)
  from requireContentBits_advanced [OF src this r] a1 show ?thesis
    by (rule advanced_trans [rotated])
qed

lemmas upd_defs = state_upd_def elems_upd_def updateItCurOffset_def stackPush_def

lemmas ok_defs = vmOK_def stepOrder_def bufOK_def headOffsetNat_def stateOK_def
  arrayFrameOK_def escaped_def advanced_def headOffsetInElemSeqBits_def

text \<open>An element shown at the head, which may then move forward.\<close>

lemma bindR_alignHeadE:
  assumes "bindR (alignHead src A vm) f = Some (Ret y vm')"
    and "blocksInRange src" and "bufOK vm"
  obtains vm1 where "f () vm1 = Some (Ret y vm')" and "advanced vm vm1"
  using assms by (auto simp: bindR_Ret dest: alignHead_advanced)

lemma execReadStr_step:
  assumes src: "blocksInRange src" and ok: "vmOK vm"
    and st: "theState (pos vm) = EXEC_INSTR \<or> theState (pos vm) = EXEC_ARRAY_INSTR"
    and e: "execReadStr src dt align vm = Some (Ret u vm')"
  shows "stepOrder vm True vm' \<and> vmOK vm'"
proof -
  from ok have okb: "bufOK vm" by (simp add: vmOK_def)
  from e [unfolded execReadStr_def] src okb show ?thesis
  proof (rule bindR_alignHeadE)
    fix vm1
    assume "advanced vm vm1" and
      "(let vm2 = updateItCurOffset E_strBeginning
                   (elems_upd (\<lambda>e. e\<lparr>strBeginning_dt := dt\<rparr>) vm1);
           vm3 = vm2\<lparr>pos := (pos vm2)\<lparr>postEndStrState := theState (pos vm2)\<rparr>\<rparr>
       in Some (Ret () (state_upd READ_SUBSTR_UNTIL_NULL vm3))) = Some (Ret u vm')"
    with ok st show ?thesis
      by (auto simp: upd_defs ok_defs pstates_def Let_def)
  qed
qed

lemma shown_setIntElem: "shown vm (setIntElem sg dt val vm)"
  by (cases sg) (simp_all add: shown_def setIntElem_def upd_defs headOffsetInElemSeqBits_def)

lemma shown_setEnumElem: "shown vm (setEnumElem sg dt val vm)"
  by (cases sg) (simp_all add: shown_def setEnumElem_def upd_defs headOffsetInElemSeqBits_def)

lemma shown_setFloatVal: "shown vm (setFloatVal dt val vm)"
  by (simp add: shown_def setFloatVal_def upd_defs headOffsetInElemSeqBits_def)

lemma show_and_consume:
  assumes adv: "advanced vm vm1" and ok: "vmOK vm"
    and st: "theState (pos vm) = EXEC_INSTR \<or> theState (pos vm) = EXEC_ARRAY_INSTR
             \<or> theState (pos vm) = READ_UUID_BYTE"
    and sh: "shown vm1 vm2"
    and c: "consumeExistingBits k vm2 = Ret u vm'"
  shows "stepOrder vm True vm' \<and> vmOK vm' \<and> theState (pos vm') = theState (pos vm)
         \<and> stack (pos vm') = stack (pos vm)"
proof -
  from adv sh have ok2: "bufOK vm2"
    by (auto simp: advanced_def shown_def bufOK_def)
  from consumeExistingBits_advanced [OF ok2 c] have a3: "advanced vm2 vm'" .
  from adv sh a3 ok st show ?thesis
    by (auto simp: advanced_def shown_def vmOK_def stepOrder_def headOffsetNat_def
        stateOK_def arrayFrameOK_def pstates_def headOffsetInElemSeqBits_def)
qed

lemma readInt_advanced:
  assumes src: "blocksInRange src" and ok: "bufOK vm"
    and r: "readInt funcs src A len bo vm = Some (Ret val vm')"
  shows "advanced vm vm'"
proof -
  from r obtain r0 where p0: "execReadBitArrayPreamble src A len vm = Some r0"
    and c0: "(case r0 of
         Throw e vm' \<Rightarrow> Some (Throw e vm')
       | Ret _ vm1 \<Rightarrow>
           let boChange =
                 (case lastBo (pos vm1) of
                    None \<Rightarrow> None
                  | Some prevBo \<Rightarrow>
                      if headOffsetInCurPktBits (pos vm1) AND 7 \<noteq> 0 then
                        if bo \<noteq> prevBo
                        then Some (ByteOrderChangeWithinByte
                                     (headOffsetInElemSeqBits (pos vm1)) prevBo bo)
                        else None
                      else None)
           in case boChange of
                Some e \<Rightarrow> Some (Throw e vm1)
              | None \<Rightarrow>
                  let vm2 = vm1\<lparr>pos := (pos vm1)\<lparr>lastBo := Some bo\<rparr>\<rparr>;
                      index = (len - 1) * 8 + (headOffsetInCurPktBits (pos vm2) AND 7)
                  in Some (Ret (funcs index (bufMem vm2) (bufAtHead vm2)) vm2))
        = Some (Ret val vm')"
    by (auto simp: readInt_def bind_eq_Some_conv)
  then obtain vm1 where p: "execReadBitArrayPreamble src A len vm = Some (Ret () vm1)"
    and v: "vm' = vm1\<lparr>pos := (pos vm1)\<lparr>lastBo := Some bo\<rparr>\<rparr>"
    by (cases r0) (auto simp: Let_def split: option.splits if_splits)
  from preamble_advanced [OF src ok p] show ?thesis
    unfolding v by (auto simp: advanced_def bufOK_def headOffsetNat_def headOffsetInElemSeqBits_def)
qed

lemma readStdInt_advanced:
  assumes src: "blocksInRange src" and ok: "bufOK vm"
    and r: "readStdInt func src A len bo vm = Some (Ret val vm')"
  shows "advanced vm vm'"
proof -
  from r obtain vm1 where p: "execReadBitArrayPreamble src A len vm = Some (Ret () vm1)"
    and v: "vm' = vm1\<lparr>pos := (pos vm1)\<lparr>lastBo := Some bo\<rparr>\<rparr>"
    by (auto simp: readStdInt_def bindR_Ret Let_def)
  from preamble_advanced [OF src ok p] show ?thesis
    unfolding v by (auto simp: advanced_def bufOK_def headOffsetNat_def headOffsetInElemSeqBits_def)
qed

lemma execReadStdInt_step:
  assumes src: "blocksInRange src" and ok: "vmOK vm"
    and st: "theState (pos vm) = EXEC_INSTR \<or> theState (pos vm) = EXEC_ARRAY_INSTR
             \<or> theState (pos vm) = READ_UUID_BYTE"
    and e: "execReadStdInt rd src sg lenBits dt align bo vm = Some (Ret u vm')"
  shows "stepOrder vm True vm' \<and> vmOK vm' \<and> theState (pos vm') = theState (pos vm)
         \<and> stack (pos vm') = stack (pos vm)"
proof -
  from ok have okb: "bufOK vm" by (simp add: vmOK_def)
  from e obtain val vm1 where
    r: "readStdInt (stdFunc rd sg bo lenBits) src align lenBits bo vm = Some (Ret val vm1)"
    and c: "consumeExistingBits lenBits (setIntElem sg dt val vm1) = Ret u vm'"
    by (auto simp: execReadStdInt_def bindR_Ret)
  from show_and_consume [OF readStdInt_advanced [OF src okb r] ok st shown_setIntElem c]
  show ?thesis .
qed

lemma execReadBitArray_step:
  assumes src: "blocksInRange src" and ok: "vmOK vm"
    and st: "theState (pos vm) = EXEC_INSTR \<or> theState (pos vm) = EXEC_ARRAY_INSTR"
    and e: "execReadBitArray rd src kind path dt align len bo vm = Some (Ret u vm')"
  shows "stepOrder vm True vm' \<and> vmOK vm' \<and> theState (pos vm') = theState (pos vm)
         \<and> stack (pos vm') = stack (pos vm)"
proof -
  from ok have okb: "bufOK vm" by (simp add: vmOK_def)
  from st have st': "theState (pos vm) = EXEC_INSTR \<or> theState (pos vm) = EXEC_ARRAY_INSTR
             \<or> theState (pos vm) = READ_UUID_BYTE" by blast
  from e have "\<exists>vm1 vm2 k. advanced vm vm1 \<and> shown vm1 vm2 \<and> consumeExistingBits k vm2 = Ret u vm'"
    by (auto simp: execReadBitArray_def execReadInt_def execReadStdInt_def execReadEnum_def
          execReadStdEnum_def execReadFloat_def execReadStdFloat_def execReadFloatPost_def
          bindR_Ret
        split: BitArrayElemKind.splits ReadPath.splits
        intro: shown_setIntElem shown_setEnumElem shown_setFloatVal
        dest!: readInt_advanced [OF src okb] readStdInt_advanced [OF src okb])
  then obtain vm1 vm2 k where "advanced vm vm1" "shown vm1 vm2"
    "consumeExistingBits k vm2 = Ret u vm'" by blast
  from show_and_consume [OF this(1) ok st' this(2,3)] show ?thesis .
qed

lemma rev_map_top_fold [simp]:
  "xs \<noteq> [] \<Longrightarrow> parentState (last xs) # rev (map parentState (butlast xs)) = rev (map parentState xs)"
  by (induction xs rule: rev_induct) simp_all

lemma chainOK_push:
  assumes "chainOK (rev (map parentState xs))"
    and "s = EXEC_INSTR \<or> s = EXEC_ARRAY_INSTR \<and> xs \<noteq> []
           \<and> (parentState (last xs) = EXEC_INSTR \<or> parentState (last xs) = EXEC_ARRAY_INSTR)"
  shows "chainOK (s # rev (map parentState xs))"
proof (cases xs rule: rev_cases)
  case Nil
  with assms show ?thesis by auto
next
  case (snoc ys y)
  with assms show ?thesis by auto
qed

lemma chainOK_pop:
  assumes "chainOK (rev (map parentState xs))"
  shows "chainOK (rev (map parentState (butlast xs)))"
proof (cases xs rule: rev_cases)
  case Nil
  then show ?thesis by simp
next
  case (snoc ys y)
  with assms chainOK_tl [of "parentState y # rev (map parentState ys)"] show ?thesis by simp
qed

lemma chainOK_top:
  assumes "chainOK (rev (map parentState xs))" and "xs \<noteq> []"
  shows "parentState (last xs) = BEGIN_PKT \<and> butlast xs = []
         \<or> parentState (last xs) = BEGIN_ER \<and> butlast xs = []
         \<or> parentState (last xs) = EXEC_INSTR
         \<or> parentState (last xs) = EXEC_ARRAY_INSTR \<and> butlast xs \<noteq> []
            \<and> (parentState (last (butlast xs)) = EXEC_INSTR
               \<or> parentState (last (butlast xs)) = EXEC_ARRAY_INSTR)"
proof (cases xs rule: rev_cases)
  case Nil
  with assms show ?thesis by simp
next
  case (snoc ys y)
  then have b: "butlast xs = ys" "last xs = y" by simp_all
  show ?thesis
  proof (cases ys rule: rev_cases)
    case Nil
    with snoc assms show ?thesis by auto
  next
    case (snoc zs z)
    then have "last ys = z" "ys \<noteq> []" by simp_all
    with snoc \<open>xs = ys @ [y]\<close> assms(1) show ?thesis
      unfolding b by auto
  qed
qed

lemma execBeginReadScope_step:
  assumes src: "blocksInRange src" and ok: "vmOK vm"
    and st: "theState (pos vm) = EXEC_INSTR \<or> theState (pos vm) = EXEC_ARRAY_INSTR"
    and e: "execBeginReadScope src sc align pr vm = Some (Ret u vm')"
  shows "stepOrder vm True vm' \<and> vmOK vm'"
proof -
  from ok have okb: "bufOK vm" by (simp add: vmOK_def)
  from e [unfolded execBeginReadScope_def] src okb show ?thesis
  proof (rule bindR_alignHeadE)
    fix vm1
    assume "advanced vm vm1" and
      "(let vm2 = updateItCurOffset E_scopeBeginning
                   (elems_upd (\<lambda>e. e\<lparr>scopeBeginning_scope := sc\<rparr>) vm1)
       in bindR (withPos gotoNextInstr vm2) (\<lambda>_ vm3.
            Some (Ret () (vm3\<lparr>pos := stackPush pr (pos vm3)\<rparr>)))) = Some (Ret u vm')"
    with ok st show ?thesis
      by (auto simp: upd_defs ok_defs pstates_def Let_def bindR_Ret withPos_Ret
          gotoNextInstr_Some intro!: chainOK_push)
  qed
qed

lemma execEndReadScope_step:
  assumes ok: "vmOK vm"
    and st: "theState (pos vm) = EXEC_INSTR \<or> theState (pos vm) = EXEC_ARRAY_INSTR"
    and e: "execEndReadScope vm = Some (Ret u vm')"
  shows "stepOrder vm True vm' \<and> vmOK vm'"
  using assms unat_headOffsetInElemSeqBits [of vm]
  by (auto simp: execEndReadScope_def upd_defs ok_defs pstates_def bindR_Ret withPos_Ret
      stackPop_Some vmOK_def split: if_splits intro: chainOK_pop)

lemma execBeginReadStruct_step:
  assumes src: "blocksInRange src" and ok: "vmOK vm"
    and st: "theState (pos vm) = EXEC_INSTR \<or> theState (pos vm) = EXEC_ARRAY_INSTR"
    and e: "execBeginReadStruct src dt align pr vm = Some (Ret u vm')"
  shows "stepOrder vm True vm' \<and> vmOK vm'"
proof -
  from ok have okb: "bufOK vm" by (simp add: vmOK_def)
  from e [unfolded execBeginReadStruct_def] src okb show ?thesis
  proof (rule bindR_alignHeadE)
    fix vm1
    assume "advanced vm vm1" and
      "(let vm2 = updateItCurOffset E_structBeginning
                   (elems_upd (\<lambda>e. e\<lparr>structBeginning_dt := dt\<rparr>) vm1)
       in bindR (withPos gotoNextInstr vm2) (\<lambda>_ vm3.
            Some (Ret () (state_upd EXEC_INSTR (vm3\<lparr>pos := stackPush pr (pos vm3)\<rparr>)))))
        = Some (Ret u vm')"
    with ok st show ?thesis
      by (auto simp: upd_defs ok_defs pstates_def Let_def bindR_Ret withPos_Ret
          gotoNextInstr_Some intro!: chainOK_push)
  qed
qed

text \<open>The frame on top is popped and its parent state is the new state.\<close>

lemma pop_ok:
  assumes c: "chainOK (rev (map parentState (stack p)))" and ne: "stack p \<noteq> []"
  shows "chainOK (rev (map parentState (butlast (stack p))))"
    and "stateOK (p\<lparr>theState := parentState (last (stack p)), stack := butlast (stack p)\<rparr>)
         \<or> parentState (last (stack p)) = BEGIN_PKT \<and> headOffsetInCurPktBits p \<noteq> 0"
    and "arrayFrameOK p \<Longrightarrow>
         stateOK (p\<lparr>theState := parentState (last (stack p)), stack := butlast (stack p)\<rparr>)"
proof -
  from c show "chainOK (rev (map parentState (butlast (stack p))))" by (rule chainOK_pop)
  from chainOK_top [OF c ne]
  show "stateOK (p\<lparr>theState := parentState (last (stack p)), stack := butlast (stack p)\<rparr>)
         \<or> parentState (last (stack p)) = BEGIN_PKT \<and> headOffsetInCurPktBits p \<noteq> 0"
    by (auto simp: stateOK_def arrayFrameOK_def)
  assume "arrayFrameOK p"
  with chainOK_top [OF c ne]
  show "stateOK (p\<lparr>theState := parentState (last (stack p)), stack := butlast (stack p)\<rparr>)"
    by (auto simp: stateOK_def arrayFrameOK_def)
qed

lemma execEndReadStruct_step:
  assumes ok: "vmOK vm"
    and st: "theState (pos vm) = EXEC_INSTR \<or> theState (pos vm) = EXEC_ARRAY_INSTR"
    and e: "execEndReadStruct vm = Some (Ret u vm')"
  shows "stepOrder vm True vm' \<and> (vmOK vm' \<or> escaped vm')"
proof -
  from e have ne: "stack (pos vm) \<noteq> []"
    and v: "vm' = (updateItCurOffset E_end vm)\<lparr>pos := (pos vm)
              \<lparr>theState := parentState (last (stack (pos vm))),
                 stack := butlast (stack (pos vm))\<rparr>\<rparr>"
    by (auto simp: execEndReadStruct_def withPos_Ret setParentStateAndStackPop_Some
        updateItCurOffset_def)
  from ok have c: "chainOK (rev (map parentState (stack (pos vm))))"
    by (simp add: vmOK_def pstates_def)
  from pop_ok(1,2) [OF c ne] ok unat_headOffsetInElemSeqBits [of vm] show ?thesis
    unfolding v
    by (auto simp: vmOK_def stepOrder_def bufOK_def headOffsetNat_def escaped_def
        updateItCurOffset_def pstates_def)
qed

lemma execBeginReadStaticArray_step:
  assumes src: "blocksInRange src" and ok: "vmOK vm"
    and st: "theState (pos vm) = EXEC_INSTR \<or> theState (pos vm) = EXEC_ARRAY_INSTR"
    and e: "execBeginReadStaticArray src kind dt align len pr vm = Some (Ret u vm')"
  shows "stepOrder vm True vm' \<and> vmOK vm'"
proof -
  let ?vm0 = "if kind = TEXT_ARRAY
                 then elems_upd (\<lambda>e. e\<lparr>staticTextArrayBeginning_dt := dt\<rparr>) vm
                 else elems_upd (\<lambda>e. e\<lparr>staticArrayBeginning_dt := dt\<rparr>) vm"
  from ok have okb: "bufOK ?vm0" by (simp add: vmOK_def bufOK_def elems_upd_def)
  from e [unfolded execBeginReadStaticArray_def Let_def] src okb show ?thesis
  proof (rule bindR_alignHeadE)
    fix vm1
    assume "advanced ?vm0 vm1" and
      "bindR (withPos gotoNextInstr
                (if kind = TEXT_ARRAY
                      then updateItCurOffset E_staticTextArrayBeginning
                             (elems_upd (\<lambda>e. e\<lparr>staticTextArrayBeginning_dt := dt,
                                                staticTextArrayBeginning_len := len\<rparr>) vm1)
                      else updateItCurOffset E_staticArrayBeginning
                             (elems_upd (\<lambda>e. e\<lparr>staticArrayBeginning_dt := dt,
                                                staticArrayBeginning_len := len\<rparr>) vm1)))
         (\<lambda>_ vm3.
                bindR (withPos (remElems_upd (\<lambda>_. len)) (vm3\<lparr>pos := stackPush pr (pos vm3)\<rparr>))
                  (\<lambda>_ vm4. Some (Ret () (state_upd (arrayState kind) vm4))))
        = Some (Ret u vm')"
    with ok st show ?thesis
      by (cases kind)
         (auto simp: upd_defs ok_defs pstates_def bindR_Ret withPos_Ret arrayState_def
          gotoNextInstr_Some remElems_upd_Some intro!: chainOK_push)
  qed
qed

lemma execBeginReadDynArray_step:
  assumes src: "blocksInRange src" and ok: "vmOK vm"
    and st: "theState (pos vm) = EXEC_INSTR \<or> theState (pos vm) = EXEC_ARRAY_INSTR"
    and e: "execBeginReadDynArray src isText dt align lenPos pr vm = Some (Ret u vm')"
  shows "stepOrder vm True vm' \<and> vmOK vm'"
proof -
  let ?vm0 = "if isText
                 then elems_upd (\<lambda>e. e\<lparr>dynTextArrayBeginning_dt := dt\<rparr>) vm
                 else elems_upd (\<lambda>e. e\<lparr>dynArrayBeginning_dt := dt\<rparr>) vm"
  from ok have okb: "bufOK ?vm0" by (simp add: vmOK_def bufOK_def elems_upd_def)
  from e obtain len where
    b: "bindR (alignHead src align ?vm0) (\<lambda>_ vm1.
                 bindR (withPos gotoNextInstr
                   (if isText
                            then updateItCurOffset E_dynTextArrayBeginning
                                   (elems_upd (\<lambda>e. e\<lparr>dynTextArrayBeginning_dt := dt,
                                                      dynTextArrayBeginning_len := len\<rparr>) vm1)
                            else updateItCurOffset E_dynArrayBeginning
                                   (elems_upd (\<lambda>e. e\<lparr>dynArrayBeginning_dt := dt,
                                                      dynArrayBeginning_len := len\<rparr>) vm1)))
                   (\<lambda>_ vm3.
                      bindR (withPos (remElems_upd (\<lambda>_. len))
                               (vm3\<lparr>pos := stackPush pr (pos vm3)\<rparr>))
                        (\<lambda>_ vm4. Some (Ret () (state_upd (if isText then READ_SUBSTR
                                                             else EXEC_ARRAY_INSTR) vm4)))))
         = Some (Ret u vm')"
    by (auto simp: execBeginReadDynArray_def Let_def split: option.splits if_splits)
  from b src okb show ?thesis
  proof (rule bindR_alignHeadE)
    fix vm1
    assume "advanced ?vm0 vm1" and
      "bindR (withPos gotoNextInstr
                   (if isText
                            then updateItCurOffset E_dynTextArrayBeginning
                                   (elems_upd (\<lambda>e. e\<lparr>dynTextArrayBeginning_dt := dt,
                                                      dynTextArrayBeginning_len := len\<rparr>) vm1)
                            else updateItCurOffset E_dynArrayBeginning
                                   (elems_upd (\<lambda>e. e\<lparr>dynArrayBeginning_dt := dt,
                                                      dynArrayBeginning_len := len\<rparr>) vm1)))
                   (\<lambda>_ vm3.
                      bindR (withPos (remElems_upd (\<lambda>_. len))
                               (vm3\<lparr>pos := stackPush pr (pos vm3)\<rparr>))
                        (\<lambda>_ vm4. Some (Ret () (state_upd (if isText then READ_SUBSTR
                                                             else EXEC_ARRAY_INSTR) vm4))))
        = Some (Ret u vm')"
    with ok st show ?thesis
      by (cases isText)
         (auto simp: upd_defs ok_defs pstates_def bindR_Ret withPos_Ret
          gotoNextInstr_Some remElems_upd_Some intro!: chainOK_push)
  qed
qed

lemma execBeginReadVar_step:
  assumes src: "blocksInRange src" and ok: "vmOK vm"
    and st: "theState (pos vm) = EXEC_INSTR \<or> theState (pos vm) = EXEC_ARRAY_INSTR"
    and e: "execBeginReadVar src sg dt align selPos opts vm = Some (Ret u vm')"
  shows "stepOrder vm True vm' \<and> vmOK vm'"
proof -
  from ok have okb: "bufOK vm" by (simp add: vmOK_def)
  from e obtain r0 where a0: "alignHead src align vm = Some r0"
    and c0: "(case r0 of
         Throw e vm' \<Rightarrow> Some (Throw e vm')
       | Ret _ vm1 \<Rightarrow>
           Some
            (case savedVal selPos (pos vm1) of
               None \<Rightarrow> Throw AssertionFailed vm1
             | Some selVal \<Rightarrow>
                 (case procForSelVal sg opts selVal of
                    None \<Rightarrow>
                      (case sg of
                         SINT \<Rightarrow> Throw (InvalidVariantSignedSelectorValue
                                           (headOffsetInElemSeqBits (pos vm1)) selVal) vm1
                       | UINT \<Rightarrow> Throw (InvalidVariantUnsignedSelectorValue
                                           (headOffsetInElemSeqBits (pos vm1)) selVal) vm1)
                  | Some pr \<Rightarrow>
                      let vm2 =
                            (case sg of
                               SINT \<Rightarrow>
                                 updateItCurOffset E_varSSelBeginning
                                   (elems_upd (\<lambda>e. e\<lparr>varSSelBeginning_dt := dt,
                                                      varSSelBeginning_selVal := selVal\<rparr>) vm1)
                             | UINT \<Rightarrow>
                                 updateItCurOffset E_varUSelBeginning
                                   (elems_upd (\<lambda>e. e\<lparr>varUSelBeginning_dt := dt,
                                                      varUSelBeginning_selVal := selVal\<rparr>) vm1))
                      in (case gotoNextInstr (pos vm2) of
                            None \<Rightarrow> Throw AssertionFailed vm2
                          | Some p \<Rightarrow>
                              Ret () (state_upd EXEC_INSTR (vm2\<lparr>pos := stackPush pr p\<rparr>))))))
        = Some (Ret u vm')"
    by (auto simp: execBeginReadVar_def bind_eq_Some_conv)
  then obtain vm1 where a: "alignHead src align vm = Some (Ret () vm1)"
    by (cases r0) auto
  from alignHead_advanced [OF src okb a] have adv: "advanced vm vm1" .
  from a a0 c0 adv ok st show ?thesis
    by (cases sg)
       (auto simp: upd_defs ok_defs pstates_def Let_def gotoNextInstr_Some
        split: option.splits IntSign.splits intro!: chainOK_push)
qed

lemma execEndReadArray_step:
  assumes ok: "vmOK vm"
    and st: "theState (pos vm) = EXEC_INSTR \<or> theState (pos vm) = EXEC_ARRAY_INSTR"
    and e: "execEndReadArray vm = Some (Ret u vm')"
  shows "stepOrder vm True vm' \<and> vmOK vm'"
  using assms unat_headOffsetInElemSeqBits [of vm]
  by (auto simp: execEndReadArray_def upd_defs ok_defs pstates_def)

lemma updateDefClkVal_snd:
  "snd (updateDefClkVal len p) = p\<lparr>defClkVal := fst (updateDefClkVal len p)\<rparr>"
  by (simp add: updateDefClkVal_def Let_def)

lemma shown_step:
  assumes ok: "vmOK vm"
    and st: "theState (pos vm) = EXEC_INSTR \<or> theState (pos vm) = EXEC_ARRAY_INSTR"
    and sh: "shown vm vm'"
  shows "stepOrder vm True vm' \<and> vmOK vm'"
  using assms unat_headOffsetInElemSeqBits [of vm]
  by (auto simp: shown_def vmOK_def stepOrder_def bufOK_def headOffsetNat_def stateOK_def
      arrayFrameOK_def pstates_def)

lemma execUpdateDefClkVal_shown:
  "execUpdateDefClkVal len vm = Some (Ret u vm') \<Longrightarrow> shown vm vm'"
  by (auto simp: execUpdateDefClkVal_def updateDefClkVal_snd split_beta Let_def shown_def
      upd_defs headOffsetInElemSeqBits_def)

lemma execSetDsInfo_shown: "execSetDsInfo vm = Some (Ret u vm') \<Longrightarrow> shown vm vm'"
  by (auto simp: execSetDsInfo_def shown_def upd_defs)

lemma execSetPktInfo_shown: "execSetPktInfo vm = Some (Ret u vm') \<Longrightarrow> shown vm vm'"
  by (auto simp: execSetPktInfo_def Let_def shown_def upd_defs headOffsetInElemSeqBits_def)

lemma execSetErInfo_shown: "execSetErInfo vm = Some (Ret u vm') \<Longrightarrow> shown vm vm'"
  by (auto simp: execSetErInfo_def shown_def upd_defs)

lemma execSetPktMagicNumber_shown:
  "execSetPktMagicNumber vm = Some (Ret u vm') \<Longrightarrow> shown vm vm'"
  by (auto simp: execSetPktMagicNumber_def shown_def upd_defs headOffsetInElemSeqBits_def)

lemma quiet_step:
  assumes ok: "vmOK vm"
    and st: "theState (pos vm) = EXEC_INSTR \<or> theState (pos vm) = EXEC_ARRAY_INSTR"
    and q: "quiet vm vm'"
  shows "stepOrder vm False vm' \<and> vmOK vm' \<and> theState (pos vm') = theState (pos vm)"
  using assms
  by (auto simp: quiet_def vmOK_def stepOrder_def bufOK_def headOffsetNat_def stateOK_def
      arrayFrameOK_def pstates_def)

lemma execSaveVal_quiet: "execSaveVal i vm = Some (Ret u vm') \<Longrightarrow> quiet vm vm'"
  by (auto simp: execSaveVal_def quiet_def split: if_splits)

lemma execSetPktEndDefClkVal_quiet: "execSetPktEndDefClkVal vm = Some (Ret u vm') \<Longrightarrow> quiet vm vm'"
  by (auto simp: execSetPktEndDefClkVal_def quiet_def upd_defs)

lemma execSetCurrentId_quiet: "execSetCurrentId vm = Some (Ret u vm') \<Longrightarrow> quiet vm vm'"
  by (auto simp: execSetCurrentId_def quiet_def)

lemma execSetDst_quiet: "execSetDst fixedId vm = Some (Ret u vm') \<Longrightarrow> quiet vm vm'"
  by (auto simp: execSetDst_def Let_def quiet_def upd_defs split: option.splits)

lemma execSetErt_quiet: "execSetErt fixedId vm = Some (Ret u vm') \<Longrightarrow> quiet vm vm'"
  by (auto simp: execSetErt_def Let_def quiet_def upd_defs split: option.splits)

lemma execSetDsId_quiet: "execSetDsId vm = Some (Ret u vm') \<Longrightarrow> quiet vm vm'"
  by (auto simp: execSetDsId_def quiet_def upd_defs)

lemma execSetPktOriginIndex_quiet: "execSetPktOriginIndex vm = Some (Ret u vm') \<Longrightarrow> quiet vm vm'"
  by (auto simp: execSetPktOriginIndex_def quiet_def upd_defs)

lemma execSetPktTotalLen_quiet: "execSetPktTotalLen vm = Some (Ret u vm') \<Longrightarrow> quiet vm vm'"
  by (auto simp: execSetPktTotalLen_def Let_def quiet_def split: if_splits)

lemma execSetPktContentLen_quiet: "execSetPktContentLen vm = Some (Ret u vm') \<Longrightarrow> quiet vm vm'"
  by (auto simp: execSetPktContentLen_def Let_def quiet_def split: if_splits)

lemma popLastFrame_Ret:
  "popLastFrame vm = Some (Ret u vm') \<longleftrightarrow>
     stack (pos vm) \<noteq> [] \<and> butlast (stack (pos vm)) = []
     \<and> vm' = vm\<lparr>pos := (pos vm)\<lparr>stack := []\<rparr>\<rparr>"
  by (auto simp: popLastFrame_def bindR_Ret withPos_Ret stackPop_Some split: if_splits)

lemma execEndProc_step:
  assumes ok: "vmOK vm"
    and st: "theState (pos vm) = EXEC_INSTR \<or> theState (pos vm) = EXEC_ARRAY_INSTR"
    and e: "execEndPktPreambleProc vm = Some (Ret r vm')
            \<or> execEndDsPktPreambleProc vm = Some (Ret r vm')
            \<or> execEndDsErPreambleProc vm = Some (Ret r vm')
            \<or> execEndErProc vm = Some (Ret r vm')"
  shows "execOK vm r vm'"
  using assms
  by (auto simp: execEndPktPreambleProc_def execEndDsPktPreambleProc_def
      execEndDsErPreambleProc_def execEndErProc_def popLastFrame_Ret bindR_Ret
      andReturn_Ret withPos_Ret loadNewProc_Some execOK_def
      upd_defs vmOK_def stepOrder_def bufOK_def headOffsetNat_def stateOK_def pstates_def
      split: option.splits if_splits)

lemma exec_step:
  assumes src: "blocksInRange src" and ok: "vmOK vm"
    and st: "theState (pos vm) = EXEC_INSTR \<or> theState (pos vm) = EXEC_ARRAY_INSTR"
    and e: "exec rd src instr vm = Some (Ret r vm')"
  shows "execOK vm r vm'"
proof (cases instr)
  case (ReadBitArrayInstr kind path dt align len bo)
  with e execReadBitArray_step [OF src ok st] show ?thesis
    by (auto simp: exec_def andReturn_Ret execOK_def)
next
  case (ReadStrInstr dt align)
  with e execReadStr_step [OF src ok st] show ?thesis
    by (auto simp: exec_def andReturn_Ret execOK_def)
next
  case (BeginReadScopeInstr sc align pr)
  with e execBeginReadScope_step [OF src ok st] show ?thesis
    by (auto simp: exec_def andReturn_Ret execOK_def)
next
  case EndReadScopeInstr
  with e execEndReadScope_step [OF ok st] show ?thesis
    by (auto simp: exec_def andReturn_Ret execOK_def)
next
  case (BeginReadStructInstr dt align pr)
  with e execBeginReadStruct_step [OF src ok st] show ?thesis
    by (auto simp: exec_def andReturn_Ret execOK_def)
next
  case EndReadStructInstr
  with e execEndReadStruct_step [OF ok st] show ?thesis
    by (auto simp: exec_def andReturn_Ret execOK_def)
next
  case (BeginReadStaticArrayInstr kind dt align len pr)
  with e execBeginReadStaticArray_step [OF src ok st] show ?thesis
    by (auto simp: exec_def andReturn_Ret execOK_def)
next
  case EndReadStaticArrayInstr
  with e execEndReadArray_step [OF ok st] show ?thesis
    by (auto simp: exec_def andReturn_Ret execOK_def)
next
  case EndReadStaticTextArrayInstr
  with e execEndReadArray_step [OF ok st] show ?thesis
    by (auto simp: exec_def andReturn_Ret execOK_def)
next
  case (BeginReadDynArrayInstr isText dt align lenPos pr)
  with e execBeginReadDynArray_step [OF src ok st] show ?thesis
    by (auto simp: exec_def andReturn_Ret execOK_def)
next
  case EndReadDynArrayInstr
  with e execEndReadArray_step [OF ok st] show ?thesis
    by (auto simp: exec_def andReturn_Ret execOK_def)
next
  case EndReadDynTextArrayInstr
  with e execEndReadArray_step [OF ok st] show ?thesis
    by (auto simp: exec_def andReturn_Ret execOK_def)
next
  case (BeginReadVarInstr sg dt align selPos opts)
  with e execBeginReadVar_step [OF src ok st] show ?thesis
    by (auto simp: exec_def andReturn_Ret execOK_def)
next
  case EndReadVarInstr
  with e execEndReadStruct_step [OF ok st] show ?thesis
    by (auto simp: exec_def andReturn_Ret execOK_def)
next
  case (SaveValInstr i)
  with e quiet_step [OF ok st execSaveVal_quiet] show ?thesis
    by (auto simp: exec_def andReturn_Ret execOK_def)
next
  case SetPktEndDefClkValInstr
  with e quiet_step [OF ok st execSetPktEndDefClkVal_quiet] show ?thesis
    by (auto simp: exec_def andReturn_Ret execOK_def)
next
  case (UpdateDefClkValInstr len)
  with e shown_step [OF ok st execUpdateDefClkVal_shown] show ?thesis
    by (auto simp: exec_def andReturn_Ret execOK_def)
next
  case SetCurrentIdInstr
  with e quiet_step [OF ok st execSetCurrentId_quiet] show ?thesis
    by (auto simp: exec_def andReturn_Ret execOK_def)
next
  case (SetDstInstr fixedId)
  with e quiet_step [OF ok st execSetDst_quiet] show ?thesis
    by (auto simp: exec_def andReturn_Ret execOK_def)
next
  case (SetErtInstr fixedId)
  with e quiet_step [OF ok st execSetErt_quiet] show ?thesis
    by (auto simp: exec_def andReturn_Ret execOK_def)
next
  case SetDsIdInstr
  with e quiet_step [OF ok st execSetDsId_quiet] show ?thesis
    by (auto simp: exec_def andReturn_Ret execOK_def)
next
  case SetPktOriginIndexInstr
  with e quiet_step [OF ok st execSetPktOriginIndex_quiet] show ?thesis
    by (auto simp: exec_def andReturn_Ret execOK_def)
next
  case SetPktTotalLenInstr
  with e quiet_step [OF ok st execSetPktTotalLen_quiet] show ?thesis
    by (auto simp: exec_def andReturn_Ret execOK_def)
next
  case SetPktContentLenInstr
  with e quiet_step [OF ok st execSetPktContentLen_quiet] show ?thesis
    by (auto simp: exec_def andReturn_Ret execOK_def)
next
  case SetPktMagicNumberInstr
  with e shown_step [OF ok st execSetPktMagicNumber_shown] show ?thesis
    by (auto simp: exec_def andReturn_Ret execOK_def)
next
  case EndPktPreambleProcInstr
  with e execEndProc_step [OF ok st, of r vm'] show ?thesis
    by (simp add: exec_def)
next
  case EndDsPktPreambleProcInstr
  with e execEndProc_step [OF ok st, of r vm'] show ?thesis
    by (simp add: exec_def)
next
  case EndDsErPreambleProcInstr
  with e execEndProc_step [OF ok st, of r vm'] show ?thesis
    by (simp add: exec_def)
next
  case EndErProcInstr
  with e execEndProc_step [OF ok st, of r vm'] show ?thesis
    by (simp add: exec_def)
next
  case SetDsInfoInstr
  with e shown_step [OF ok st execSetDsInfo_shown] show ?thesis
    by (auto simp: exec_def andReturn_Ret execOK_def)
next
  case SetPktInfoInstr
  with e shown_step [OF ok st execSetPktInfo_shown] show ?thesis
    by (auto simp: exec_def andReturn_Ret execOK_def)
next
  case SetErInfoInstr
  with e shown_step [OF ok st execSetErInfo_shown] show ?thesis
    by (auto simp: exec_def andReturn_Ret execOK_def)
qed

lemma stepOK_quiet_then:
  "stepOrder vm False vm1 \<Longrightarrow> stepOK vm1 b vm' \<Longrightarrow> stepOK vm b vm'"
  by (auto simp: stepOK_def stepOrder_def split: if_splits)

lemma stepOrder_quiet_then:
  "stepOrder vm False vm1 \<Longrightarrow> stepOrder vm1 b vm' \<Longrightarrow> stepOrder vm b vm'"
  by (auto simp: stepOrder_def split: if_splits)

lemma gotoNextInstr_order:
  assumes g: "gotoNextInstr (pos vm1) = Some p"
  shows "stepOrder vm b vm1 \<longrightarrow> stepOrder vm b (vm1\<lparr>pos := p\<rparr>)"
  using g
  by (auto simp: gotoNextInstr_Some stepOrder_def headOffsetNat_def)

lemma gotoNextInstr_ok:
  assumes g: "gotoNextInstr (pos vm1) = Some p"
  shows "vmOK vm1 \<longrightarrow> vmOK (vm1\<lparr>pos := p\<rparr>)"
    and "escaped vm1 \<longrightarrow> escaped (vm1\<lparr>pos := p\<rparr>)"
    and "theState p = theState (pos vm1)"
  using g
  by (auto simp: gotoNextInstr_Some stepOrder_def vmOK_def bufOK_def headOffsetNat_def
      stateOK_def arrayFrameOK_def escaped_def split: VmState.splits)

lemma stateExecInstr_step:
  assumes r: "stateExecInstr rd src vm = Some r"
  shows "blocksInRange src \<longrightarrow> vmOK vm \<longrightarrow> theState (pos vm) = EXEC_INSTR \<longrightarrow>
           (\<forall>b vm'. r = Ret b vm' \<longrightarrow> stepOK vm b vm')"
proof (rule stateExecInstr.raw_induct
    [where P = "\<lambda>rd src vm r. blocksInRange src \<longrightarrow> vmOK vm \<longrightarrow> theState (pos vm) = EXEC_INSTR \<longrightarrow>
           (\<forall>b vm'. r = Ret b vm' \<longrightarrow> stepOK vm b vm')",
     OF _ r])
  fix f :: "IntReaderFuncs \<Rightarrow> DataSource \<Rightarrow> Vm \<Rightarrow> bool result option"
  fix rd src vm r
  assume IH: "\<And>rd src vm r. f rd src vm = Some r \<Longrightarrow>
           blocksInRange src \<longrightarrow> vmOK vm \<longrightarrow> theState (pos vm) = EXEC_INSTR \<longrightarrow>
           (\<forall>b vm'. r = Ret b vm' \<longrightarrow> stepOK vm b vm')"
  assume eq: "(case nextInstr (pos vm) of
        Inl e \<Rightarrow> Some (Throw e vm)
      | Inr instr \<Rightarrow>
          (case exec rd src instr vm of
             None \<Rightarrow> None
           | Some (Throw e vm') \<Rightarrow> Some (Throw e vm')
           | Some (Ret r vm1) \<Rightarrow>
               (case r of
                  FETCH_NEXT_INSTR_AND_STOP \<Rightarrow>
                    (case gotoNextInstr (pos vm1) of
                       None \<Rightarrow> Some (Throw AssertionFailed vm1)
                     | Some p \<Rightarrow> Some (Ret True (vm1\<lparr>pos := p\<rparr>)))
                | STOP \<Rightarrow> Some (Ret True vm1)
                | EXEC_NEXT_INSTR \<Rightarrow>
                    (case gotoNextInstr (pos vm1) of
                       None \<Rightarrow> Some (Throw AssertionFailed vm1)
                     | Some p \<Rightarrow> f rd src (vm1\<lparr>pos := p\<rparr>))
                | EXEC_CUR_INSTR \<Rightarrow> f rd src vm1
                | CHANGE_STATE \<Rightarrow> Some (Ret False vm1)))) = Some r"
  show "blocksInRange src \<longrightarrow> vmOK vm \<longrightarrow> theState (pos vm) = EXEC_INSTR \<longrightarrow>
           (\<forall>b vm'. r = Ret b vm' \<longrightarrow> stepOK vm b vm')"
  proof (intro impI allI)
    fix b vm'
    assume src: "blocksInRange src" and ok: "vmOK vm" and st: "theState (pos vm) = EXEC_INSTR"
      and ret: "r = Ret b vm'"
    from eq ret obtain instr x vm1 where
      e: "exec rd src instr vm = Some (Ret x vm1)" and
      rest: "(case x of
                  FETCH_NEXT_INSTR_AND_STOP \<Rightarrow>
                    (case gotoNextInstr (pos vm1) of
                       None \<Rightarrow> Some (Throw AssertionFailed vm1)
                     | Some p \<Rightarrow> Some (Ret True (vm1\<lparr>pos := p\<rparr>)))
                | STOP \<Rightarrow> Some (Ret True vm1)
                | EXEC_NEXT_INSTR \<Rightarrow>
                    (case gotoNextInstr (pos vm1) of
                       None \<Rightarrow> Some (Throw AssertionFailed vm1)
                     | Some p \<Rightarrow> f rd src (vm1\<lparr>pos := p\<rparr>))
                | EXEC_CUR_INSTR \<Rightarrow> f rd src vm1
                | CHANGE_STATE \<Rightarrow> Some (Ret False vm1)) = Some (Ret b vm')"
      by (auto split: sum.splits option.splits result.splits)
    from st have st': "theState (pos vm) = EXEC_INSTR \<or> theState (pos vm) = EXEC_ARRAY_INSTR"
      by simp
    from exec_step [OF src ok st' e] have x: "execOK vm x vm1" .
    show "stepOK vm b vm'"
    proof (cases x)
      case FETCH_NEXT_INSTR_AND_STOP
      with rest obtain p where g: "gotoNextInstr (pos vm1) = Some p"
        and v: "vm' = vm1\<lparr>pos := p\<rparr>" "b = True"
        by (auto split: option.splits)
      from x FETCH_NEXT_INSTR_AND_STOP st gotoNextInstr_ok [OF g] gotoNextInstr_order [OF g, of vm True] show ?thesis
        unfolding v by (auto simp: execOK_def stepOK_def)
    next
      case STOP
      with rest x st show ?thesis by (auto simp: execOK_def stepOK_def)
    next
      case CHANGE_STATE
      with rest x st show ?thesis by (auto simp: execOK_def stepOK_def)
    next
      case EXEC_CUR_INSTR
      with rest have f1: "f rd src vm1 = Some (Ret b vm')" by simp
      from x EXEC_CUR_INSTR st have o1: "stepOrder vm False vm1"
        and s1: "theState (pos vm1) = EXEC_INSTR" and k1: "vmOK vm1"
        by (auto simp: execOK_def escaped_def)
      from IH [OF f1, rule_format, OF src k1 s1 refl] o1 show ?thesis
        by (auto intro: stepOK_quiet_then)
    next
      case EXEC_NEXT_INSTR
      with rest obtain p where g: "gotoNextInstr (pos vm1) = Some p"
        and f1: "f rd src (vm1\<lparr>pos := p\<rparr>) = Some (Ret b vm')"
        by (auto split: option.splits)
      from x EXEC_NEXT_INSTR st have o1: "stepOrder vm False vm1"
        and s1: "theState (pos vm1) = EXEC_INSTR" and k1: "vmOK vm1"
        by (auto simp: execOK_def escaped_def)
      from gotoNextInstr_ok [OF g] gotoNextInstr_order [OF g, of vm False] o1 s1 k1
      have o2: "stepOrder vm False (vm1\<lparr>pos := p\<rparr>)" and k2: "vmOK (vm1\<lparr>pos := p\<rparr>)"
        and s2: "theState (pos (vm1\<lparr>pos := p\<rparr>)) = EXEC_INSTR"
        by simp_all
      from IH [OF f1, rule_format, OF src k2 s2 refl] o2 show ?thesis
        by (auto intro: stepOK_quiet_then)
    qed
  qed
qed

lemma pop_vm_ok:
  assumes ok: "vmOK vm" and af: "arrayFrameOK (pos vm)"
    and p: "setParentStateAndStackPop (pos vm) = Some p"
  shows "stepOK vm False (vm\<lparr>pos := p\<rparr>)"
proof -
  from p have ne: "stack (pos vm) \<noteq> []"
    and v: "p = (pos vm)\<lparr>theState := parentState (last (stack (pos vm))),
                          stack := butlast (stack (pos vm))\<rparr>"
    by (simp_all add: setParentStateAndStackPop_Some)
  from ok have c: "chainOK (rev (map parentState (stack (pos vm))))"
    by (simp add: vmOK_def pstates_def)
  from pop_ok(1) [OF c ne] pop_ok(3) [OF c ne af] ok have "vmOK (vm\<lparr>pos := p\<rparr>)"
    unfolding v by (simp add: vmOK_def bufOK_def pstates_def)
  moreover have "stepOrder vm False (vm\<lparr>pos := p\<rparr>)"
    unfolding v by (simp add: stepOrder_def headOffsetNat_def)
  moreover from af have "theState p \<noteq> BEGIN_PKT"
    unfolding v by (auto simp: arrayFrameOK_def)
  ultimately show ?thesis
    by (simp add: stepOK_def)
qed

lemma top_upd_ok:
  assumes ok: "vmOK vm" and ne: "stack (pos vm) \<noteq> []"
    and ps: "parentState f = parentState (last (stack (pos vm)))"
  shows "vmOK (vm\<lparr>pos := (pos vm)\<lparr>stack := butlast (stack (pos vm)) @ [f]\<rparr>\<rparr>)"
    and "arrayFrameOK (pos vm) \<longrightarrow>
         arrayFrameOK ((pos vm)\<lparr>stack := butlast (stack (pos vm)) @ [f]\<rparr>)"
  using assms map_parentState_top [OF ne ps]
  by (auto simp: vmOK_def bufOK_def stateOK_def arrayFrameOK_def pstates_def
      simp del: map_append split: VmState.splits)

lemma execArrayInstrLoop_step:
  assumes r: "execArrayInstrLoop rd src vm = Some r"
  shows "blocksInRange src \<longrightarrow> vmOK vm \<longrightarrow> theState (pos vm) = EXEC_ARRAY_INSTR \<longrightarrow>
           (\<forall>b vm'. r = Ret b vm' \<longrightarrow> stepOK vm b vm')"
proof (rule execArrayInstrLoop.raw_induct
    [where P = "\<lambda>rd src vm r. blocksInRange src \<longrightarrow> vmOK vm \<longrightarrow>
           theState (pos vm) = EXEC_ARRAY_INSTR \<longrightarrow>
           (\<forall>b vm'. r = Ret b vm' \<longrightarrow> stepOK vm b vm')",
     OF _ r])
  fix f :: "IntReaderFuncs \<Rightarrow> DataSource \<Rightarrow> Vm \<Rightarrow> bool result option"
  fix rd src vm r
  assume IH: "\<And>rd src vm r. f rd src vm = Some r \<Longrightarrow>
           blocksInRange src \<longrightarrow> vmOK vm \<longrightarrow> theState (pos vm) = EXEC_ARRAY_INSTR \<longrightarrow>
           (\<forall>b vm'. r = Ret b vm' \<longrightarrow> stepOK vm b vm')"
  assume eq: "(if stack (pos vm) = [] then Some (Throw AssertionFailed vm)
      else if it (last (stack (pos vm))) = length (proc (last (stack (pos vm)))) then
        (if \<not> remElems (last (stack (pos vm))) > 0 then Some (Throw AssertionFailed vm)
         else
           (case remElems_upd (\<lambda>n. n - 1) (pos vm) of
              None \<Rightarrow> Some (Throw AssertionFailed vm)
            | Some p1 \<Rightarrow>
                if remElems (last (stack p1)) = 0 then
                  (case setParentStateAndStackPop p1 of
                     None \<Rightarrow> Some (Throw AssertionFailed (vm\<lparr>pos := p1\<rparr>))
                   | Some p2 \<Rightarrow> Some (Ret False (vm\<lparr>pos := p2\<rparr>)))
                else
                  f rd src
                    (vm\<lparr>pos := p1\<lparr>stack := butlast (stack p1) @ [(last (stack p1))\<lparr>it := 0\<rparr>]\<rparr>\<rparr>)))
      else
        (case nextInstr (pos vm) of
           Inl e \<Rightarrow> Some (Throw e vm)
         | Inr instr \<Rightarrow>
             (case exec rd src instr vm of
                None \<Rightarrow> None
              | Some (Throw e vm') \<Rightarrow> Some (Throw e vm')
              | Some (Ret r vm1) \<Rightarrow>
                  (case r of
                     FETCH_NEXT_INSTR_AND_STOP \<Rightarrow>
                       (case gotoNextInstr (pos vm1) of
                          None \<Rightarrow> Some (Throw AssertionFailed vm1)
                        | Some p \<Rightarrow> Some (Ret True (vm1\<lparr>pos := p\<rparr>)))
                   | STOP \<Rightarrow> Some (Ret True vm1)
                   | EXEC_NEXT_INSTR \<Rightarrow>
                       (case gotoNextInstr (pos vm1) of
                          None \<Rightarrow> Some (Throw AssertionFailed vm1)
                        | Some p \<Rightarrow> f rd src (vm1\<lparr>pos := p\<rparr>))
                   | EXEC_CUR_INSTR \<Rightarrow> Some (Throw AssertionFailed vm1)
                   | CHANGE_STATE \<Rightarrow> Some (Throw AssertionFailed vm1))))) = Some r"
  show "blocksInRange src \<longrightarrow> vmOK vm \<longrightarrow> theState (pos vm) = EXEC_ARRAY_INSTR \<longrightarrow>
           (\<forall>b vm'. r = Ret b vm' \<longrightarrow> stepOK vm b vm')"
  proof (intro impI allI)
    fix b vm'
    assume src: "blocksInRange src" and ok: "vmOK vm"
      and st: "theState (pos vm) = EXEC_ARRAY_INSTR" and ret: "r = Ret b vm'"
    from eq ret have ne: "stack (pos vm) \<noteq> []"
      by (auto split: if_splits)
    from ok st have af: "arrayFrameOK (pos vm)"
      by (simp add: vmOK_def stateOK_def)
    show "stepOK vm b vm'"
    proof (cases "it (last (stack (pos vm))) = length (proc (last (stack (pos vm))))")
      case True
      let ?top = "(last (stack (pos vm)))\<lparr>remElems := remElems (last (stack (pos vm))) - 1\<rparr>"
      let ?p1 = "(pos vm)\<lparr>stack := butlast (stack (pos vm)) @ [?top]\<rparr>"
      let ?vm1 = "vm\<lparr>pos := ?p1\<rparr>"
      have p1: "remElems_upd (\<lambda>n. n - 1) (pos vm) = Some ?p1"
        using ne by (simp add: remElems_upd_def)
      have ps: "parentState ?top = parentState (last (stack (pos vm)))" by simp
      from top_upd_ok [OF ok ne ps] af have ok1: "vmOK ?vm1" and af1: "arrayFrameOK (pos ?vm1)"
        by simp_all
      have o1: "stepOrder vm False ?vm1"
        by (simp add: stepOrder_def headOffsetNat_def)
      show ?thesis
      proof (cases "remElems ?top = 0")
        case z: True
        with eq ret True ne p1 obtain p2 where
          pp: "setParentStateAndStackPop ?p1 = Some p2" and v: "vm' = vm\<lparr>pos := p2\<rparr>" "b = False"
          by (auto split: if_splits option.splits)
        from pp have pp': "setParentStateAndStackPop (pos ?vm1) = Some p2" by simp
        from pop_vm_ok [OF ok1 af1 pp'] o1 show ?thesis
          unfolding v by (auto intro: stepOK_quiet_then)
      next
        case nz: False
        let ?top2 = "?top\<lparr>it := 0\<rparr>"
        let ?vm2 = "vm\<lparr>pos := ?p1\<lparr>stack := butlast (stack ?p1) @ [?top2]\<rparr>\<rparr>"
        from eq ret True ne p1 nz have f2: "f rd src ?vm2 = Some (Ret b vm')"
          by (auto split: if_splits)
        have ne1: "stack (pos ?vm1) \<noteq> []" by simp
        have ps2: "parentState ?top2 = parentState (last (stack (pos ?vm1)))" by simp
        from top_upd_ok(1) [OF ok1 ne1 ps2] have ok2: "vmOK ?vm2" by simp
        have s2: "theState (pos ?vm2) = EXEC_ARRAY_INSTR" using st by simp
        have o2: "stepOrder vm False ?vm2"
          by (simp add: stepOrder_def headOffsetNat_def)
        from IH [OF f2, rule_format, OF src ok2 s2 refl] o2 show ?thesis
          by (auto intro: stepOK_quiet_then)
      qed
    next
      case False
      with eq ret ne obtain instr x vm1 where
        e: "exec rd src instr vm = Some (Ret x vm1)" and
        rest: "(case x of
                     FETCH_NEXT_INSTR_AND_STOP \<Rightarrow>
                       (case gotoNextInstr (pos vm1) of
                          None \<Rightarrow> Some (Throw AssertionFailed vm1)
                        | Some p \<Rightarrow> Some (Ret True (vm1\<lparr>pos := p\<rparr>)))
                   | STOP \<Rightarrow> Some (Ret True vm1)
                   | EXEC_NEXT_INSTR \<Rightarrow>
                       (case gotoNextInstr (pos vm1) of
                          None \<Rightarrow> Some (Throw AssertionFailed vm1)
                        | Some p \<Rightarrow> f rd src (vm1\<lparr>pos := p\<rparr>))
                   | EXEC_CUR_INSTR \<Rightarrow> Some (Throw AssertionFailed vm1)
                   | CHANGE_STATE \<Rightarrow> Some (Throw AssertionFailed vm1)) = Some (Ret b vm')"
        by (auto split: sum.splits option.splits result.splits if_splits)
      from st have st': "theState (pos vm) = EXEC_INSTR \<or> theState (pos vm) = EXEC_ARRAY_INSTR"
        by simp
      from exec_step [OF src ok st' e] have x: "execOK vm x vm1" .
      show ?thesis
      proof (cases x)
        case FETCH_NEXT_INSTR_AND_STOP
        with rest obtain p where g: "gotoNextInstr (pos vm1) = Some p"
          and v: "vm' = vm1\<lparr>pos := p\<rparr>" "b = True"
          by (auto split: option.splits)
        from x FETCH_NEXT_INSTR_AND_STOP st gotoNextInstr_ok [OF g]
          gotoNextInstr_order [OF g, of vm True] show ?thesis
          unfolding v by (auto simp: execOK_def stepOK_def)
      next
        case STOP
        with rest x st show ?thesis by (auto simp: execOK_def stepOK_def)
      next
        case CHANGE_STATE
        with rest show ?thesis by simp
      next
        case EXEC_CUR_INSTR
        with rest show ?thesis by simp
      next
        case EXEC_NEXT_INSTR
        with rest obtain p where g: "gotoNextInstr (pos vm1) = Some p"
          and f1: "f rd src (vm1\<lparr>pos := p\<rparr>) = Some (Ret b vm')"
          by (auto split: option.splits)
        from x EXEC_NEXT_INSTR st have o1: "stepOrder vm False vm1"
          and s1: "theState (pos vm1) = EXEC_ARRAY_INSTR" and k1: "vmOK vm1"
          by (auto simp: execOK_def escaped_def)
        from gotoNextInstr_ok [OF g] gotoNextInstr_order [OF g, of vm False] o1 s1 k1
        have o2: "stepOrder vm False (vm1\<lparr>pos := p\<rparr>)" and k2: "vmOK (vm1\<lparr>pos := p\<rparr>)"
          and s2: "theState (pos (vm1\<lparr>pos := p\<rparr>)) = EXEC_ARRAY_INSTR"
          by simp_all
        from IH [OF f1, rule_format, OF src k2 s2 refl] o2 show ?thesis
          by (auto intro: stepOK_quiet_then)
      qed
    qed
  qed
qed

lemma stateExecArrayInstr_step:
  assumes src: "blocksInRange src" and ok: "vmOK vm"
    and st: "theState (pos vm) = EXEC_ARRAY_INSTR"
    and r: "stateExecArrayInstr rd src vm = Some (Ret b vm')"
  shows "stepOK vm b vm'"
proof (cases "stack (pos vm) \<noteq> [] \<and> remElems (last (stack (pos vm))) = 0")
  case True
  with r obtain p where p: "setParentStateAndStackPop (pos vm) = Some p"
    and v: "vm' = vm\<lparr>pos := p\<rparr>" "b = False"
    by (auto simp: stateExecArrayInstr_def andReturn_Ret withPos_Ret)
  from ok st have af: "arrayFrameOK (pos vm)"
    by (simp add: vmOK_def stateOK_def)
  from pop_vm_ok [OF ok af p] show ?thesis
    unfolding v by simp
next
  case False
  with r have "execArrayInstrLoop rd src vm = Some (Ret b vm')"
    by (auto simp: stateExecArrayInstr_def split: if_splits)
  from execArrayInstrLoop_step [OF this] src ok st show ?thesis by simp
qed

lemma stateSetPktUuid_step:
  assumes ok: "vmOK vm" and st: "theState (pos vm) = SET_TRACE_TYPE_UUID"
    and r: "stateSetPktUuid vm = Some (Ret b vm')"
  shows "stepOrder vm b vm' \<and> vmOK vm'"
proof -
  let ?vm1 = "updateItCurOffset E_traceTypeUuid
                (elems_upd (\<lambda>e. e\<lparr>traceTypeUuid_uuid := uuid (pos vm)\<rparr>) vm)"
  from r obtain p where p: "setParentStateAndStackPop (pos ?vm1) = Some p"
    and v: "vm' = ?vm1\<lparr>pos := p\<rparr>" "b = True"
    by (auto simp: stateSetPktUuid_def andReturn_Ret withPos_Ret split: if_splits)
  from ok st have ok1: "vmOK ?vm1" and af1: "arrayFrameOK (pos ?vm1)"
    by (simp_all add: vmOK_def bufOK_def stateOK_def arrayFrameOK_def pstates_def upd_defs)
  from ok have o1: "stepOrder vm True ?vm1"
    by (auto simp: vmOK_def bufOK_def stepOrder_def headOffsetNat_def upd_defs
        headOffsetInElemSeqBits_def unat_add_lem [THEN iffD1])
  from pop_vm_ok [OF ok1 af1 p] o1 show ?thesis
    unfolding v by (auto simp: stepOrder_def stepOK_def)
qed

lemma stateReadUuidByte_step:
  assumes src: "blocksInRange src" and ok: "vmOK vm" and st: "theState (pos vm) = READ_UUID_BYTE"
    and r: "stateReadUuidByte rd src vm = Some (Ret b vm')"
  shows "stepOK vm b vm'"
proof (cases "remElems (last (stack (pos vm))) = 0")
  case True
  with r have "vm' = state_upd SET_TRACE_TYPE_UUID vm" "b = False"
    by (auto simp: stateReadUuidByte_def split: if_splits)
  with ok st show ?thesis
    by (auto simp: vmOK_def bufOK_def stateOK_def arrayFrameOK_def pstates_def upd_defs
        stepOrder_def headOffsetNat_def stepOK_def)
next
  case False
  with r obtain dt align bo vm1 p where
    e: "execReadStdInt rd src UINT 8 dt align bo vm = Some (Ret () vm1)"
    and ne: "stack (pos vm1) \<noteq> []"
    and v: "vm' = vm1\<lparr>pos := (pos vm1)\<lparr>uuid :=
                 (uuid (pos vm1))[unat (16 - remElems (last (stack (pos vm1)))) :=
                    ucast (lastIntVal (pos vm1))],
               stack := butlast (stack (pos vm1))
                 @ [(last (stack (pos vm1)))\<lparr>remElems := remElems (last (stack (pos vm1))) - 1\<rparr>]\<rparr>\<rparr>"
       "b = True"
    by (auto simp: stateReadUuidByte_def bindR_Ret andReturn_Ret withPos_Ret remElems_upd_Some
        Let_def split: if_splits sum.splits Instr.splits)
  from st have st': "theState (pos vm) = EXEC_INSTR \<or> theState (pos vm) = EXEC_ARRAY_INSTR
             \<or> theState (pos vm) = READ_UUID_BYTE" by simp
  from execReadStdInt_step [OF src ok st' e] st ne show ?thesis
    unfolding v
    by (auto simp: vmOK_def bufOK_def stateOK_def arrayFrameOK_def pstates_def
        stepOrder_def headOffsetNat_def stepOK_def)
qed

lemma stateBeginEr_step:
  assumes src: "blocksInRange src" and ok: "vmOK vm" and st: "theState (pos vm) = BEGIN_ER"
    and r: "stateBeginEr src vm = Some (Ret b vm')"
  shows "stepOK vm b vm'"
proof -
  from ok have okb: "bufOK vm" by (simp add: vmOK_def)
  from r obtain d where d: "curDsPktProc (pos vm) = Some d"
    by (auto simp: stateBeginEr_def split: option.splits)
  let ?probe = "if curExpectedPktContentLenBits (pos vm) = SIZE_UNSET then
                   (if remBitsInBuf vm = 0 then tryHaveBits src 1 vm else Ret True vm)
                 else Ret (remContentBitsInPkt (pos vm) \<noteq> 0) vm"
  from r d obtain x vm1 where pr: "?probe = Ret x vm1"
    by (auto simp: stateBeginEr_def Let_def split: result.splits)
  then have a1: "advanced vm vm1"
    using tryHaveBits_advanced [OF src okb] advanced_refl [OF okb]
    by (auto split: if_splits)
  show ?thesis
  proof (cases x)
    case False
    with r d pr have "vm' = state_upd END_PKT_CONTENT vm1" "b = False"
      by (auto simp: stateBeginEr_def Let_def)
    with a1 ok st show ?thesis
      by (auto simp: upd_defs ok_defs pstates_def stepOK_def)
  next
    case True
    with r d pr have
      "bindR (alignHead src (erAlign d) vm1) (\<lambda>_ vm2.
                   bindR (withPos (loadNewProc (erPreambleProc d))
                            (updateItCurOffset E_erBeginning vm2)) (\<lambda>_ vm3.
                     Some (Ret True (state_upd EXEC_INSTR vm3)))) = Some (Ret b vm')"
      by (auto simp: stateBeginEr_def Let_def)
    moreover from a1 have "bufOK vm1" by (simp add: advanced_def)
    ultimately show ?thesis using src
    proof (elim bindR_alignHeadE)
      fix vm2
      assume "bindR (withPos (loadNewProc (erPreambleProc d))
                            (updateItCurOffset E_erBeginning vm2)) (\<lambda>_ vm3.
                     Some (Ret True (state_upd EXEC_INSTR vm3))) = Some (Ret b vm')"
        and "advanced vm1 vm2"
      with a1 ok st show ?thesis
        by (auto simp: upd_defs ok_defs pstates_def bindR_Ret withPos_Ret loadNewProc_Some
            stepOK_def)
    qed
  qed
qed

lemma stateReadSubstr_step:
  assumes src: "blocksInRange src" and ok: "vmOK vm" and st: "theState (pos vm) = READ_SUBSTR"
    and r: "stateReadSubstr src vm = Some (Ret b vm')"
  shows "stepOK vm b vm'"
proof (cases "remElems (last (stack (pos vm))) = 0")
  case True
  with r obtain p where p: "setParentStateAndStackPop (pos vm) = Some p"
    and v: "vm' = vm\<lparr>pos := p\<rparr>" "b = False"
    by (auto simp: stateReadSubstr_def andReturn_Ret withPos_Ret split: if_splits)
  from ok st have af: "arrayFrameOK (pos vm)"
    by (simp add: vmOK_def stateOK_def)
  from pop_vm_ok [OF ok af p] show ?thesis
    unfolding v by simp
next
  case False
  from ok have okb: "bufOK vm" by (simp add: vmOK_def)
  from r False obtain vm1 k b0 e0 vm3 p where
    q: "requireContentBits src 8 vm = Ret () vm1"
    and c: "consumeExistingBits (k * 8)
              (updateItCurOffset E_substr
                 (elems_upd (\<lambda>e. e\<lparr>substr_begin := b0, substr_end := e0\<rparr>) vm1)) = Ret () vm3"
    and u: "remElems_upd (\<lambda>n. n - k) (pos vm3) = Some p"
    and v: "vm' = vm3\<lparr>pos := p\<rparr>" "b = True"
    by (auto simp: stateReadSubstr_def bindR_Ret andReturn_Ret withPos_Ret Let_def
        split: if_splits)
  from requireContentBits_advanced [OF src okb q] have a1: "advanced vm vm1" .
  let ?vm2 = "updateItCurOffset E_substr
                 (elems_upd (\<lambda>e. e\<lparr>substr_begin := b0, substr_end := e0\<rparr>) vm1)"
  from a1 have ok2: "bufOK ?vm2"
    by (auto simp: advanced_def bufOK_def upd_defs)
  from consumeExistingBits_advanced [OF ok2 c] have a3: "advanced ?vm2 vm3" .
  from a1 a3 ok st u show ?thesis
    unfolding v
    by (auto simp: remElems_upd_Some upd_defs ok_defs pstates_def stepOK_def)
qed

lemma stateReadSubstrUntilNull_step:
  assumes src: "blocksInRange src" and ok: "vmOK vm"
    and st: "theState (pos vm) = READ_SUBSTR_UNTIL_NULL"
    and r: "stateReadSubstrUntilNull src vm = Ret b vm'"
  shows "stepOK vm b vm'"
proof -
  from ok have okb: "bufOK vm" by (simp add: vmOK_def)
  from r obtain vm1 k b0 e0 s where
    q: "requireContentBits src 8 vm = Ret () vm1"
    and c: "consumeExistingBits k
              (updateItCurOffset E_substr
                 (state_upd s
                    (elems_upd (\<lambda>e. e\<lparr>substr_begin := b0, substr_end := e0\<rparr>) vm1))) = Ret () vm'"
    and s: "s = END_STR \<or> s = theState (pos vm1)"
    and v: "b = True"
  proof -
    from r obtain vm1 where q: "requireContentBits src 8 vm = Ret () vm1"
      by (auto simp: stateReadSubstrUntilNull_def split: if_splits result.splits)
    let ?buf = "bufAtHead vm1"
    let ?n = "remBitsInBuf vm1 div 8"
    let ?res = "memchr (bufMem vm1) ?buf 0 (unat ?n)"
    let ?end = "case ?res of Some r \<Rightarrow> r + 1 | None \<Rightarrow> ?buf + uint ?n"
    let ?vm2 = "elems_upd (\<lambda>e. e\<lparr>substr_begin := ?buf, substr_end := ?end\<rparr>) vm1"
    let ?s = "if ?res \<noteq> None then END_STR else theState (pos vm1)"
    have e: "(if ?res \<noteq> None then state_upd END_STR ?vm2 else ?vm2) = state_upd ?s ?vm2"
      by (simp add: state_upd_def elems_upd_def)
    from r q have "consumeExistingBits (word_of_int (?end - ?buf) * 8)
              (updateItCurOffset E_substr
                 (if ?res \<noteq> None then state_upd END_STR ?vm2 else ?vm2)) = Ret () vm' \<and> b = True"
      by (auto simp: stateReadSubstrUntilNull_def Let_def split: if_splits result.splits)
    then have "consumeExistingBits (word_of_int (?end - ?buf) * 8)
              (updateItCurOffset E_substr (state_upd ?s ?vm2)) = Ret () vm'" and "b = True"
      by (simp_all only: e)
    moreover have "?s = END_STR \<or> ?s = theState (pos vm1)" by simp
    ultimately show ?thesis using q that by blast
  qed
  from requireContentBits_advanced [OF src okb q] have a1: "advanced vm vm1" .
  let ?vm2 = "updateItCurOffset E_substr
                 (state_upd s
                    (elems_upd (\<lambda>e. e\<lparr>substr_begin := b0, substr_end := e0\<rparr>) vm1))"
  from a1 have ok2: "bufOK ?vm2"
    by (auto simp: advanced_def bufOK_def upd_defs)
  from consumeExistingBits_advanced [OF ok2 c] have a3: "advanced ?vm2 vm'" .
  from a1 a3 ok st s show ?thesis
    unfolding v
    by (auto simp: upd_defs ok_defs pstates_def stepOK_def)
qed

lemma stateContinueSkipPaddingBits_step:
  assumes src: "blocksInRange src" and ok: "vmOK vm"
    and st: "theState (pos vm) = CONTINUE_SKIP_PADDING_BITS"
    and r: "stateContinueSkipPaddingBits src vm = Some (Ret b vm')"
  shows "stepOK vm b vm'"
proof -
  from ok have okb: "bufOK vm" by (simp add: vmOK_def)
  from r obtain r0 where k0: "continueSkipPaddingBits src
              (theState (pos vm) = CONTINUE_SKIP_CONTENT_PADDING_BITS) vm = Some r0"
    and c0: "(case r0 of
         Throw e vm' \<Rightarrow> Some (Throw e vm')
       | Ret _ vm1 \<Rightarrow> Some (Ret False (state_upd (postSkipBitsState (pos vm1)) vm1)))
        = Some (Ret b vm')"
    by (auto simp: stateContinueSkipPaddingBits_def bind_eq_Some_conv)
  then obtain vm1 where k: "continueSkipPaddingBits src
              (theState (pos vm) = CONTINUE_SKIP_CONTENT_PADDING_BITS) vm = Some (Ret () vm1)"
    and v: "vm' = state_upd (postSkipBitsState (pos vm1)) vm1" "b = False"
    by (cases r0) auto
  note p = skip_partial [OF k, rule_format, OF refl]
  from skip_iter [OF k] have i: "iter vm1 = iter vm" by simp
  from skip_bufOK [OF k] src okb have b1: "bufOK vm1"
    and h1: "unat (headOffsetInCurPktBits (pos vm1))
               = unat (headOffsetInCurPktBits (pos vm)) + unat (remBitsToSkip (pos vm))"
    by simp_all
  from ok st p i b1 h1 show ?thesis
    unfolding v
    by (auto simp: upd_defs vmOK_def stepOrder_def bufOK_def headOffsetNat_def stateOK_def
        pstates_def stepOK_def)
qed

lemma and7_of_sum:
  fixes c h :: "64 word"
  assumes "c AND 7 = 0" and "(c + h) AND 7 = 0" and "unat c + unat h < 2 ^ 64"
  shows "h AND 7 = 0"
proof -
  from assms(3) have s: "unat (c + h) = unat c + unat h"
    by (simp add: unat_add_lem [THEN iffD1])
  from assms(1) have "unat c mod 8 = 0"
    using unat_and7 [of c] by simp
  moreover from assms(2) have "(unat c + unat h) mod 8 = 0"
    using unat_and7 [of "c + h"] s by simp
  ultimately have "unat h mod 8 = 0"
    by presburger
  then have "unat (h AND 7) = 0"
    by (simp add: unat_and7)
  then show ?thesis
    by (simp add: unat_eq_0)
qed

lemma stateEndPkt_step:
  assumes ok: "vmOK vm" and st: "theState (pos vm) = END_PKT"
    and r: "stateEndPkt vm = Ret b vm'"
  shows "stepOrder vm b vm' \<and> vmOK vm'"
proof -
  let ?c = "curPktOffsetInElemSeqBits (pos vm)"
  let ?h = "headOffsetInCurPktBits (pos vm)"
  let ?t = "curExpectedPktTotalLenBits (pos vm)"
  let ?o = "bufOffsetInCurPktBits vm"
  from ok have okb: "bufOK vm" and ch: "chainOK (pstates (pos vm))"
    by (simp_all add: vmOK_def)
  from okb have nw: "unat ?c + unat ?h < 2 ^ 64" and c7: "?c AND 7 = 0" and o7: "?o AND 7 = 0"
    by (simp_all add: bufOK_def)
  from nw have s: "unat (?c + ?h) = unat ?c + unat ?h"
    by (simp add: unat_add_lem [THEN iffD1])
  from r have a7: "(?c + ?h) AND 7 = 0"
    by (auto simp: stateEndPkt_def Let_def headOffsetInElemSeqBits_def split: if_splits)
  from and7_of_sum [OF c7 a7 nw] have h7: "?h AND 7 = 0" .
  show ?thesis
  proof (cases "?t = SIZE_UNSET")
    case True
    with r a7 have v: "vm' = state_upd BEGIN_PKT (updateIt E_end (?c + ?h)
        (resetBuffer (vm\<lparr>pos := (pos vm)\<lparr>curPktOffsetInElemSeqBits := ?c + ?h,
                                         headOffsetInCurPktBits := 0\<rparr>\<rparr>)))" "b = True"
      by (auto simp: stateEndPkt_def Let_def headOffsetInElemSeqBits_def split: if_splits)
    from ch a7 s nw show ?thesis
      unfolding v
      by (simp add: state_upd_def updateIt_def resetBuffer_def vmOK_def stepOrder_def bufOK_def
          headOffsetNat_def stateOK_def pstates_def)
  next
    case False
    with ok st have ht: "?h = ?t"
      by (simp add: vmOK_def stateOK_def)
    let ?len = "bufLenBits vm - word_of_int (bufAddr vm - uint (?o div 8) + uint (?t div 8)
                   - bufAddr vm) * 8"
    from r False a7 have v: "vm' = state_upd BEGIN_PKT (updateIt E_end (?c + ?h)
        (vm\<lparr>pos := (pos vm)\<lparr>curPktOffsetInElemSeqBits := ?c + ?h, headOffsetInCurPktBits := 0\<rparr>,
            bufAddr := bufAddr vm - uint (?o div 8) + uint (?t div 8),
            bufOffsetInCurPktBits := 0, bufLenBits := ?len\<rparr>))" "b = True"
      by (auto simp: stateEndPkt_def Let_def headOffsetInElemSeqBits_def split: if_splits)
    have "word_of_int (bufAddr vm - uint (?o div 8) + uint (?t div 8) - bufAddr vm)
            = ?t div 8 - ?o div 8"
      by simp
    then have "?len = bufLenBits vm - (?t div 8 - ?o div 8) * 8"
      by (simp only:)
    also have "\<dots> = bufLenBits vm - (?t div 8 * 8 - ?o div 8 * 8)"
      by (simp add: algebra_simps)
    also have "\<dots> = bufLenBits vm - (?h - ?o)"
      using h7 o7 ht by (simp add: div8_mult8)
    also have "\<dots> = remBitsInBuf vm"
      by (simp add: remBitsInBuf_def)
    finally have l: "unat ?len = unat ?o + unat (bufLenBits vm) - unat ?h"
      by (simp add: bufOK_remBitsInBuf [OF okb])
    from okb l have "unat ?c + unat ?h + unat ?len < 2 ^ 64"
      by (auto simp: bufOK_def)
    with ch a7 s show ?thesis
      unfolding v
      by (simp add: state_upd_def updateIt_def vmOK_def stepOrder_def bufOK_def
          headOffsetNat_def stateOK_def pstates_def)
  qed
qed

lemma stateBeginPkt_step:
  assumes src: "blocksInRange src" and ok: "vmOK vm" and st: "theState (pos vm) = BEGIN_PKT"
    and r: "stateBeginPkt src vm = Ret b vm'"
  shows "b \<and> beginOrder vm vm'"
proof -
  let ?vm2 = "(resetItMark vm)\<lparr>pos := resetForNewPkt (pos (resetItMark vm))\<rparr>"
  from ok st have h0: "headOffsetInCurPktBits (pos vm) = 0"
    by (simp add: vmOK_def stateOK_def)
  with ok have ok2: "bufOK ?vm2"
    by (simp add: vmOK_def bufOK_def resetItMark_def resetForNewPkt_def)
  let ?probe = "if remBitsInBuf ?vm2 = 0 then tryHaveBits src 1 ?vm2 else Ret True ?vm2"
  from r obtain x vm3 where pr: "?probe = Ret x vm3"
    by (auto simp: stateBeginPkt_def Let_def split: result.splits)
  then have a3: "advanced ?vm2 vm3"
    using tryHaveBits_advanced [OF src ok2] advanced_refl [OF ok2]
    by (auto split: if_splits)
  from pr have p3: "pos vm3 = pos ?vm2"
    by (auto dest: tryHaveBits_pos split: if_splits)
  show ?thesis
  proof (cases x)
    case False
    with r pr have "vm' = setItEnd vm3" "b = True"
      by (auto simp: stateBeginPkt_def Let_def)
    then show ?thesis
      by (simp add: beginOrder_def atEnd_def setItEnd_def)
  next
    case True
    with r pr obtain p where
      l: "loadNewProc (preambleProc (pktProc (pos (updateItCurOffset E_pktBeginning vm3))))
            (pos (updateItCurOffset E_pktBeginning vm3)) = Some p"
      and v: "vm' = state_upd BEGIN_PKT_CONTENT ((updateItCurOffset E_pktBeginning vm3)\<lparr>pos := p\<rparr>)"
         "b = True"
      by (auto simp: stateBeginPkt_def Let_def split: option.splits)
    from a3 l h0 p3 show ?thesis
      unfolding v
      by (auto simp: loadNewProc_Some beginOrder_def upd_defs ok_defs pstates_def
          resetItMark_def resetForNewPkt_def)
  qed
qed

lemma handleState_step:
  assumes src: "blocksInRange src" and ok: "vmOK vm"
    and r: "handleState rd src vm = Some (Ret b vm')"
  shows "nextOrder vm b vm'"
proof (cases "theState (pos vm)")
  case BEGIN_PKT
  with r stateBeginPkt_step [OF src ok] show ?thesis
    by (simp add: handleState_def nextOrder_def)
next
  case BEGIN_PKT_CONTENT
  with r stateBeginPktContent_step [OF ok] show ?thesis
    by (auto simp: handleState_def nextOrder_def stepOK_def stateBeginPktContent_def)
next
  case END_PKT_CONTENT
  with r stateEndPktContent_step [OF ok] show ?thesis
    by (auto simp: handleState_def nextOrder_def stepOK_def stateEndPktContent_def Let_def)
next
  case END_PKT
  with r stateEndPkt_step [OF ok] show ?thesis
    by (auto simp: handleState_def nextOrder_def stepOK_def stateEndPkt_def Let_def
        split: if_splits)
next
  case BEGIN_ER
  with r stateBeginEr_step [OF src ok] show ?thesis
    by (simp add: handleState_def nextOrder_def)
next
  case END_ER
  with r stateEndEr_step [OF ok] show ?thesis
    by (auto simp: handleState_def nextOrder_def stepOK_def stateEndEr_def split: if_splits)
next
  case EXEC_INSTR
  with r stateExecInstr_step [of rd src vm "Ret b vm'"] src ok show ?thesis
    by (simp add: handleState_def nextOrder_def)
next
  case EXEC_ARRAY_INSTR
  with r stateExecArrayInstr_step [OF src ok] show ?thesis
    by (simp add: handleState_def nextOrder_def)
next
  case READ_UUID_BYTE
  with r stateReadUuidByte_step [OF src ok] show ?thesis
    by (simp add: handleState_def nextOrder_def)
next
  case READ_SUBSTR_UNTIL_NULL
  with r stateReadSubstrUntilNull_step [OF src ok, of b vm'] show ?thesis
    by (simp add: handleState_def nextOrder_def)
next
  case READ_SUBSTR
  with r stateReadSubstr_step [OF src ok] show ?thesis
    by (simp add: handleState_def nextOrder_def)
next
  case END_STR
  with r stateEndStr_step [OF ok] show ?thesis
    by (auto simp: handleState_def nextOrder_def stepOK_def stateEndStr_def Let_def
        split: if_splits)
next
  case SET_TRACE_TYPE_UUID
  with r stateSetPktUuid_step [OF ok, of b vm'] show ?thesis
    by (auto simp: handleState_def nextOrder_def stepOK_def stateSetPktUuid_def andReturn_Ret
        split: if_splits)
next
  case CONTINUE_SKIP_PADDING_BITS
  with r stateContinueSkipPaddingBits_step [OF src ok] show ?thesis
    by (simp add: handleState_def nextOrder_def)
next
  case CONTINUE_SKIP_CONTENT_PADDING_BITS
  with ok show ?thesis
    by (simp add: vmOK_def stateOK_def)
qed

lemma nextElem_step:
  assumes r: "nextElem rd src vm = Some r"
  shows "blocksInRange src \<longrightarrow> vmOK vm \<longrightarrow>
           (\<forall>u vm'. r = Ret u vm' \<longrightarrow> nextOrder vm True vm')"
proof (rule nextElem.raw_induct
    [where P = "\<lambda>rd src vm r. blocksInRange src \<longrightarrow> vmOK vm \<longrightarrow>
           (\<forall>u vm'. r = Ret u vm' \<longrightarrow> nextOrder vm True vm')", OF _ r])
  fix f :: "IntReaderFuncs \<Rightarrow> DataSource \<Rightarrow> Vm \<Rightarrow> unit result option"
  fix rd src vm r
  assume IH: "\<And>rd src vm r. f rd src vm = Some r \<Longrightarrow> blocksInRange src \<longrightarrow> vmOK vm \<longrightarrow>
           (\<forall>u vm'. r = Ret u vm' \<longrightarrow> nextOrder vm True vm')"
  assume eq: "(case handleState rd src vm of
        None \<Rightarrow> None
      | Some (Throw e vm') \<Rightarrow> Some (Throw e vm')
      | Some (Ret b vm1) \<Rightarrow> if b then Some (Ret () vm1) else f rd src vm1) = Some r"
  show "blocksInRange src \<longrightarrow> vmOK vm \<longrightarrow>
           (\<forall>u vm'. r = Ret u vm' \<longrightarrow> nextOrder vm True vm')"
  proof (intro impI allI)
    fix u vm'
    assume src: "blocksInRange src" and ok: "vmOK vm" and ret: "r = Ret u vm'"
    from eq ret obtain b vm1 where h: "handleState rd src vm = Some (Ret b vm1)"
      and rest: "(if b then Some (Ret () vm1) else f rd src vm1) = Some (Ret u vm')"
      by (auto split: option.splits result.splits)
    from handleState_step [OF src ok h] have n: "nextOrder vm b vm1" .
    show "nextOrder vm True vm'"
    proof (cases b)
      case True
      with rest n show ?thesis by simp
    next
      case False
      with rest have f1: "f rd src vm1 = Some (Ret u vm')" by simp
      from n False have nb: "theState (pos vm) \<noteq> BEGIN_PKT"
        and s: "stepOK vm False vm1"
        by (auto simp: nextOrder_def split: if_splits)
      then have ok1: "vmOK vm1" and nb1: "theState (pos vm1) \<noteq> BEGIN_PKT"
        and o: "stepOrder vm False vm1"
        by (simp_all add: stepOK_def)
      from IH [OF f1, rule_format, OF src ok1 refl] nb1 have "stepOK vm1 True vm'"
        by (simp add: nextOrder_def)
      from stepOK_quiet_then [OF o this] nb show ?thesis
        by (simp add: nextOrder_def)
    qed
  qed
qed

lemma Vm_init_ok: "vmOK (Vm_init pp) \<and> itOK (Vm_init pp)"
  by (simp add: Vm_init_def VmPos_init_def vmOK_def itOK_def bufOK_def stateOK_def
      pstates_def headOffsetNat_def)

lemma nextElem_order:
  assumes src: "blocksInRange src" and ok: "vmOK vm" and it: "itOK vm"
    and r: "nextElem rd src vm = Some (Ret () vm')"
  shows "(theState (pos vm) \<noteq> BEGIN_PKT \<longrightarrow>
            it_mark (iter vm') = it_mark (iter vm) + 1
            \<and> (it_mark (iter vm) \<noteq> - 1 \<longrightarrow> it_mark (iter vm) < it_mark (iter vm'))
            \<and> unat (it_offset (iter vm)) \<le> unat (it_offset (iter vm'))
            \<and> itOK vm' \<and> (vmOK vm' \<or> escaped vm'))
         \<and> (theState (pos vm) = BEGIN_PKT \<longrightarrow>
              atEnd vm'
              \<or> it_mark (iter vm') = 1
                 \<and> unat (it_offset (iter vm)) \<le> unat (it_offset (iter vm'))
                 \<and> unat (it_offset (iter vm')) = headOffsetNat vm
                 \<and> itOK vm' \<and> vmOK vm')"
proof -
  from nextElem_step [OF r] src ok have n: "nextOrder vm True vm'" by simp
  have m: "x < x + 1" if "x \<noteq> - 1" for x :: "64 word"
  proof -
    from that have "unat x \<noteq> unat (- 1 :: 64 word)"
      by (simp only: word_unat_eq_iff not_False_eq_True)
    moreover have "unat x < 2 ^ 64"
      using unsigned_less [of x, where 'a = nat] by simp
    moreover have "unat (- 1 :: 64 word) = 2 ^ 64 - 1"
      by (simp add: unsigned_minus_1_eq_mask mask_eq_exp_minus_1)
    ultimately have "unat x + unat (1 :: 64 word) < 2 ^ 64"
      by simp
    then have "unat (x + 1) = unat x + 1"
      by (simp add: unat_add_lem [THEN iffD1])
    then show ?thesis
      by (simp add: word_less_nat_alt)
  qed
  from n it m show ?thesis
    by (auto simp: nextOrder_def stepOK_def stepOrder_def beginOrder_def itOK_def)
qed

lemma blocksInRange_example: "blocksInRange (chunkSrc [[0x2A, 0x2B]])"
  by (auto simp: blocksInRange_def chunkSrc_def split: if_splits)

lemma exampleEndPktVm_ok: "vmOK exampleEndPktVm \<and> itOK exampleEndPktVm"
  by (simp add: exampleEndPktVm_def VmPos_init_def vmOK_def itOK_def bufOK_def stateOK_def
      pstates_def headOffsetNat_def)

lemmas boundary_eval = exampleEndPktVm_def stateEndPkt_def stateBeginPkt_def Let_def
  headOffsetInElemSeqBits_def VmPos_init_def SIZE_UNSET_def updateIt_def state_upd_def
  resetItMark_def resetForNewPkt_def remBitsInBuf_def updateItCurOffset_def
  loadNewProc_def stackPush_def examplePktProc_def

lemma nextElem_shown:
  "handleState rd src vm = Some (Ret True vm') \<Longrightarrow> nextElem rd src vm = Some (Ret () vm')"
  by (subst nextElem.simps) simp

lemma example_next_end:
  "nextElem exampleReaderFuncs (chunkSrc [[0x2A, 0x2B]]) exampleEndPktVm
     = Some (Ret () (resVm (stateEndPkt exampleEndPktVm)))"
  by (rule nextElem_shown) (simp add: handleState_def boundary_eval)

lemma example_next_begin:
  "nextElem exampleReaderFuncs (chunkSrc [[0x2A, 0x2B]]) (resVm (stateEndPkt exampleEndPktVm))
     = Some (Ret () (resVm (stateBeginPkt (chunkSrc [[0x2A, 0x2B]])
                       (resVm (stateEndPkt exampleEndPktVm)))))"
  by (rule nextElem_shown) (simp add: handleState_def boundary_eval)

text \<open>
  C3, as the specification states it, fails at a packet boundary. From a VM at the end of
  a first packet of 8 bits, \<^verbatim>\<open>nextElem\<close> shows the element which ends this packet at
  offset 8 with mark 7; the next call shows the element which begins the second packet at
  offset 8 as well, with mark 1: neither the offset nor the mark is greater.
\<close>

theorem element_order_counterexample:
  "nextElem exampleReaderFuncs (chunkSrc [[0x2A, 0x2B]]) exampleEndPktVm
     = Some (Ret () (resVm (stateEndPkt exampleEndPktVm)))
   \<and> it_offset (iter (resVm (stateEndPkt exampleEndPktVm))) = 8
   \<and> it_mark (iter (resVm (stateEndPkt exampleEndPktVm))) = 7
   \<and> nextElem exampleReaderFuncs (chunkSrc [[0x2A, 0x2B]]) (resVm (stateEndPkt exampleEndPktVm))
     = Some (Ret () (resVm (stateBeginPkt (chunkSrc [[0x2A, 0x2B]])
                       (resVm (stateEndPkt exampleEndPktVm)))))
   \<and> it_curElem (iter (resVm (stateBeginPkt (chunkSrc [[0x2A, 0x2B]])
          (resVm (stateEndPkt exampleEndPktVm))))) = Some E_pktBeginning
   \<and> it_offset (iter (resVm (stateBeginPkt (chunkSrc [[0x2A, 0x2B]])
          (resVm (stateEndPkt exampleEndPktVm))))) = 8
   \<and> it_mark (iter (resVm (stateBeginPkt (chunkSrc [[0x2A, 0x2B]])
          (resVm (stateEndPkt exampleEndPktVm))))) = 1
   \<and> \<not> (it_offset (iter (resVm (stateEndPkt exampleEndPktVm)))
          < it_offset (iter (resVm (stateBeginPkt (chunkSrc [[0x2A, 0x2B]])
              (resVm (stateEndPkt exampleEndPktVm)))))
        \<or> it_mark (iter (resVm (stateEndPkt exampleEndPktVm)))
          < it_mark (iter (resVm (stateBeginPkt (chunkSrc [[0x2A, 0x2B]])
              (resVm (stateEndPkt exampleEndPktVm))))))"
  using example_next_end example_next_begin
  by (simp add: boundary_eval)

lemmas run_eval = exampleRun_def itPos_def byteHeaderPktProc_def exampleReaderFuncs_def
  Vm_init_def VmPos_init_def Elems_init_def SIZE_UNSET_def chunkSrc_def
  nextElem.simps handleState_def stateBeginPkt_def stateBeginPktContent_def
  stateEndPktContent_def stateEndPkt_def stateExecInstr.simps exec_def nextInstr_def
  execBeginReadScope_def execEndReadScope_def execReadBitArray_def execReadStdInt_def
  readStdInt_def execReadBitArrayPreamble_def alignHead_def requireContentBits_def
  requireBits_def tryHaveBits_def newDataBlock_def consumeExistingBits_def setIntElem_def
  stdFunc_def exampleReaders_def execEndPktPreambleProc_def popLastFrame_def
  bindR_def withPos_def andReturn_def gotoNextInstr_def stackPop_def stackPush_def
  loadNewProc_def resetItMark_def resetForNewPkt_def resetBuffer_def setItEnd_def
  updateIt_def updateItCurOffset_def state_upd_def elems_upd_def remBitsInBuf_def
  remContentBitsInPkt_def headOffsetInElemSeqBits_def bufAtHead_def Let_def

lemma nextElems_numeral:
  "nextElems rd src (numeral k) vm = nextElems rd src (Suc (pred_numeral k)) vm"
  by (simp only: numeral_eq_Suc)

lemma run1: "itPos (exampleRun 1) = Some (Some E_pktBeginning, 0, 1)"
  by (simp add: run_eval)

lemma run2: "itPos (exampleRun 2) = Some (Some E_pktContentBeginning, 0, 2)"
  by (simp add: run_eval nextElems_numeral)

lemma run_invariant:
  assumes src: "blocksInRange src"
  shows "nextElems rd src n (Vm_init pp) = Some vm \<Longrightarrow>
         (\<forall>m \<le> n. \<forall>vm0. nextElems rd src m (Vm_init pp) = Some vm0 \<longrightarrow>
            \<not> atEnd vm0 \<and> \<not> escaped vm0) \<Longrightarrow>
         vmOK vm \<and> itOK vm"
proof (induction n arbitrary: vm)
  case 0
  then show ?case using Vm_init_ok [of pp] by simp
next
  case (Suc n)
  from Suc.prems(1) obtain vm1 u where
    r1: "nextElems rd src n (Vm_init pp) = Some vm1" and
    n1: "nextElem rd src vm1 = Some (Ret u vm)"
    by (auto split: option.splits result.splits)
  from Suc.prems(2) have "\<forall>m \<le> n. \<forall>vm0. nextElems rd src m (Vm_init pp) = Some vm0 \<longrightarrow>
            \<not> atEnd vm0 \<and> \<not> escaped vm0"
    by (metis le_SucI)
  from Suc.IH [OF r1 this] have ok1: "vmOK vm1" and it1: "itOK vm1" by simp_all
  from Suc.prems have ne: "\<not> atEnd vm" "\<not> escaped vm"
    by (metis order_refl)+
  from nextElem_order [OF src ok1 it1] n1 ne show ?case
    by (cases "theState (pos vm1) = BEGIN_PKT") auto
qed

text \<open>
  C3, amended. Take a run of \<open>n\<close> advances of the iterator from the initial VM of any
  packet procedure, over a data source whose blocks are not empty and end before the bit
  \<open>2 ^ 64\<close>, in which no state is at the end of the iterator or escaped, and one more
  advance which returns, from \<open>vm\<close> to \<open>vm'\<close>. When \<open>vm\<close> is not at the beginning of a
  packet, the offset of the iterator does not decrease and its mark is one more, so that
  it is greater unless it was \<open>2 ^ 64 - 1\<close>: this is the order of the specification for any
  two consecutive elements of a packet, up to the element which ends it. When \<open>vm\<close> is at
  the beginning of a packet, either the iterator is then at its end, or the offset of the
  iterator does not decrease, it is the offset of the head, and the mark restarts at 1:
  across a packet boundary the offset is kept and only the mark goes back.
\<close>

theorem element_order:
  assumes src: "blocksInRange src"
    and run: "nextElems rd src n (Vm_init pp) = Some vm"
    and clean: "\<forall>m \<le> n. \<forall>vm0. nextElems rd src m (Vm_init pp) = Some vm0 \<longrightarrow>
                  \<not> atEnd vm0 \<and> \<not> escaped vm0"
    and nxt: "nextElem rd src vm = Some (Ret () vm')"
  shows "(theState (pos vm) \<noteq> BEGIN_PKT \<longrightarrow>
            it_offset (iter vm) \<le> it_offset (iter vm')
            \<and> it_mark (iter vm') = it_mark (iter vm) + 1
            \<and> (it_mark (iter vm) \<noteq> - 1 \<longrightarrow> it_mark (iter vm) < it_mark (iter vm')))
         \<and> (theState (pos vm) = BEGIN_PKT \<longrightarrow>
              atEnd vm'
              \<or> it_offset (iter vm) \<le> it_offset (iter vm')
                 \<and> it_offset (iter vm') = headOffsetInElemSeqBits (pos vm)
                 \<and> it_mark (iter vm') = 1)"
proof -
  from run_invariant [OF src run clean] have ok: "vmOK vm" and it: "itOK vm" by simp_all
  from ok have "unat (headOffsetInElemSeqBits (pos vm)) = headOffsetNat vm"
    by (simp add: vmOK_def unat_headOffsetInElemSeqBits)
  with nextElem_order [OF src ok it nxt] show ?thesis
    by (auto simp: word_le_nat_alt word_unat_eq_iff)
qed

lemma exampleRun_clean:
  assumes "m \<le> 1"
    and "nextElems exampleReaderFuncs (chunkSrc [[0x2A, 0x2B]]) m (Vm_init byteHeaderPktProc)
           = Some vm0"
  shows "\<not> atEnd vm0 \<and> \<not> escaped vm0"
proof -
  from assms(1) have "m = 0 \<or> m = 1" by linarith
  then show ?thesis
  proof
    assume "m = 0"
    with assms(2) show ?thesis
      by (auto simp: atEnd_def escaped_def Vm_init_def VmPos_init_def END_OFFSET_def)
  next
    assume "m = 1"
    with assms(2) show ?thesis
      by (auto simp: atEnd_def escaped_def END_OFFSET_def run_eval
          split: option.splits result.splits if_splits)
  qed
qed

theorem element_order_witness:
  "blocksInRange (chunkSrc [[0x2A, 0x2B]])
   \<and> exampleRun 0 = Some (Vm_init byteHeaderPktProc)
   \<and> theState (pos (Vm_init byteHeaderPktProc)) = BEGIN_PKT
   \<and> nextElem exampleReaderFuncs (chunkSrc [[0x2A, 0x2B]]) (Vm_init byteHeaderPktProc)
       = Some (Ret () (the (exampleRun 1)))
   \<and> \<not> atEnd (the (exampleRun 1))
   \<and> it_offset (iter (the (exampleRun 1))) = 0
   \<and> it_mark (iter (the (exampleRun 1))) = 1
   \<and> exampleRun 1 = Some (the (exampleRun 1))
   \<and> theState (pos (the (exampleRun 1))) = BEGIN_PKT_CONTENT
   \<and> nextElem exampleReaderFuncs (chunkSrc [[0x2A, 0x2B]]) (the (exampleRun 1))
       = Some (Ret () (the (exampleRun 2)))
   \<and> it_offset (iter (the (exampleRun 1))) \<le> it_offset (iter (the (exampleRun 2)))
   \<and> it_mark (iter (the (exampleRun 2))) = 2"
proof -
  let ?src = "chunkSrc [[0x2A, 0x2B]]"
  let ?v0 = "Vm_init byteHeaderPktProc"
  let ?v1 = "the (exampleRun 1)"
  let ?v2 = "the (exampleRun 2)"
  have r0: "nextElems exampleReaderFuncs ?src 0 ?v0 = Some ?v0" by simp
  have s0: "theState (pos ?v0) = BEGIN_PKT"
    by (simp add: Vm_init_def VmPos_init_def)
  have n0: "nextElem exampleReaderFuncs ?src ?v0 = Some (Ret () ?v1)"
    by (simp add: run_eval)
  have r1: "nextElems exampleReaderFuncs ?src 1 ?v0 = Some ?v1"
    by (simp add: run_eval)
  have s1: "theState (pos ?v1) = BEGIN_PKT_CONTENT" and e1: "\<not> atEnd ?v1"
    and m1: "it_mark (iter ?v1) = 1"
    by (simp_all add: run_eval atEnd_def)
  have n1: "nextElem exampleReaderFuncs ?src ?v1 = Some (Ret () ?v2)"
    by (simp add: run_eval nextElems_numeral)
  have c0: "\<forall>m \<le> 0. \<forall>vm0. nextElems exampleReaderFuncs ?src m ?v0 = Some vm0 \<longrightarrow>
              \<not> atEnd vm0 \<and> \<not> escaped vm0"
    using exampleRun_clean [of 0] by (simp del: nextElems.simps)
  have c1: "\<forall>m \<le> 1. \<forall>vm0. nextElems exampleReaderFuncs ?src m ?v0 = Some vm0 \<longrightarrow>
              \<not> atEnd vm0 \<and> \<not> escaped vm0"
    using exampleRun_clean by blast
  from element_order [OF blocksInRange_example r0 c0 n0] s0 e1
  have a: "it_offset (iter ?v1) = headOffsetInElemSeqBits (pos ?v0)" "it_mark (iter ?v1) = 1"
    by simp_all
  then have a': "it_offset (iter ?v1) = 0"
    by (simp add: headOffsetInElemSeqBits_def Vm_init_def VmPos_init_def)
  from element_order [OF blocksInRange_example r1 c1 n1] s1 m1
  have b: "it_offset (iter ?v1) \<le> it_offset (iter ?v2)" "it_mark (iter ?v2) = 2"
    by simp_all
  from r1 have r1': "exampleRun 1 = Some ?v1"
    by (simp add: exampleRun_def)
  from blocksInRange_example s0 n0 e1 a' a(2) r1' s1 n1 b show ?thesis
    by (simp add: exampleRun_def)
qed

section \<open>The reset for a new packet\<close>

text \<open>
  C10. \<^verbatim>\<open>resetForNewPkt\<close> sets the head offset to 0, the state to \<open>BEGIN_PKT\<close>, the last
  byte order to none, the current data stream and event record procedures to null, the
  expected total and content lengths to the unset length (all ones), the stack to empty,
  the default clock value to 0 and every saved value to the unset value (all ones); it
  leaves every other field as it was, among them the offset of the packet in the element
  sequence, the last integer value, the current ID and the elements. So the head is, after
  the reset, at the offset of the packet in the element sequence.
\<close>

theorem resetForNewPkt_frame:
  "headOffsetInCurPktBits (resetForNewPkt p) = 0
   \<and> theState (resetForNewPkt p) = BEGIN_PKT
   \<and> lastBo (resetForNewPkt p) = None
   \<and> curDsPktProc (resetForNewPkt p) = None
   \<and> curErProc (resetForNewPkt p) = None
   \<and> curExpectedPktTotalLenBits (resetForNewPkt p) = 0xFFFFFFFFFFFFFFFF
   \<and> curExpectedPktContentLenBits (resetForNewPkt p) = 0xFFFFFFFFFFFFFFFF
   \<and> stack (resetForNewPkt p) = []
   \<and> defClkVal (resetForNewPkt p) = 0
   \<and> savedVals (resetForNewPkt p) = replicate (length (savedVals p)) 0xFFFFFFFFFFFFFFFF
   \<and> curPktOffsetInElemSeqBits (resetForNewPkt p) = curPktOffsetInElemSeqBits p
   \<and> lastIntVal (resetForNewPkt p) = lastIntVal p
   \<and> curId (resetForNewPkt p) = curId p
   \<and> elems (resetForNewPkt p) = elems p
   \<and> postSkipBitsState (resetForNewPkt p) = postSkipBitsState p
   \<and> postEndStrState (resetForNewPkt p) = postEndStrState p
   \<and> remBitsToSkip (resetForNewPkt p) = remBitsToSkip p
   \<and> pktProc (resetForNewPkt p) = pktProc p
   \<and> uuid (resetForNewPkt p) = uuid p
   \<and> headOffsetInElemSeqBits (resetForNewPkt p) = curPktOffsetInElemSeqBits p"
  by (simp add: resetForNewPkt_def SIZE_UNSET_def SAVED_VAL_UNSET_def headOffsetInElemSeqBits_def
      map_replicate_const)

end
